(* ===== verification/Velcrux_Prelude.thy ===== *)
theory Velcrux_Prelude
  imports Main "HOL-Library.Word"
begin

text \<open>
  The vocabulary that every component of the development shares: machine words and byte
  strings, the result type of fallible Rust code with its three outcomes (a value, an
  error, a panic), checked slice and index access, little-endian integers, the checked
  and saturating arithmetic of the standard library, and the lemma collections that the
  component proofs use.
\<close>

section \<open>Types\<close>

type_synonym byte = "8 word"
type_synonym u8 = "8 word"
type_synonym u16 = "16 word"
type_synonym u32 = "32 word"
type_synonym u64 = "64 word"
type_synonym bytes = "8 word list"

text \<open>
  The outcome of a Rust call of type \<open>Result<T, E>\<close>: \<open>Ok\<close> and \<open>Err\<close> as in the source, and
  \<open>Panic\<close> for an out-of-range slice or index or a failed assertion. A definition never hides
  a panic in an unspecified value, so "this decoder does not panic" is a statement about
  the model. Unchecked word arithmetic wraps, as it does in the release profile.
\<close>

datatype ('e, 'a) res = Ok 'a | Err 'e | Panic

named_theorems res_simps \<open>rewrite rules for sequenced results and checked accesses\<close>
named_theorems no_panic \<open>introduction rules for absence of panics\<close>
named_theorems codec_simps \<open>rewrite rules for decoding what an encoder wrote\<close>

section \<open>Sequencing\<close>

text \<open>The \<open>?\<close> operator: stop at the first error or panic.\<close>

fun and_then :: "('e, 'a) res \<Rightarrow> ('a \<Rightarrow> ('e, 'b) res) \<Rightarrow> ('e, 'b) res" where
  "and_then (Ok x) f = f x"
| "and_then (Err e) f = Err e"
| "and_then Panic f = Panic"

text \<open>\<open>Result::map_err\<close> and the \<open>From\<close> conversions that \<open>?\<close> inserts.\<close>

fun map_err :: "('e \<Rightarrow> 'f) \<Rightarrow> ('e, 'a) res \<Rightarrow> ('f, 'a) res" where
  "map_err g (Ok x) = Ok x"
| "map_err g (Err e) = Err (g e)"
| "map_err g Panic = Panic"

text \<open>\<open>Option::ok_or\<close>.\<close>

definition ok_or :: "'a option \<Rightarrow> 'e \<Rightarrow> ('e, 'a) res" where
  "ok_or m e = (case m of Some x \<Rightarrow> Ok x | None \<Rightarrow> Err e)"

text \<open>\<open>Option::unwrap\<close> and \<open>expect\<close>.\<close>

definition unwrap :: "'a option \<Rightarrow> ('e, 'a) res" where
  "unwrap m = (case m of Some x \<Rightarrow> Ok x | None \<Rightarrow> Panic)"

lemma and_then_cong [fundef_cong]:
  assumes "m = m'" and "\<And>x. m' = Ok x \<Longrightarrow> f x = g x"
  shows "and_then m f = and_then m' g"
  using assms by (cases m') auto

lemma and_then_eq_Ok [res_simps]:
  "and_then m f = Ok y \<longleftrightarrow> (\<exists>x. m = Ok x \<and> f x = Ok y)"
  by (cases m) auto

lemma and_then_eq_Panic [res_simps]:
  "and_then m f = Panic \<longleftrightarrow> m = Panic \<or> (\<exists>x. m = Ok x \<and> f x = Panic)"
  by (cases m) auto

lemma and_then_eq_Err [res_simps]:
  "and_then m f = Err e \<longleftrightarrow> m = Err e \<or> (\<exists>x. m = Ok x \<and> f x = Err e)"
  by (cases m) auto

lemma and_then_assoc: "and_then (and_then m f) g = and_then m (\<lambda>x. and_then (f x) g)"
  by (cases m) auto

lemma and_then_no_panic [no_panic]:
  assumes "m \<noteq> Panic" and "\<And>x. m = Ok x \<Longrightarrow> f x \<noteq> Panic"
  shows "and_then m f \<noteq> Panic"
  using assms by (cases m) auto

lemma if_no_panic [no_panic]:
  assumes "c \<Longrightarrow> a \<noteq> Panic" and "\<not> c \<Longrightarrow> b \<noteq> Panic"
  shows "(if c then a else b) \<noteq> Panic"
  using assms by auto

lemma prod_no_panic [no_panic]:
  "(\<And>a b. p = (a, b) \<Longrightarrow> f a b \<noteq> Panic) \<Longrightarrow> (case p of (a, b) \<Rightarrow> f a b) \<noteq> Panic"
  by (cases p) simp

lemma Let_no_panic [no_panic]: "f x \<noteq> Panic \<Longrightarrow> Let x f \<noteq> Panic"
  by simp

lemma Ok_no_panic [no_panic]: "Ok x \<noteq> Panic"
  by simp

lemma Err_no_panic [no_panic]: "Err e \<noteq> Panic"
  by simp

lemma map_err_eq_Ok [res_simps]: "map_err g m = Ok x \<longleftrightarrow> m = Ok x"
  by (cases m) auto

lemma map_err_eq_Panic [res_simps]: "map_err g m = Panic \<longleftrightarrow> m = Panic"
  by (cases m) auto

lemma map_err_no_panic [no_panic]: "m \<noteq> Panic \<Longrightarrow> map_err g m \<noteq> Panic"
  by (cases m) auto

lemma ok_or_simps [simp]: "ok_or (Some x) e = Ok x" "ok_or None e = Err e"
  by (simp_all add: ok_or_def)

lemma ok_or_no_panic [no_panic]: "ok_or m e \<noteq> Panic"
  by (cases m) auto

lemma ok_or_eq_Ok [res_simps]: "ok_or m e = Ok x \<longleftrightarrow> m = Some x"
  by (cases m) auto

lemma unwrap_simps [simp]: "unwrap (Some x) = Ok x" "unwrap None = Panic"
  by (simp_all add: unwrap_def)

lemma unwrap_eq_Ok [res_simps]: "unwrap m = Ok x \<longleftrightarrow> m = Some x"
  by (cases m) auto

text \<open>A \<open>for\<close> loop over a list of values, with the variables it changes as its state.\<close>

fun for_loop :: "('a \<Rightarrow> 's \<Rightarrow> ('e, 's) res) \<Rightarrow> 'a list \<Rightarrow> 's \<Rightarrow> ('e, 's) res" where
  "for_loop f [] s = Ok s"
| "for_loop f (x # xs) s = and_then (f x s) (for_loop f xs)"

lemma for_loop_append: "for_loop f (xs @ ys) s = and_then (for_loop f xs s) (for_loop f ys)"
proof (induction xs arbitrary: s)
  case (Cons x xs)
  then show ?case by (cases "f x s") simp_all
qed simp

lemma for_loop_range:
  assumes "I 0 s" and "\<And>i s. i < n \<Longrightarrow> I i s \<Longrightarrow> \<exists>s'. f i s = Ok s' \<and> I (Suc i) s'"
  shows "\<exists>s'. for_loop f [0..<n] s = Ok s' \<and> I n s'"
  using assms(2)
proof (induction n)
  case (Suc n)
  have "\<exists>s1. for_loop f [0..<n] s = Ok s1 \<and> I n s1" using Suc.prems by (intro Suc.IH) auto
  then obtain s1 where s1: "for_loop f [0..<n] s = Ok s1" "I n s1" by blast
  obtain s2 where "f n s1 = Ok s2" "I (Suc n) s2" using Suc.prems [of n s1] s1(2) by auto
  then show ?case using s1(1) by (simp add: for_loop_append)
qed (simp add: assms(1))

section \<open>Slices and indices\<close>

text \<open>\<open>buf[a..b]\<close>, \<open>buf[a..]\<close> and \<open>buf[i]\<close>: out of range they panic.\<close>

definition slice :: "'x list \<Rightarrow> nat \<Rightarrow> nat \<Rightarrow> ('e, 'x list) res" where
  "slice buf a b = (if a \<le> b \<and> b \<le> length buf then Ok (take (b - a) (drop a buf)) else Panic)"

definition slice_from :: "'x list \<Rightarrow> nat \<Rightarrow> ('e, 'x list) res" where
  "slice_from buf a = (if a \<le> length buf then Ok (drop a buf) else Panic)"

definition index :: "'x list \<Rightarrow> nat \<Rightarrow> ('e, 'x) res" where
  "index buf i = (if i < length buf then Ok (buf ! i) else Panic)"

text \<open>\<open>buf[i] = v\<close>.\<close>

definition set_index :: "'x list \<Rightarrow> nat \<Rightarrow> 'x \<Rightarrow> ('e, 'x list) res" where
  "set_index buf i v = (if i < length buf then Ok (buf[i := v]) else Panic)"

text \<open>\<open>out[off..off + bs.len()].copy_from_slice(bs)\<close>.\<close>

definition copy_at :: "'x list \<Rightarrow> nat \<Rightarrow> 'x list \<Rightarrow> ('e, 'x list) res" where
  "copy_at out off bs =
     (if off + length bs \<le> length out
      then Ok (take off out @ bs @ drop (off + length bs) out) else Panic)"

lemma slice_ok [simp]: "a \<le> b \<Longrightarrow> b \<le> length buf \<Longrightarrow> slice buf a b = Ok (take (b - a) (drop a buf))"
  by (simp add: slice_def)

lemma slice_from_ok [simp]: "a \<le> length buf \<Longrightarrow> slice_from buf a = Ok (drop a buf)"
  by (simp add: slice_from_def)

lemma index_ok [simp]: "i < length buf \<Longrightarrow> index buf i = Ok (buf ! i)"
  by (simp add: index_def)

lemma set_index_ok [simp]: "i < length buf \<Longrightarrow> set_index buf i v = Ok (buf[i := v])"
  by (simp add: set_index_def)

lemma copy_at_ok [simp]:
  "off + length bs \<le> length out \<Longrightarrow>
   copy_at out off bs = Ok (take off out @ bs @ drop (off + length bs) out)"
  by (simp add: copy_at_def)

text \<open>Cutting a buffer into fields.\<close>

lemma drop_cut: "drop i xs = take n (drop i xs) @ drop (i + n) xs"
  by (metis add.commute append_take_drop_id drop_drop)

text \<open>A buffer that is filled from the front: \<open>pre\<close> is written, \<open>out\<close> was there before.\<close>

lemma copy_at_front:
  assumes "off = length pre" and "off + length bs \<le> length out"
  shows "copy_at (pre @ drop off out) off bs = Ok ((pre @ bs) @ drop (off + length bs) out)"
  using assms by (simp add: copy_at_def add.commute)

lemma slice_eq_Ok [res_simps]:
  "slice buf a b = Ok s \<longleftrightarrow> a \<le> b \<and> b \<le> length buf \<and> s = take (b - a) (drop a buf)"
  by (auto simp: slice_def)

lemma slice_from_eq_Ok [res_simps]: "slice_from buf a = Ok s \<longleftrightarrow> a \<le> length buf \<and> s = drop a buf"
  by (auto simp: slice_from_def)

lemma index_eq_Ok [res_simps]: "index buf i = Ok x \<longleftrightarrow> i < length buf \<and> x = buf ! i"
  by (auto simp: index_def)

lemma slice_no_panic [no_panic]: "a \<le> b \<Longrightarrow> b \<le> length buf \<Longrightarrow> slice buf a b \<noteq> Panic"
  by simp

lemma slice_from_no_panic [no_panic]: "a \<le> length buf \<Longrightarrow> slice_from buf a \<noteq> Panic"
  by simp

lemma index_no_panic [no_panic]: "i < length buf \<Longrightarrow> index buf i \<noteq> Panic"
  by simp

section \<open>Little-endian integers\<close>

text \<open>\<open>le_put n x\<close> is the \<open>n\<close>-byte little-endian form of \<open>x\<close>; \<open>le_get\<close> reads it back.\<close>

fun le_put :: "nat \<Rightarrow> nat \<Rightarrow> bytes" where
  "le_put 0 x = []"
| "le_put (Suc n) x = word_of_nat (x mod 256) # le_put n (x div 256)"

fun le_get :: "bytes \<Rightarrow> nat" where
  "le_get [] = 0"
| "le_get (b # bs) = unat b + 256 * le_get bs"

lemma length_le_put [simp]: "length (le_put n x) = n"
  by (induction n x rule: le_put.induct) auto

lemma unat_less_2p: "unat (w :: 'a::len word) < 2 ^ LENGTH('a)"
  by (rule unsigned_less)

lemma unat_byte_lt [simp]: "unat (b :: byte) < 256"
  using unat_less_2p [of b] by simp

lemma le_get_bound: "le_get bs < 256 ^ length bs"
proof (induction bs)
  case Nil
  then show ?case by simp
next
  case (Cons b bs)
  have "unat b + 256 * le_get bs < 256 + 256 * le_get bs" by simp
  also have "\<dots> \<le> 256 * 256 ^ length bs"
    using Cons by (metis Suc_leI mult_Suc_right mult_le_mono2)
  finally show ?case by simp
qed

lemma le_get_put: "le_get (le_put n x) = x mod 256 ^ n"
proof (induction n x rule: le_put.induct)
  case (2 n x)
  have "le_get (le_put (Suc n) x) = x mod 256 + 256 * (x div 256 mod 256 ^ n)"
    using 2 by (simp add: unat_of_nat)
  also have "\<dots> = x mod 256 ^ Suc n"
    by (simp add: mod_mult2_eq add.commute)
  finally show ?case .
qed simp

lemma le_put_get: "length bs = n \<Longrightarrow> le_put n (le_get bs) = bs"
proof (induction bs arbitrary: n)
  case (Cons b bs)
  then obtain m where n: "n = Suc m" "length bs = m" by auto
  have "word_of_nat ((unat b + 256 * le_get bs) mod 256) = b"
    by (simp add: mod_less)
  moreover have "(unat b + 256 * le_get bs) div 256 = le_get bs"
    by (simp add: div_mult_self2)
  ultimately show ?case using n Cons.IH by simp
qed simp

definition u16_to_le :: "u16 \<Rightarrow> bytes" where "u16_to_le w = le_put 2 (unat w)"
definition u32_to_le :: "u32 \<Rightarrow> bytes" where "u32_to_le w = le_put 4 (unat w)"
definition u64_to_le :: "u64 \<Rightarrow> bytes" where "u64_to_le w = le_put 8 (unat w)"

definition u16_of_le :: "bytes \<Rightarrow> u16" where "u16_of_le bs = word_of_nat (le_get bs)"
definition u32_of_le :: "bytes \<Rightarrow> u32" where "u32_of_le bs = word_of_nat (le_get bs)"
definition u64_of_le :: "bytes \<Rightarrow> u64" where "u64_of_le bs = word_of_nat (le_get bs)"

lemma length_to_le [simp]:
  "length (u16_to_le a) = 2" "length (u32_to_le b) = 4" "length (u64_to_le c) = 8"
  by (simp_all add: u16_to_le_def u32_to_le_def u64_to_le_def)

lemma u16_of_to_le [simp]: "u16_of_le (u16_to_le w) = w"
  using unat_less_2p [of w] by (simp add: u16_of_le_def u16_to_le_def le_get_put)

lemma u32_of_to_le [simp]: "u32_of_le (u32_to_le w) = w"
  using unat_less_2p [of w] by (simp add: u32_of_le_def u32_to_le_def le_get_put)

lemma u64_of_to_le [simp]: "u64_of_le (u64_to_le w) = w"
  using unat_less_2p [of w] by (simp add: u64_of_le_def u64_to_le_def le_get_put)

lemma u64_to_of_le: "length bs = 8 \<Longrightarrow> u64_to_le (u64_of_le bs) = bs"
  using le_get_bound [of bs] by (simp add: u64_of_le_def u64_to_le_def unat_of_nat le_put_get)

lemma u32_to_of_le: "length bs = 4 \<Longrightarrow> u32_to_le (u32_of_le bs) = bs"
  using le_get_bound [of bs] by (simp add: u32_of_le_def u32_to_le_def unat_of_nat le_put_get)

lemma u16_to_of_le: "length bs = 2 \<Longrightarrow> u16_to_le (u16_of_le bs) = bs"
  using le_get_bound [of bs] by (simp add: u16_of_le_def u16_to_le_def unat_of_nat le_put_get)

text \<open>\<open>u64::from_le_bytes(buf[i..i + 8].try_into().unwrap())\<close> and its kin.\<close>

definition get_u16 :: "bytes \<Rightarrow> nat \<Rightarrow> ('e, u16) res" where
  "get_u16 buf i = and_then (slice buf i (i + 2)) (\<lambda>s. Ok (u16_of_le s))"

definition get_u32 :: "bytes \<Rightarrow> nat \<Rightarrow> ('e, u32) res" where
  "get_u32 buf i = and_then (slice buf i (i + 4)) (\<lambda>s. Ok (u32_of_le s))"

definition get_u64 :: "bytes \<Rightarrow> nat \<Rightarrow> ('e, u64) res" where
  "get_u64 buf i = and_then (slice buf i (i + 8)) (\<lambda>s. Ok (u64_of_le s))"

lemma get_ok [simp]:
  "i + 2 \<le> length buf \<Longrightarrow> get_u16 buf i = Ok (u16_of_le (take 2 (drop i buf)))"
  "i + 4 \<le> length buf \<Longrightarrow> get_u32 buf i = Ok (u32_of_le (take 4 (drop i buf)))"
  "i + 8 \<le> length buf \<Longrightarrow> get_u64 buf i = Ok (u64_of_le (take 8 (drop i buf)))"
  by (simp_all add: get_u16_def get_u32_def get_u64_def)

lemma get_no_panic [no_panic]:
  "i + 2 \<le> length buf \<Longrightarrow> get_u16 buf i \<noteq> Panic"
  "i + 4 \<le> length buf \<Longrightarrow> get_u32 buf i \<noteq> Panic"
  "i + 8 \<le> length buf \<Longrightarrow> get_u64 buf i \<noteq> Panic"
  by simp_all

section \<open>Bits of bounded words\<close>

lemma bit_word_iff_unat: "bit (w :: 'a::len word) j \<longleftrightarrow> odd (unat w div 2 ^ j)"
proof -
  have "bit (unat w) j \<longleftrightarrow> bit w j"
    by (simp add: bit_unsigned_iff)
  then show ?thesis by (simp add: bit_nat_iff bit_iff_odd [of "unat w"])
qed

lemma not_bit_of_bound: "unat (w :: 'a::len word) < 2 ^ n \<Longrightarrow> n \<le> j \<Longrightarrow> \<not> bit w j"
proof -
  assume "unat w < 2 ^ n" and "n \<le> j"
  moreover have "(2::nat) ^ n \<le> 2 ^ j" using \<open>n \<le> j\<close> by (intro power_increasing) auto
  ultimately have "unat w < 2 ^ j" by linarith
  then show ?thesis by (simp add: bit_word_iff_unat)
qed

section \<open>Checked and saturating arithmetic\<close>

text \<open>
  \<open>usize\<close> is 64 bits wide. Lengths and positions are natural numbers in the model;
  \<open>usize_checked_add\<close> is the \<open>checked_add\<close> the decoders apply to declared lengths.
\<close>

definition usize_checked_add :: "nat \<Rightarrow> nat \<Rightarrow> nat option" where
  "usize_checked_add a b = (if a + b < 2 ^ 64 then Some (a + b) else None)"

definition usize_checked_mul :: "nat \<Rightarrow> nat \<Rightarrow> nat option" where
  "usize_checked_mul a b = (if a * b < 2 ^ 64 then Some (a * b) else None)"

definition checked_add :: "'a::len word \<Rightarrow> 'a word \<Rightarrow> 'a word option" where
  "checked_add a b = (if unat a + unat b < 2 ^ LENGTH('a) then Some (a + b) else None)"

definition saturating_add :: "'a::len word \<Rightarrow> 'a word \<Rightarrow> 'a word" where
  "saturating_add a b = (if unat a + unat b < 2 ^ LENGTH('a) then a + b else - 1)"

definition saturating_sub :: "'a::len word \<Rightarrow> 'a word \<Rightarrow> 'a word" where
  "saturating_sub a b = (if b \<le> a then a - b else 0)"

lemma usize_checked_add_Some [simp]: "a + b < 2 ^ 64 \<Longrightarrow> usize_checked_add a b = Some (a + b)"
  by (simp add: usize_checked_add_def)

lemma usize_checked_add_eq_Some [res_simps]:
  "usize_checked_add a b = Some c \<longleftrightarrow> a + b < 2 ^ 64 \<and> c = a + b"
  by (auto simp: usize_checked_add_def)

lemma usize_checked_mul_eq_Some [res_simps]:
  "usize_checked_mul a b = Some c \<longleftrightarrow> a * b < 2 ^ 64 \<and> c = a * b"
  by (auto simp: usize_checked_mul_def)

lemma unat_checked_add:
  "checked_add a b = Some (c :: 'a::len word) \<longleftrightarrow> unat a + unat b < 2 ^ LENGTH('a) \<and> c = a + b"
  by (auto simp: checked_add_def)

lemma unat_saturating_add:
  "unat (saturating_add a b :: 'a::len word) = min (unat a + unat b) (2 ^ LENGTH('a) - 1)"
proof (cases "unat a + unat b < 2 ^ LENGTH('a)")
  case True
  then show ?thesis by (simp add: saturating_add_def unat_word_ariths)
next
  case False
  then show ?thesis by (simp add: saturating_add_def unsigned_minus_1_eq_mask mask_eq_exp_minus_1)
qed

lemma unat_saturating_sub: "unat (saturating_sub a b :: 'a::len word) = unat a - unat b"
  by (auto simp: saturating_sub_def unat_sub word_le_nat_alt)

end
