(* ===== verification/Rust_Str.thy ===== *)
theory Rust_Str
  imports Velcrux_Prelude
begin

text \<open>
  The part of Rust's \<open>str\<close> the sources use. A string is its UTF-8 byte sequence, as in
  Rust, where \<open>len\<close> counts bytes; \<open>utf8_valid\<close> is the check of \<open>std::str::from_utf8\<close>
  (the well-formed sequences of the Unicode standard), \<open>str_truncate\<close> is
  \<open>String::truncate\<close> with its panic off a character boundary, \<open>show_nat\<close> the decimal
  form that \<open>format!\<close> prints.
\<close>

definition is_cont :: "byte \<Rightarrow> bool" where
  "is_cont b \<longleftrightarrow> 0x80 \<le> b \<and> b \<le> 0xBF"

text \<open>The second byte that may follow a lead byte (overlong forms, surrogates and values
  beyond the last code point are excluded here).\<close>

definition second_ok :: "byte \<Rightarrow> byte \<Rightarrow> bool" where
  "second_ok a b \<longleftrightarrow>
     (if a = 0xE0 then 0xA0 \<le> b \<and> b \<le> 0xBF
      else if a = 0xED then 0x80 \<le> b \<and> b \<le> 0x9F
      else if a = 0xF0 then 0x90 \<le> b \<and> b \<le> 0xBF
      else if a = 0xF4 then 0x80 \<le> b \<and> b \<le> 0x8F
      else is_cont b)"

text \<open>The length of the sequence a lead byte announces, 0 if it is no lead byte.\<close>

definition lead_width :: "byte \<Rightarrow> nat" where
  "lead_width a =
     (if a < 0x80 then 1
      else if 0xC2 \<le> a \<and> a \<le> 0xDF then 2
      else if 0xE0 \<le> a \<and> a \<le> 0xEF then 3
      else if 0xF0 \<le> a \<and> a \<le> 0xF4 then 4
      else 0)"

text \<open>The number of bytes of the well-formed sequence a byte string starts with, 0 if none.\<close>

definition utf8_first :: "bytes \<Rightarrow> nat" where
  "utf8_first s =
     (case s of
        [] \<Rightarrow> 0
      | a # r \<Rightarrow>
          if lead_width a \<le> length s
             \<and> (2 \<le> lead_width a \<longrightarrow> second_ok a (s ! 1))
             \<and> (3 \<le> lead_width a \<longrightarrow> is_cont (s ! 2))
             \<and> (4 \<le> lead_width a \<longrightarrow> is_cont (s ! 3))
          then lead_width a else 0)"

lemma second_ok_cont: "second_ok a b \<Longrightarrow> is_cont b"
proof -
  assume "second_ok a b"
  then have "128 \<le> unat b \<and> unat b \<le> 191"
    by (auto simp: second_ok_def is_cont_def word_le_nat_alt split: if_splits)
  then show ?thesis by (simp add: is_cont_def word_le_nat_alt)
qed

lemma lead_width_le: "lead_width a \<le> 4"
  by (simp add: lead_width_def)

lemma utf8_first_le: "utf8_first s \<le> length s"
  by (auto simp: utf8_first_def split: list.splits)

function utf8_valid :: "bytes \<Rightarrow> bool" where
  "utf8_valid s =
     (if s = [] then True
      else if utf8_first s = 0 then False
      else utf8_valid (drop (utf8_first s) s))"
  by pat_completeness auto
termination
  by (relation "measure length") (auto simp: Suc_le_eq)

declare utf8_valid.simps [simp del]

definition from_utf8 :: "bytes \<Rightarrow> 'e \<Rightarrow> ('e, bytes) res" where
  "from_utf8 bs e = (if utf8_valid bs then Ok bs else Err e)"

lemma from_utf8_ok [simp]: "utf8_valid bs \<Longrightarrow> from_utf8 bs e = Ok bs"
  by (simp add: from_utf8_def)

lemma from_utf8_eq_Ok [res_simps]: "from_utf8 bs e = Ok s \<longleftrightarrow> utf8_valid bs \<and> s = bs"
  by (auto simp: from_utf8_def)

lemma from_utf8_no_panic [no_panic]: "from_utf8 bs e \<noteq> Panic"
  by (simp add: from_utf8_def)

lemma utf8_valid_Nil [simp]: "utf8_valid []"
  by (simp add: utf8_valid.simps)

lemma utf8_valid_ascii_Cons: "a < 0x80 \<Longrightarrow> utf8_valid (a # r) = utf8_valid r"
  by (subst utf8_valid.simps) (simp add: utf8_first_def lead_width_def)

lemma utf8_valid_ascii: "\<forall>b \<in> set s. b < 0x80 \<Longrightarrow> utf8_valid s"
  by (induction s) (simp_all add: utf8_valid_ascii_Cons)

text \<open>An ASCII literal of the source as bytes.\<close>

definition lit :: "string \<Rightarrow> bytes" where
  "lit cs = map of_char cs"

section \<open>Character boundaries\<close>

definition is_char_boundary :: "bytes \<Rightarrow> nat \<Rightarrow> bool" where
  "is_char_boundary s n \<longleftrightarrow> n = 0 \<or> n = length s \<or> (n < length s \<and> \<not> is_cont (s ! n))"

definition str_truncate :: "bytes \<Rightarrow> nat \<Rightarrow> ('e, bytes) res" where
  "str_truncate s n =
     (if n \<le> length s then (if is_char_boundary s n then Ok (take n s) else Panic) else Ok s)"

lemma utf8_first_tail_cont:
  assumes "0 < i" and "i < utf8_first s"
  shows "is_cont (s ! i)"
proof -
  obtain a r where s: "s = a # r" using assms by (cases s) (auto simp: utf8_first_def)
  have w: "i < lead_width a"
    and c: "2 \<le> lead_width a \<longrightarrow> is_cont (s ! 1)" "3 \<le> lead_width a \<longrightarrow> is_cont (s ! 2)"
      "4 \<le> lead_width a \<longrightarrow> is_cont (s ! 3)"
    using assms(2) by (auto simp: s utf8_first_def second_ok_cont split: if_splits)
  have "i = 1 \<or> i = 2 \<or> i = 3" using w assms(1) lead_width_le [of a] by linarith
  then show ?thesis using w c by auto
qed

lemma utf8_first_take:
  assumes "utf8_first s \<noteq> 0" and "utf8_first s \<le> n"
  shows "utf8_first (take n s) = utf8_first s"
proof -
  obtain a r where s: "s = a # r" using assms by (cases s) (auto simp: utf8_first_def)
  have k: "utf8_first s = lead_width a" "lead_width a \<le> length s" "lead_width a \<le> n"
    using assms by (auto simp: s utf8_first_def split: if_splits)
  then obtain m where n: "n = Suc m" using assms by (cases n) auto
  show ?thesis using assms k by (auto simp: s n utf8_first_def split: if_splits)
qed

text \<open>Truncation at a character boundary keeps a string well-formed.\<close>

lemma utf8_valid_take:
  assumes "utf8_valid s" and "is_char_boundary s n"
  shows "utf8_valid (take n s)"
  using assms
proof (induction s arbitrary: n rule: utf8_valid.induct)
  case (1 s)
  let ?k = "utf8_first s"
  show ?case
  proof (cases "s = [] \<or> n = 0 \<or> n \<ge> length s")
    case True
    then show ?thesis using "1.prems"(1) by auto
  next
    case False
    then have ne: "s \<noteq> []" and n: "0 < n" "n < length s" by auto
    have k: "?k \<noteq> 0" and tl: "utf8_valid (drop ?k s)"
      using "1.prems"(1) ne by (auto simp: utf8_valid.simps [of s] split: if_splits)
    have nc: "\<not> is_cont (s ! n)" using "1.prems"(2) n by (auto simp: is_char_boundary_def)
    then have kn: "?k \<le> n" using utf8_first_tail_cont [of n s] n by force
    have "is_char_boundary (drop ?k s) (n - ?k)"
      using nc n kn by (auto simp: is_char_boundary_def)
    then have "utf8_valid (take (n - ?k) (drop ?k s))"
      using "1.IH" [OF ne k tl] by blast
    then have "utf8_valid (drop ?k (take n s))" by (simp add: drop_take)
    moreover have "take n s \<noteq> []" using ne n by simp
    ultimately show ?thesis
      using k kn by (subst utf8_valid.simps) (simp add: utf8_first_take)
  qed
qed

section \<open>Decimal output\<close>

function show_nat :: "nat \<Rightarrow> string" where
  "show_nat n = (if n < 10 then [char_of (48 + n)] else show_nat (n div 10) @ [char_of (48 + n mod 10)])"
  by pat_completeness auto
termination
  by (relation "measure id") auto

declare show_nat.simps [simp del]

end
