(* ===== verification/Wire_Errors.thy ===== *)
theory Wire_Errors
  imports Rust_Str
begin

text \<open>
  The named limits of \<open>protocol/limits.rs\<close>, the error enums of \<open>error.rs\<close>, the wire error
  codes and the sanitised error detail of \<open>protocol/error.rs\<close>. The lemmas show that the
  code table is a bijection on the named codes and fails closed elsewhere, that the
  detail a peer sees does not tell a denied path from a missing one, and when
  \<open>ErrorDetail::new\<close> panics.
\<close>

section \<open>Limits\<close>

definition PROTOCOL_VERSION :: u8 where [simp]: "PROTOCOL_VERSION = 1"
definition MAX_MESSAGE_SIZE :: u64 where [simp]: "MAX_MESSAGE_SIZE = 1048576"
definition MAX_CHUNK_SIZE :: u64 where [simp]: "MAX_CHUNK_SIZE = 4194304"
definition MAX_MANIFEST_ENTRIES :: u64 where [simp]: "MAX_MANIFEST_ENTRIES = 50000000"
definition MAX_MANIFEST_BYTES :: u64 where [simp]: "MAX_MANIFEST_BYTES = 8589934592"
definition MANIFEST_BATCH_SIZE :: nat where [simp]: "MANIFEST_BATCH_SIZE = 4096"
definition MAX_BATCH_DECOMPRESSED_BYTES :: nat where [simp]: "MAX_BATCH_DECOMPRESSED_BYTES = 16777216"
definition MAX_PATH_COMPONENT :: nat where [simp]: "MAX_PATH_COMPONENT = 255"
definition MAX_PATH_TOTAL :: nat where [simp]: "MAX_PATH_TOTAL = 4096"
definition MAX_ERROR_DETAIL :: nat where [simp]: "MAX_ERROR_DETAIL = 256"
definition MAX_AUTH_TOKEN :: nat where [simp]: "MAX_AUTH_TOKEN = 4096"
definition MAX_IDENTITY_LEN :: nat where [simp]: "MAX_IDENTITY_LEN = 255"
definition MAX_PATH_DEPTH :: nat where [simp]: "MAX_PATH_DEPTH = 128"

section \<open>Protocol errors\<close>

text \<open>The enum \<open>ProtocolError\<close>; the checksum variant carries the two 32-byte hashes.\<close>

datatype protocol_error =
    Empty
  | NonCanonicalVarint
  | VarintOverflow
  | FrameTooLarge (declared: u64) (limit: u64)
  | VersionMismatch (got: u8) (expected: u8)
  | UnsupportedMessage u8
  | InvalidStateTransition string
  | Malformed string
  | InvalidPath
  | InvalidIdentity string
  | PermissionDenied
  | InvalidManifest string
  | ResourceLimitExceeded string
  | QuotaExceeded string
  | DecompressionBomb string
  | DiskFull string
  | ChecksumMismatch u64 bytes bytes

section \<open>Wire error codes\<close>

datatype error_code =
    AuthFailed | PermissionDenied | ProtocolVersionUnsupported | ProtocolViolation
  | UnsupportedMessage | FileNotFound | InvalidPath | TransferNotFound | InvalidManifest
  | ChunkNotFound | ChecksumMismatch | PartialWrite | ResourceLimit | ServerBusy | DiskFull
  | QuotaExceeded | TransferCancelled | NetworkError | InternalError

fun retryable :: "error_code \<Rightarrow> bool" where
  "retryable c =
     (c = ChunkNotFound \<or> c = error_code.ChecksumMismatch \<or> c = PartialWrite \<or> c = ResourceLimit
      \<or> c = ServerBusy \<or> c = error_code.DiskFull \<or> c = NetworkError \<or> c = InternalError)"

fun error_code_to_wire :: "error_code \<Rightarrow> u32" where
  "error_code_to_wire AuthFailed = 1000"
| "error_code_to_wire error_code.PermissionDenied = 1001"
| "error_code_to_wire ProtocolVersionUnsupported = 1002"
| "error_code_to_wire ProtocolViolation = 1003"
| "error_code_to_wire error_code.UnsupportedMessage = 1004"
| "error_code_to_wire FileNotFound = 2000"
| "error_code_to_wire error_code.InvalidPath = 2001"
| "error_code_to_wire TransferNotFound = 2002"
| "error_code_to_wire error_code.InvalidManifest = 2003"
| "error_code_to_wire ChunkNotFound = 2004"
| "error_code_to_wire error_code.ChecksumMismatch = 3000"
| "error_code_to_wire PartialWrite = 3001"
| "error_code_to_wire ResourceLimit = 4000"
| "error_code_to_wire ServerBusy = 4001"
| "error_code_to_wire error_code.DiskFull = 4002"
| "error_code_to_wire error_code.QuotaExceeded = 4003"
| "error_code_to_wire TransferCancelled = 5000"
| "error_code_to_wire NetworkError = 5001"
| "error_code_to_wire InternalError = 5002"

definition error_code_from_wire :: "u32 \<Rightarrow> error_code" where
  "error_code_from_wire code =
     (if code = 1000 then AuthFailed
      else if code = 1001 then error_code.PermissionDenied
      else if code = 1002 then ProtocolVersionUnsupported
      else if code = 1003 then ProtocolViolation
      else if code = 1004 then error_code.UnsupportedMessage
      else if code = 2000 then FileNotFound
      else if code = 2001 then error_code.InvalidPath
      else if code = 2002 then TransferNotFound
      else if code = 2003 then error_code.InvalidManifest
      else if code = 2004 then ChunkNotFound
      else if code = 3000 then error_code.ChecksumMismatch
      else if code = 3001 then PartialWrite
      else if code = 4000 then ResourceLimit
      else if code = 4001 then ServerBusy
      else if code = 4002 then error_code.DiskFull
      else if code = 4003 then error_code.QuotaExceeded
      else if code = 5000 then TransferCancelled
      else if code = 5001 then NetworkError
      else if code = 5002 then InternalError
      else InternalError)"

lemma error_code_wire_roundtrip [simp]: "error_code_from_wire (error_code_to_wire c) = c"
  by (cases c) (simp_all add: error_code_from_wire_def)

lemma error_code_to_wire_inj: "error_code_to_wire a = error_code_to_wire b \<Longrightarrow> a = b"
  by (metis error_code_wire_roundtrip)

text \<open>The static table \<open>ERROR_CODE_NAMES\<close>.\<close>

definition ERROR_CODE_NAMES :: "(u32 \<times> string) list" where
  "ERROR_CODE_NAMES =
     [(1000, ''AUTH_FAILED''), (1001, ''PERMISSION_DENIED''),
      (1002, ''PROTOCOL_VERSION_UNSUPPORTED''), (1003, ''PROTOCOL_VIOLATION''),
      (1004, ''UNSUPPORTED_MESSAGE''), (2000, ''FILE_NOT_FOUND''), (2001, ''INVALID_PATH''),
      (2002, ''TRANSFER_NOT_FOUND''), (2003, ''INVALID_MANIFEST''), (2004, ''CHUNK_NOT_FOUND''),
      (3000, ''CHECKSUM_MISMATCH''), (3001, ''PARTIAL_WRITE''), (4000, ''RESOURCE_LIMIT''),
      (4001, ''SERVER_BUSY''), (4002, ''DISK_FULL''), (4003, ''QUOTA_EXCEEDED''),
      (5000, ''TRANSFER_CANCELLED''), (5001, ''NETWORK_ERROR''), (5002, ''INTERNAL_ERROR'')]"

lemma error_code_names_complete: "error_code_to_wire c \<in> fst ` set ERROR_CODE_NAMES"
  by (cases c) (simp_all add: ERROR_CODE_NAMES_def)

lemma error_code_names_sound:
  "n \<in> fst ` set ERROR_CODE_NAMES \<Longrightarrow> error_code_to_wire (error_code_from_wire n) = n"
  by (auto simp: ERROR_CODE_NAMES_def error_code_from_wire_def)

lemma error_code_from_wire_unknown:
  "n \<notin> fst ` set ERROR_CODE_NAMES \<Longrightarrow> error_code_from_wire n = InternalError"
  by (simp add: ERROR_CODE_NAMES_def error_code_from_wire_def)

section \<open>Error details\<close>

datatype error_detail = ErrorDetail (detail_str: bytes)

definition error_detail_new :: "bytes \<Rightarrow> (protocol_error, error_detail) res" where
  "error_detail_new s =
     (if length s > MAX_ERROR_DETAIL
      then and_then (str_truncate s MAX_ERROR_DETAIL) (\<lambda>t. Ok (ErrorDetail t))
      else Ok (ErrorDetail s))"

definition not_found_or_denied :: "(protocol_error, error_detail) res" where
  "not_found_or_denied = error_detail_new (lit ''not found'')"

fun protocol_error_category :: "protocol_error \<Rightarrow> string" where
  "protocol_error_category Empty = ''empty frame''"
| "protocol_error_category NonCanonicalVarint = ''non-canonical varint''"
| "protocol_error_category VarintOverflow = ''varint overflow''"
| "protocol_error_category (FrameTooLarge _ _) = ''frame too large''"
| "protocol_error_category (VersionMismatch _ _) = ''version mismatch''"
| "protocol_error_category (protocol_error.UnsupportedMessage _) = ''unsupported message''"
| "protocol_error_category (InvalidStateTransition _) = ''invalid state transition''"
| "protocol_error_category (Malformed _) = ''malformed payload''"
| "protocol_error_category protocol_error.InvalidPath = ''not found''"
| "protocol_error_category (InvalidIdentity _) = ''invalid identity''"
| "protocol_error_category protocol_error.PermissionDenied = ''not found''"
| "protocol_error_category (protocol_error.InvalidManifest _) = ''invalid manifest''"
| "protocol_error_category (ResourceLimitExceeded _) = ''resource limit exceeded''"
| "protocol_error_category (protocol_error.QuotaExceeded _) = ''quota exceeded''"
| "protocol_error_category (DecompressionBomb _) = ''decompression limit exceeded''"
| "protocol_error_category (protocol_error.DiskFull _) = ''disk full''"
| "protocol_error_category (protocol_error.ChecksumMismatch _ _ _) = ''checksum mismatch''"

definition error_detail_from_protocol_error :: "protocol_error \<Rightarrow> (protocol_error, error_detail) res" where
  "error_detail_from_protocol_error e = error_detail_new (lit (protocol_error_category e))"

text \<open>What a well-formed detail is: a Rust string of at most \<open>MAX_ERROR_DETAIL\<close> bytes.\<close>

definition wf_detail :: "error_detail \<Rightarrow> bool" where
  "wf_detail d \<longleftrightarrow> utf8_valid (detail_str d) \<and> length (detail_str d) \<le> MAX_ERROR_DETAIL"

lemma error_detail_new_wf:
  assumes "utf8_valid s" and "error_detail_new s = Ok d"
  shows "wf_detail d"
proof (cases "length s > MAX_ERROR_DETAIL")
  case True
  then have "is_char_boundary s MAX_ERROR_DETAIL" "d = ErrorDetail (take MAX_ERROR_DETAIL s)"
    using assms(2) by (auto simp: error_detail_new_def str_truncate_def split: if_splits)
  then show ?thesis using utf8_valid_take [OF assms(1)] True by (simp add: wf_detail_def)
next
  case False
  then show ?thesis using assms by (auto simp: error_detail_new_def wf_detail_def)
qed

lemma error_detail_new_panics_iff:
  "error_detail_new s = Panic \<longleftrightarrow>
     length s > MAX_ERROR_DETAIL \<and> \<not> is_char_boundary s MAX_ERROR_DETAIL"
  by (auto simp: error_detail_new_def str_truncate_def)

lemma error_detail_category_ok:
  "error_detail_from_protocol_error e = Ok (ErrorDetail (lit (protocol_error_category e)))"
  by (cases e) (simp_all add: error_detail_from_protocol_error_def error_detail_new_def lit_def)

end
