(* ===== verification/Codec.thy ===== *)
theory Codec
  imports Wire_Errors
begin

text \<open>
  The interfaces of the wire layer, as locales. A \<open>prefix_codec\<close> reads one field from the
  front of a buffer and says how many bytes it used; a \<open>message_codec\<close> encodes and decodes
  a whole payload; a \<open>strict_codec\<close> is one whose decoder only produces messages that its
  encoder accepts; a \<open>flag_set\<close> is a set of named flags kept in a machine word. Every
  codec of the protocol is an interpretation of one of them.
\<close>

section \<open>Fields\<close>

locale prefix_codec =
  fixes enc :: "'a \<Rightarrow> bytes"
    and dec :: "bytes \<Rightarrow> (protocol_error, 'a \<times> nat) res"
    and ok :: "'a \<Rightarrow> bool"
  assumes dec_enc: "ok x \<Longrightarrow> dec (enc x @ rest) = Ok (x, length (enc x))"
    and dec_bound: "dec buf = Ok (x, n) \<Longrightarrow> 0 < n \<and> n \<le> length buf"
    and dec_total: "dec buf \<noteq> Panic"
begin

text \<open>Fields are self-delimiting: two encodings in front of any bytes differ.\<close>

lemma enc_prefix_unique:
  assumes "ok x" and "ok y" and "enc x @ r = enc y @ s"
  shows "x = y \<and> r = s"
proof -
  have "Ok (x, length (enc x)) = Ok (y, length (enc y))"
    using dec_enc [OF assms(1), of r] dec_enc [OF assms(2), of s] assms(3) by simp
  then show ?thesis using assms(3) by simp
qed

lemma enc_nonempty: "ok x \<Longrightarrow> enc x \<noteq> []"
  using dec_enc [of x "[]"] dec_bound [of "enc x" x] by auto

text \<open>A sequence of fields is determined by the bytes it is written as.\<close>

lemma concat_enc_inj:
  assumes "\<forall>x \<in> set xs. ok x" and "\<forall>y \<in> set ys. ok y" and "concat (map enc xs) = concat (map enc ys)"
  shows "xs = ys"
  using assms
proof (induction xs arbitrary: ys)
  case Nil
  then show ?case by (cases ys) (simp_all add: enc_nonempty)
next
  case (Cons x xs)
  obtain y ys' where ys: "ys = y # ys'"
    using Cons.prems by (cases ys) (simp_all add: enc_nonempty)
  then have "x = y \<and> concat (map enc xs) = concat (map enc ys')"
    using Cons.prems by (intro enc_prefix_unique) simp_all
  moreover from this have "xs = ys'" using Cons.prems ys by (intro Cons.IH) simp_all
  ultimately show ?case using ys by simp
qed

end

section \<open>Payloads\<close>

locale message_codec =
  fixes enc :: "'m \<Rightarrow> (protocol_error, bytes) res"
    and dec :: "bytes \<Rightarrow> (protocol_error, 'm) res"
    and wf :: "'m \<Rightarrow> bool"
  assumes enc_wf: "wf m \<Longrightarrow> \<exists>b. enc m = Ok b \<and> dec b = Ok m"
    and enc_total: "enc m \<noteq> Panic"
    and dec_total: "dec b \<noteq> Panic"
begin

lemma dec_enc: "wf m \<Longrightarrow> enc m = Ok b \<Longrightarrow> dec b = Ok m"
  using enc_wf [of m] by auto

lemma enc_inj: "wf m \<Longrightarrow> wf m' \<Longrightarrow> enc m = enc m' \<Longrightarrow> m = m'"
  using enc_wf [of m] enc_wf [of m'] by auto

lemma roundtrip: "wf m \<Longrightarrow> and_then (enc m) dec = Ok m"
  using enc_wf [of m] by auto

lemma not_wf_when_rejected: "enc m = Err e \<Longrightarrow> \<not> wf m"
  using enc_wf [of m] by auto

end

locale strict_codec = message_codec +
  assumes dec_wf: "dec b = Ok m \<Longrightarrow> wf m"
begin

text \<open>What was decoded can be forwarded: it encodes, and decodes to the same message.\<close>

lemma forward: "dec b = Ok m \<Longrightarrow> \<exists>b'. enc m = Ok b' \<and> dec b' = Ok m"
  using enc_wf dec_wf by blast

end

section \<open>Flags\<close>

locale flag_set =
  fixes has :: "'s \<Rightarrow> 'f \<Rightarrow> bool"
    and add :: "'f \<Rightarrow> 's \<Rightarrow> 's"
    and inter :: "'s \<Rightarrow> 's \<Rightarrow> 's"
    and union :: "'s \<Rightarrow> 's \<Rightarrow> 's"
    and none :: 's
  assumes has_none: "\<not> has none f"
    and has_add: "has (add g s) f \<longleftrightarrow> f = g \<or> has s f"
    and has_inter: "has (inter s t) f \<longleftrightarrow> has s f \<and> has t f"
    and has_union: "has (union s t) f \<longleftrightarrow> has s f \<or> has t f"
begin

lemma has_fold_add: "has (fold add fs s) f \<longleftrightarrow> f \<in> set fs \<or> has s f"
  by (induction fs arbitrary: s) (auto simp: has_add)

lemma has_of_list: "has (fold add fs none) f \<longleftrightarrow> f \<in> set fs"
  by (simp add: has_fold_add has_none)

lemma has_inter_sym: "has (inter s t) f \<longleftrightarrow> has (inter t s) f"
  by (auto simp: has_inter)

end

section \<open>Sets that only grow\<close>

text \<open>
  A set with insertion and a membership test that never forgets an element: the contract
  of the progress bitmap and of the Bloom filter (whose test may say more than was
  inserted).
\<close>

locale grow_set =
  fixes ins :: "'x \<Rightarrow> 's \<Rightarrow> 's"
    and has :: "'s \<Rightarrow> 'x \<Rightarrow> bool"
    and inv :: "'s \<Rightarrow> bool"
    and ok :: "'x \<Rightarrow> bool"
  assumes ins_inv: "inv s \<Longrightarrow> ok x \<Longrightarrow> inv (ins x s)"
    and has_ins: "inv s \<Longrightarrow> ok x \<Longrightarrow> has (ins x s) x"
    and has_keep: "inv s \<Longrightarrow> ok x \<Longrightarrow> has s y \<Longrightarrow> has (ins x s) y"
begin

lemma fold_inv: "inv s \<Longrightarrow> \<forall>x \<in> set xs. ok x \<Longrightarrow> inv (fold ins xs s)"
  by (induction xs arbitrary: s) (simp_all add: ins_inv)

lemma fold_keep: "inv s \<Longrightarrow> \<forall>x \<in> set xs. ok x \<Longrightarrow> has s y \<Longrightarrow> has (fold ins xs s) y"
  by (induction xs arbitrary: s) (simp_all add: ins_inv has_keep)

lemma no_false_negative: "inv s \<Longrightarrow> \<forall>x \<in> set xs. ok x \<Longrightarrow> y \<in> set xs \<Longrightarrow> has (fold ins xs s) y"
  by (induction xs arbitrary: s) (auto simp: ins_inv has_ins fold_keep)

end

end
