(* ===== verification/Varint.thy ===== *)
theory Varint
  imports Codec
begin

unbundle bit_operations_syntax

text \<open>
  The LEB128 varint codec of \<open>protocol/varint.rs\<close>. \<open>encode_varint\<close> and \<open>decode_varint\<close>
  are the loops of the source on explicit buffers and positions; \<open>leb128\<close> is the
  reference encoding. The lemmas show that the encoder writes exactly the reference
  bytes (and panics exactly when the buffer is too short), that decoding inverts
  encoding in front of any suffix, that the decoder never panics, and which byte strings
  it accepts: the canonical ones and, at ten bytes, aliases of them.
\<close>

section \<open>The codec\<close>

definition MAX_VARINT_BYTES :: nat where [simp]: "MAX_VARINT_BYTES = 10"

definition varint_len :: "u64 \<Rightarrow> nat" where
  "varint_len value =
     (if value \<le> 0x7F then 1
      else if value \<le> 0x3FFF then 2
      else if value \<le> 0x1FFFFF then 3
      else if value \<le> 0xFFFFFFF then 4
      else if value \<le> 0x7FFFFFFFF then 5
      else if value \<le> 0x3FFFFFFFFFF then 6
      else if value \<le> 0x1FFFFFFFFFFFF then 7
      else if value \<le> 0xFFFFFFFFFFFFFF then 8
      else if value \<le> 0x7FFFFFFFFFFFFFFF then 9
      else 10)"

lemma unat_drop_bit_7: "unat (drop_bit 7 (v :: u64)) = unat v div 128"
  by (subst unat_drop_bit_eq) (simp add: drop_bit_eq_div)

lemma drop_bit_7_less: "\<not> (value :: u64) < 0x80 \<Longrightarrow> unat (drop_bit 7 value) < unat value"
  by (simp add: unat_drop_bit_7 word_less_nat_alt)

function encode_varint_loop :: "u64 \<Rightarrow> bytes \<Rightarrow> nat \<Rightarrow> ('e, bytes) res" where
  "encode_varint_loop value buf i =
     (if \<not> value < 0x80 then
        (if i < length buf
         then encode_varint_loop (drop_bit 7 value) (buf[i := (ucast value AND 0x7F) OR 0x80]) (i + 1)
         else Panic)
      else (if i < length buf then Ok (buf[i := ucast value]) else Panic))"
  by pat_completeness auto
termination
  by (relation "measure (\<lambda>(value, buf, i). unat value)") (auto simp: drop_bit_7_less)

declare encode_varint_loop.simps [simp del]

definition encode_varint :: "u64 \<Rightarrow> bytes \<Rightarrow> ('e, bytes \<times> nat) res" where
  "encode_varint value buf =
     (let needed = varint_len value
      in and_then (encode_varint_loop value buf 0) (\<lambda>buf'. Ok (buf', needed)))"

definition checked_shl :: "u64 \<Rightarrow> nat \<Rightarrow> u64 option" where
  "checked_shl x s = (if s < 64 then Some (push_bit s x) else None)"

function decode_varint_loop :: "bytes \<Rightarrow> u64 \<Rightarrow> nat \<Rightarrow> nat \<Rightarrow> (protocol_error, u64 \<times> nat) res" where
  "decode_varint_loop buf value shift i =
     (if i \<ge> length buf then Err VarintOverflow
      else
        (let b = buf ! i; i' = i + 1; low = (ucast (b AND 0x7F) :: u64) in
         if i' > MAX_VARINT_BYTES then Err VarintOverflow
         else and_then
           (if shift < 64 then
              (if shift \<ge> 57 \<and> checked_shl low shift = None then Err VarintOverflow
               else Ok (value OR (case checked_shl low shift of Some x \<Rightarrow> x | None \<Rightarrow> 0)))
            else if b AND 0x7F \<noteq> 0 then Err VarintOverflow
            else Ok value)
           (\<lambda>value'.
              if b AND 0x80 = 0 then Ok (value', i')
              else decode_varint_loop buf value' (shift + 7) i')))"
  by pat_completeness auto
termination
  by (relation "measure (\<lambda>(buf, value, shift, i). length buf - i)") auto

declare decode_varint_loop.simps [simp del]

definition decode_varint :: "bytes \<Rightarrow> (protocol_error, u64 \<times> nat) res" where
  "decode_varint buf =
     (if buf = [] then Err Empty
      else and_then (decode_varint_loop buf 0 0 0) (\<lambda>(value, i).
        let needed = varint_len value in
        if needed \<noteq> i then Err NonCanonicalVarint else Ok (value, i)))"

text \<open>
  The idiom \<open>let mut tmp = [0u8; 10]; let n = encode_varint(v, &mut tmp);
  out.extend_from_slice(&tmp[..n])\<close> of the message encoders.
\<close>

definition varint_bytes :: "u64 \<Rightarrow> ('e, bytes) res" where
  "varint_bytes v =
     and_then (encode_varint v (replicate 10 0)) (\<lambda>(tmp, n). slice tmp 0 n)"

section \<open>The reference encoding\<close>

function leb128 :: "u64 \<Rightarrow> bytes" where
  "leb128 v = (if v < 0x80 then [ucast v] else ((ucast v AND 0x7F) OR 0x80) # leb128 (drop_bit 7 v))"
  by pat_completeness auto
termination
  by (relation "measure unat") (auto simp: drop_bit_7_less)

declare leb128.simps [simp del]

lemma leb128_nonempty [simp]: "leb128 v \<noteq> []"
  by (subst leb128.simps) simp

lemma leb128_length_range:
  "unat v < 128 ^ Suc k \<Longrightarrow> (k = 0 \<or> 128 ^ k \<le> unat v) \<Longrightarrow> length (leb128 v) = Suc k"
proof (induction k arbitrary: v)
  case 0
  then show ?case by (subst leb128.simps) (simp add: word_less_nat_alt)
next
  case (Suc k)
  have ge: "\<not> v < 0x80"
  proof -
    have "(128::nat) \<le> 128 ^ Suc k" by simp
    then have "128 \<le> unat v" using Suc.prems(2) by linarith
    then show ?thesis by (simp add: word_less_nat_alt)
  qed
  have "unat v div 128 < 128 ^ Suc k"
    using Suc.prems(1) by (simp add: less_mult_imp_div_less)
  moreover have "128 ^ k \<le> unat v div 128"
    using Suc.prems(2) by (simp add: less_eq_div_iff_mult_less_eq mult.commute)
  ultimately have "length (leb128 (drop_bit 7 v)) = Suc k"
    using Suc.IH [of "drop_bit 7 v"] by (simp add: unat_drop_bit_7)
  then show ?case using ge by (subst leb128.simps) simp
qed

lemma length_leb128: "length (leb128 v) = varint_len v"
proof -
  have b: "unat v < 18446744073709551616" using unat_less_2p [of v] by simp
  consider "unat v < 128" | "128 \<le> unat v" "unat v < 128 ^ 2" | "128 ^ 2 \<le> unat v" "unat v < 128 ^ 3"
    | "128 ^ 3 \<le> unat v" "unat v < 128 ^ 4" | "128 ^ 4 \<le> unat v" "unat v < 128 ^ 5"
    | "128 ^ 5 \<le> unat v" "unat v < 128 ^ 6" | "128 ^ 6 \<le> unat v" "unat v < 128 ^ 7"
    | "128 ^ 7 \<le> unat v" "unat v < 128 ^ 8" | "128 ^ 8 \<le> unat v" "unat v < 128 ^ 9"
    | "128 ^ 9 \<le> unat v" by linarith
  then show ?thesis
  proof cases
    case 1 then show ?thesis using leb128_length_range [of v 0]
      by (simp add: varint_len_def word_le_nat_alt)
  next
    case 2 then show ?thesis using leb128_length_range [of v 1]
      by (simp add: varint_len_def word_le_nat_alt)
  next
    case 3 then show ?thesis using leb128_length_range [of v 2]
      by (simp add: varint_len_def word_le_nat_alt)
  next
    case 4 then show ?thesis using leb128_length_range [of v 3]
      by (simp add: varint_len_def word_le_nat_alt)
  next
    case 5 then show ?thesis using leb128_length_range [of v 4]
      by (simp add: varint_len_def word_le_nat_alt)
  next
    case 6 then show ?thesis using leb128_length_range [of v 5]
      by (simp add: varint_len_def word_le_nat_alt)
  next
    case 7 then show ?thesis using leb128_length_range [of v 6]
      by (simp add: varint_len_def word_le_nat_alt)
  next
    case 8 then show ?thesis using leb128_length_range [of v 7]
      by (simp add: varint_len_def word_le_nat_alt)
  next
    case 9 then show ?thesis using leb128_length_range [of v 8]
      by (simp add: varint_len_def word_le_nat_alt)
  next
    case 10 then show ?thesis using leb128_length_range [of v 9] b
      by (simp add: varint_len_def word_le_nat_alt)
  qed
qed

lemma varint_len_bounds: "1 \<le> varint_len v" "varint_len v \<le> 10"
  by (simp_all add: varint_len_def)

lemma varint_len_value_bound: "unat v < 128 ^ varint_len v"
  using unat_less_2p [of v]
  by (simp add: varint_len_def word_le_nat_alt split: if_splits)

section \<open>The encoder writes the reference bytes\<close>

lemma encode_varint_loop_eq:
  "encode_varint_loop v buf i =
     (if i + length (leb128 v) \<le> length buf
      then Ok (take i buf @ leb128 v @ drop (i + length (leb128 v)) buf) else Panic)"
proof (induction v arbitrary: buf i rule: leb128.induct)
  case (1 v)
  show ?case
  proof (cases "v < 0x80")
    case True
    then show ?thesis
      by (auto simp: encode_varint_loop.simps [of v] leb128.simps [of v] upd_conv_take_nth_drop)
  next
    case False
    note IH = "1" [OF False]
    let ?b = "(ucast v AND 0x7F) OR 0x80 :: byte"
    have unf: "encode_varint_loop v buf i =
        (if i < length buf then encode_varint_loop (drop_bit 7 v) (buf[i := ?b]) (i + 1) else Panic)"
      using False by (simp add: encode_varint_loop.simps [of v])
    have "i < length buf \<Longrightarrow> take (i + 1) (buf[i := ?b]) = take i buf @ [?b]"
      by (simp add: take_Suc_conv_app_nth)
    then show ?thesis
      using False by (auto simp: unf IH leb128.simps [of v] drop_update_cancel)
  qed
qed

lemma encode_varint_eq:
  "encode_varint v buf =
     (if varint_len v \<le> length buf
      then Ok (leb128 v @ drop (varint_len v) buf, varint_len v) else Panic)"
  by (simp add: encode_varint_def encode_varint_loop_eq length_leb128)

lemma varint_bytes_eq [simp]: "varint_bytes v = Ok (leb128 v)"
  using varint_len_bounds [of v]
  by (simp add: varint_bytes_def encode_varint_eq length_leb128)

section \<open>What the decoder reads\<close>

text \<open>The value that the first \<open>n\<close> bytes spell, seven bits each, cut to 64 bits.\<close>

primrec varint_value :: "bytes \<Rightarrow> nat \<Rightarrow> u64" where
  "varint_value buf 0 = 0"
| "varint_value buf (Suc n) = varint_value buf n OR push_bit (7 * n) (ucast (buf ! n AND 0x7F))"

text \<open>The first \<open>n\<close> bytes are one varint: only the last lacks the continuation bit.\<close>

definition varint_span :: "bytes \<Rightarrow> nat \<Rightarrow> bool" where
  "varint_span buf n \<longleftrightarrow>
     0 < n \<and> n \<le> length buf \<and> n \<le> 10 \<and> (\<forall>k < n - 1. bit (buf ! k) 7) \<and> \<not> bit (buf ! (n - 1)) 7"

lemma top_bit_iff: "b AND 0x80 = 0 \<longleftrightarrow> \<not> bit (b :: byte) 7"
proof -
  have "(0x80 :: byte) = push_bit 7 1" by simp
  then show ?thesis
    by (metis and_exp_eq_0_iff_not_bit push_bit_of_1)
qed

lemma bit_low7: "bit (ucast (b AND 0x7F) :: u64) j \<longleftrightarrow> j < 7 \<and> bit (b :: byte) j"
proof -
  have m: "(0x7F :: byte) = mask 7" by (simp add: mask_eq_exp_minus_1)
  show ?thesis unfolding m by (auto simp: bit_simps)
qed

lemma bit_varint_value:
  "bit (varint_value buf n) j \<longleftrightarrow> j < 7 * n \<and> j < 64 \<and> bit (buf ! (j div 7)) (j mod 7)"
proof (induction n)
  case (Suc n)
  have "bit (push_bit (7 * n) (ucast (buf ! n AND 0x7F)) :: u64) j \<longleftrightarrow>
      7 * n \<le> j \<and> j < 64 \<and> j - 7 * n < 7 \<and> bit (buf ! n) (j - 7 * n)"
    by (auto simp: bit_push_bit_iff bit_low7)
  moreover have "7 * n \<le> j \<Longrightarrow> j < 7 * Suc n \<Longrightarrow> j div 7 = n \<and> j mod 7 = j - 7 * n"
    by (metis div_nat_eqI minus_mod_eq_mult_div[symmetric] modulo_nat_def mult.commute)
  ultimately show ?case
    using Suc by (auto simp: bit_or_iff)
qed simp

lemma decode_varint_loop_span:
  assumes "varint_span buf n" and "i < n"
  shows "decode_varint_loop buf (varint_value buf i) (7 * i) i = Ok (varint_value buf n, n)"
  using assms(2)
proof (induction "n - i" arbitrary: i)
  case (Suc d)
  have bnd: "i < length buf" "i < 10" using assms(1) Suc.prems by (auto simp: varint_span_def)
  have step: "decode_varint_loop buf (varint_value buf i) (7 * i) i =
      (if \<not> bit (buf ! i) 7 then Ok (varint_value buf (Suc i), Suc i)
       else decode_varint_loop buf (varint_value buf (Suc i)) (7 * Suc i) (Suc i))"
    using bnd by (subst decode_varint_loop.simps) (simp add: checked_shl_def top_bit_iff add.commute)
  show ?case
  proof (cases "Suc i = n")
    case True
    then have "\<not> bit (buf ! i) 7" using assms(1) by (auto simp: varint_span_def)
    then show ?thesis using step True by simp
  next
    case False
    then have "bit (buf ! i) 7" using assms(1) Suc.prems by (auto simp: varint_span_def)
    moreover have "decode_varint_loop buf (varint_value buf (Suc i)) (7 * Suc i) (Suc i) =
        Ok (varint_value buf n, n)"
      using Suc.hyps(1) [of "Suc i"] Suc.hyps(2) Suc.prems False by simp
    ultimately show ?thesis using step by simp
  qed
qed simp

lemma decode_varint_loop_OkD:
  assumes "decode_varint_loop buf (varint_value buf i) (7 * i) i = Ok (v, n)"
    and "\<forall>k < i. bit (buf ! k) 7"
  shows "varint_span buf n \<and> v = varint_value buf n"
  using assms
proof (induction "length buf - i" arbitrary: i rule: less_induct)
  case less
  have bnd: "i < length buf" "i < 10"
    using less.prems(1) by (auto simp: decode_varint_loop.simps [of buf _ _ i] Let_def split: if_splits)
  have step: "decode_varint_loop buf (varint_value buf i) (7 * i) i =
      (if \<not> bit (buf ! i) 7 then Ok (varint_value buf (Suc i), Suc i)
       else decode_varint_loop buf (varint_value buf (Suc i)) (7 * Suc i) (Suc i))"
    using bnd by (subst decode_varint_loop.simps) (simp add: checked_shl_def top_bit_iff add.commute)
  show ?case
  proof (cases "bit (buf ! i) 7")
    case True
    then show ?thesis
      using less.hyps [of "Suc i"] less.prems step bnd by (auto simp: less_Suc_eq)
  next
    case False
    then show ?thesis using less.prems step bnd by (auto simp: varint_span_def)
  qed
qed

lemma decode_varint_Ok_iff:
  "decode_varint buf = Ok (v, n) \<longleftrightarrow>
     varint_span buf n \<and> v = varint_value buf n \<and> varint_len v = n"
proof
  assume "decode_varint buf = Ok (v, n)"
  then have "decode_varint_loop buf (varint_value buf 0) (7 * 0) 0 = Ok (v, n)" "varint_len v = n"
    by (auto simp: decode_varint_def res_simps split: if_splits)
  then show "varint_span buf n \<and> v = varint_value buf n \<and> varint_len v = n"
    using decode_varint_loop_OkD [of buf 0 v n] by simp
next
  assume r: "varint_span buf n \<and> v = varint_value buf n \<and> varint_len v = n"
  then have "decode_varint_loop buf 0 0 0 = Ok (v, n)"
    using decode_varint_loop_span [of buf n 0] by (auto simp: varint_span_def)
  moreover have "buf \<noteq> []" using r by (auto simp: varint_span_def)
  ultimately show "decode_varint buf = Ok (v, n)" using r by (auto simp: decode_varint_def)
qed

section \<open>Decoding inverts encoding\<close>

lemma bit_head_byte: "bit ((ucast v AND 0x7F) OR 0x80 :: byte) j \<longleftrightarrow> j = 7 \<or> j < 7 \<and> bit (v :: u64) j"
proof (cases "j < 8")
  case True
  then have "j \<in> {0, 1, 2, 3, 4, 5, 6, 7}" by auto
  then show ?thesis by (auto simp: bit_simps)
next
  case False
  then show ?thesis by (auto dest: bit_imp_le_length)
qed

lemma leb128_bits:
  assumes "k < length (leb128 v)"
  shows "(bit (leb128 v ! k) 7 \<longleftrightarrow> Suc k < length (leb128 v)) \<and>
         (\<forall>j < 7. bit (leb128 v ! k) j \<longleftrightarrow> bit v (7 * k + j))"
  using assms
proof (induction v arbitrary: k rule: leb128.induct)
  case (1 v)
  show ?case
  proof (cases "v < 0x80")
    case True
    then have "k = 0" using "1.prems" by (simp add: leb128.simps [of v])
    moreover have "\<not> bit v 7"
      using True by (intro not_bit_of_bound [of v 7]) (simp_all add: word_less_nat_alt)
    ultimately show ?thesis using True by (simp add: leb128.simps [of v] bit_ucast_iff)
  next
    case False
    show ?thesis
    proof (cases k)
      case 0
      then show ?thesis using False by (simp add: leb128.simps [of v] bit_head_byte)
    next
      case (Suc k')
      have "k' < length (leb128 (drop_bit 7 v))" using "1.prems" Suc False
        by (simp add: leb128.simps [of v])
      from "1.IH" [OF False this] show ?thesis using False Suc
        by (simp add: leb128.simps [of v] bit_drop_bit_eq add.assoc [symmetric])
    qed
  qed
qed

lemma leb128_span: "varint_span (leb128 v @ rest) (varint_len v)"
proof -
  have l: "length (leb128 v) = varint_len v" by (rule length_leb128)
  have "bit (leb128 v ! k) 7 \<longleftrightarrow> Suc k < varint_len v" if "k < varint_len v" for k
    using leb128_bits [of k v] that l by simp
  then show ?thesis
    using varint_len_bounds [of v] l by (auto simp: varint_span_def nth_append)
qed

lemma leb128_value: "varint_value (leb128 v @ rest) (varint_len v) = v"
proof (rule bit_eqI)
  fix j :: nat
  assume "possible_bit TYPE(u64) j"
  then have j: "j < 64" by simp
  have l: "length (leb128 v) = varint_len v" by (rule length_leb128)
  have big: "\<not> bit v j" if "7 * varint_len v \<le> j"
  proof -
    have "unat v < 2 ^ (7 * varint_len v)"
      using varint_len_value_bound [of v] by (simp add: power_mult)
    then show ?thesis using that by (rule not_bit_of_bound)
  qed
  show "bit (varint_value (leb128 v @ rest) (varint_len v)) j = bit v j"
  proof (cases "j < 7 * varint_len v")
    case True
    then have "j div 7 < length (leb128 v)" by (simp add: l less_mult_imp_div_less mult.commute)
    then show ?thesis
      using True j leb128_bits [of "j div 7" v] by (simp add: bit_varint_value nth_append)
  next
    case False
    then show ?thesis using big by (simp add: bit_varint_value)
  qed
qed

lemma decode_leb128 [simp]: "decode_varint (leb128 v @ rest) = Ok (v, varint_len v)"
  by (simp add: decode_varint_Ok_iff leb128_span leb128_value)

lemma decode_leb128_Nil [simp]: "decode_varint (leb128 v) = Ok (v, varint_len v)"
  using decode_leb128 [of v "[]"] by simp

section \<open>No panic, and the accepted strings\<close>

lemma decode_varint_loop_no_panic: "decode_varint_loop buf acc shift i \<noteq> Panic"
proof (induction buf acc shift i rule: decode_varint_loop.induct)
  case (1 buf acc shift i)
  then show ?case
    unfolding decode_varint_loop.simps [of buf acc shift i] Let_def
    by (intro no_panic) (simp_all add: Let_def)
qed

lemma decode_varint_no_panic [no_panic]: "decode_varint buf \<noteq> Panic"
  using decode_varint_loop_no_panic
  by (auto simp: decode_varint_def res_simps split: if_splits)

lemma decode_varint_bounds:
  "decode_varint buf = Ok (v, n) \<Longrightarrow> 1 \<le> n \<and> n \<le> length buf \<and> n \<le> 10 \<and> n = varint_len v"
  by (auto simp: decode_varint_Ok_iff varint_span_def)

text \<open>Byte for byte: all bytes but a tenth one are those of the reference encoding.\<close>

lemma decode_varint_nth:
  assumes "decode_varint buf = Ok (v, n)" and "k < n" and "k < 9"
  shows "buf ! k = leb128 v ! k"
proof (rule bit_eqI)
  fix j :: nat
  assume "possible_bit TYPE(byte) j"
  then have j: "j < 8" by simp
  have s: "varint_span buf n" and v: "v = varint_value buf n" and l: "length (leb128 v) = n"
    using assms(1) by (auto simp: decode_varint_Ok_iff length_leb128)
  note lb = leb128_bits [of k v, unfolded l, OF assms(2)]
  show "bit (buf ! k) j = bit (leb128 v ! k) j"
  proof (cases "j = 7")
    case True
    have "bit (buf ! k) 7 \<longleftrightarrow> Suc k < n"
      using s assms(2) by (cases "Suc k = n") (auto simp: varint_span_def)
    then show ?thesis using lb True by simp
  next
    case False
    then have j7: "j < 7" using j by simp
    have "bit v (7 * k + j) \<longleftrightarrow> bit (buf ! k) j"
      using j7 assms(2,3) by (simp add: v bit_varint_value)
    then show ?thesis using lb j7 by simp
  qed
qed

lemma decode_varint_canonical:
  assumes "decode_varint buf = Ok (v, n)" and "n < 10"
  shows "take n buf = leb128 v"
  using assms decode_varint_bounds [OF assms(1)]
  by (intro nth_equalityI) (auto simp: length_leb128 intro: decode_varint_nth)

lemma decode_varint_ten:
  assumes "decode_varint buf = Ok (v, 10)"
  shows "take 9 buf = take 9 (leb128 v)" and "\<not> bit (buf ! 9) 7" and "bit (buf ! 9) 0"
proof -
  have b: "10 \<le> length buf" and l: "length (leb128 v) = 10" and s: "varint_span buf 10"
    and v: "v = varint_value buf 10" and vl: "varint_len v = 10"
    using assms by (auto simp: decode_varint_Ok_iff varint_span_def length_leb128)
  show "take 9 buf = take 9 (leb128 v)"
    using b l assms by (intro nth_equalityI) (auto intro: decode_varint_nth)
  show "\<not> bit (buf ! 9) 7" using s by (simp add: varint_span_def)
  have "0x8000000000000000 \<le> v"
    using vl by (auto simp: varint_len_def word_le_nat_alt split: if_splits)
  then have "unat v div 2 ^ 63 = 1"
    using unat_less_2p [of v] by (intro div_nat_eqI) (simp_all add: word_le_nat_alt)
  then have "bit v 63" by (simp add: bit_word_iff_unat)
  then show "bit (buf ! 9) 0" by (simp add: v bit_varint_value)
qed

section \<open>Varints as a field codec\<close>

interpretation vint: prefix_codec leb128 decode_varint "\<lambda>_. True"
proof unfold_locales
  show "decode_varint (leb128 v @ rest) = Ok (v, length (leb128 v))" for v rest
    by (simp add: length_leb128)
  show "0 < n \<and> n \<le> length buf" if "decode_varint buf = Ok (v, n)" for buf v n
    using decode_varint_bounds [OF that] by simp
qed (rule decode_varint_no_panic)

end
