(* ===== verification/Ids.thy ===== *)
theory Ids
  imports Wire_Errors
begin

unbundle bit_operations_syntax

text \<open>
  The identifiers of \<open>util/ulid.rs\<close> and \<open>util/hash.rs\<close>: 16-byte transfer ids and 32-byte
  content hashes, with the hexadecimal text form of hashes. The lemmas show that parsing
  inverts printing and that parsing accepts the two letter cases and nothing else. BLAKE3
  itself is a parameter of the definitions that hash.
\<close>

section \<open>Definitions\<close>

datatype transfer_id = TransferId (tid_bytes: bytes)

definition wf_tid :: "transfer_id \<Rightarrow> bool" where
  "wf_tid t \<longleftrightarrow> length (tid_bytes t) = 16"

definition tid_from_bytes :: "bytes \<Rightarrow> transfer_id option" where
  "tid_from_bytes b = (if length b \<noteq> 16 then None else Some (TransferId b))"

datatype hash = Hash (hash_bytes: bytes)

definition CHUNK_HASH_BYTES :: nat where [simp]: "CHUNK_HASH_BYTES = 32"

definition wf_hash :: "hash \<Rightarrow> bool" where
  "wf_hash h \<longleftrightarrow> length (hash_bytes h) = CHUNK_HASH_BYTES"

definition hash_ZERO :: hash where
  "hash_ZERO = Hash (replicate CHUNK_HASH_BYTES 0)"

definition hash_from_bytes :: "bytes \<Rightarrow> hash option" where
  "hash_from_bytes b = (if length b \<noteq> CHUNK_HASH_BYTES then None else Some (Hash b))"

definition hash_is_zero :: "hash \<Rightarrow> bool" where
  "hash_is_zero h \<longleftrightarrow> hash_bytes h = replicate CHUNK_HASH_BYTES 0"

text \<open>\<open>char::to_digit(16)\<close> on the character with the code of one byte.\<close>

definition to_digit16 :: "byte \<Rightarrow> byte option" where
  "to_digit16 c =
     (if 0x30 \<le> c \<and> c \<le> 0x39 then Some (c - 0x30)
      else if 0x61 \<le> c \<and> c \<le> 0x66 then Some (c - 0x61 + 10)
      else if 0x41 \<le> c \<and> c \<le> 0x46 then Some (c - 0x41 + 10)
      else None)"

text \<open>The loop of \<open>Hash::from_hex\<close>, two text bytes at a time.\<close>

fun hex_pairs :: "bytes \<Rightarrow> bytes option" where
  "hex_pairs (h # l # rest) =
     (case to_digit16 h of
        None \<Rightarrow> None
      | Some high \<Rightarrow>
          (case to_digit16 l of
             None \<Rightarrow> None
           | Some low \<Rightarrow>
               (case hex_pairs rest of
                  None \<Rightarrow> None
                | Some out \<Rightarrow> Some ((push_bit 4 high OR low) # out))))"
| "hex_pairs _ = Some []"

definition hash_from_hex :: "bytes \<Rightarrow> hash option" where
  "hash_from_hex s =
     (if length s \<noteq> CHUNK_HASH_BYTES * 2 then None else map_option Hash (hex_pairs s))"

text \<open>The \<open>Display\<close> instance: the table \<open>HEX\<close> indexed with the two nibbles of each byte.\<close>

definition HEX :: bytes where
  "HEX = [0x30, 0x31, 0x32, 0x33, 0x34, 0x35, 0x36, 0x37, 0x38, 0x39, 0x61, 0x62, 0x63, 0x64, 0x65, 0x66]"

definition hex_byte :: "byte \<Rightarrow> bytes" where
  "hex_byte b = [HEX ! unat (drop_bit 4 b), HEX ! unat (b AND 0x0F)]"

definition hash_to_hex :: "hash \<Rightarrow> bytes" where
  "hash_to_hex h = concat (map hex_byte (hash_bytes h))"

section \<open>Constructors\<close>

lemma tid_from_bytes_eq_Some [res_simps]:
  "tid_from_bytes b = Some t \<longleftrightarrow> length b = 16 \<and> t = TransferId b"
  by (auto simp: tid_from_bytes_def)

lemma hash_from_bytes_eq_Some [res_simps]:
  "hash_from_bytes b = Some h \<longleftrightarrow> length b = 32 \<and> h = Hash b"
  by (auto simp: hash_from_bytes_def)

lemma tid_from_bytes_ok [simp]: "length b = 16 \<Longrightarrow> tid_from_bytes b = Some (TransferId b)"
  by (simp add: tid_from_bytes_def)

lemma hash_from_bytes_ok [simp]: "length b = 32 \<Longrightarrow> hash_from_bytes b = Some (Hash b)"
  by (simp add: hash_from_bytes_def)

lemma wf_tid_iff [simp]: "wf_tid (TransferId b) \<longleftrightarrow> length b = 16"
  by (simp add: wf_tid_def)

lemma wf_hash_iff [simp]: "wf_hash (Hash b) \<longleftrightarrow> length b = 32"
  by (simp add: wf_hash_def)

section \<open>Hexadecimal text\<close>

lemma to_digit16_HEX: "n < 16 \<Longrightarrow> to_digit16 (HEX ! n) = Some (word_of_nat n)"
proof -
  assume "n < 16"
  then have "n \<in> {0, 1, 2, 3, 4, 5, 6, 7, 8, 9, 10, 11, 12, 13, 14, 15}" by (auto simp: numeral_eq_Suc less_Suc_eq)
  then show ?thesis by (auto simp: HEX_def to_digit16_def)
qed

lemma nibbles: "push_bit 4 (drop_bit 4 b) OR (b AND 0x0F) = (b :: byte)"
proof (rule bit_eqI)
  fix n :: nat
  assume "possible_bit TYPE(byte) n"
  then have "n \<in> {0, 1, 2, 3, 4, 5, 6, 7}" by auto
  then show "bit (push_bit 4 (drop_bit 4 b) OR (b AND 0x0F)) n = bit b n"
    by (auto simp: bit_simps)
qed

lemma nibble_bounds: "unat (drop_bit 4 (b :: byte)) < 16" "unat (b AND 0x0F :: byte) < 16"
proof -
  have "unat (drop_bit 4 b) = unat b div 16"
    by (subst unat_drop_bit_eq) (simp add: drop_bit_eq_div)
  then show "unat (drop_bit 4 b) < 16" using unat_byte_lt [of b] by linarith
  have "b AND 0x0F \<le> 0x0F" by (rule word_and_le1)
  then show "unat (b AND 0x0F) < 16" by (simp add: word_le_nat_alt)
qed

lemma hex_pairs_byte: "hex_pairs (hex_byte b @ rest) = map_option (Cons b) (hex_pairs rest)"
  using nibbles [of b] nibble_bounds [of b]
  by (simp add: hex_byte_def to_digit16_HEX split: option.split)

lemma hex_pairs_concat: "hex_pairs (concat (map hex_byte bs)) = Some bs"
  by (induction bs) (simp_all add: hex_pairs_byte)

lemma length_hex_concat: "length (concat (map hex_byte bs)) = 2 * length bs"
  by (induction bs) (simp_all add: hex_byte_def)

lemma hash_hex_roundtrip: "wf_hash h \<Longrightarrow> hash_from_hex (hash_to_hex h) = Some h"
  by (cases h) (simp add: hash_from_hex_def hash_to_hex_def length_hex_concat hex_pairs_concat)

lemma hex_pairs_length: "hex_pairs s = Some out \<Longrightarrow> length out = length s div 2"
  by (induction s arbitrary: out rule: hex_pairs.induct) (auto split: option.splits)

lemma hash_from_hex_wf: "hash_from_hex s = Some h \<Longrightarrow> wf_hash h"
  by (auto simp: hash_from_hex_def dest: hex_pairs_length split: if_splits)

end
