(* ===== verification/Wire_Fields.thy ===== *)
theory Wire_Fields
  imports Varint Ids
begin

text \<open>
  The field formats that the payload codecs of \<open>protocol/message.rs\<close> share: varint-prefixed
  UTF-8 strings, one-byte booleans, 32-byte hashes and 16-byte transfer ids at a position.
  The source spells each of them out at every use, with its own error text, so the texts
  are arguments here. \<open>usize\<close> has 64 bits, so the conversions from \<open>u64\<close> never fail.

  The simplification rules put every positional access into the form of a \<open>drop\<close>, which is
  how the round trips of all payloads are computed.
\<close>

section \<open>Strings\<close>

definition write_str :: "bytes \<Rightarrow> ('e, bytes) res" where
  "write_str s = and_then (varint_bytes (word_of_nat (length s))) (\<lambda>v. Ok (v @ s))"

definition read_str ::
  "bytes \<Rightarrow> nat \<Rightarrow> string \<Rightarrow> string \<Rightarrow> string \<Rightarrow> (protocol_error, bytes \<times> nat) res" where
  "read_str buf i overflow truncated not_utf8 =
     and_then (and_then (slice_from buf i) decode_varint) (\<lambda>(len, consumed).
     let i = i + consumed in
     and_then (ok_or (usize_checked_add i (unat len)) (Malformed overflow)) (\<lambda>str_end.
     if length buf < str_end then Err (Malformed truncated)
     else
       and_then (slice buf i str_end) (\<lambda>s.
       and_then (from_utf8 s (Malformed not_utf8)) (\<lambda>s. Ok (s, str_end)))))"

section \<open>Fixed-size fields\<close>

definition bool_to_u8 :: "bool \<Rightarrow> u8" where
  "bool_to_u8 b = (if b then 1 else 0)"

definition read_bool :: "bytes \<Rightarrow> nat \<Rightarrow> string \<Rightarrow> (protocol_error, bool) res" where
  "read_bool buf i bad =
     and_then (index buf i) (\<lambda>b.
     if b = 0 then Ok False else if b = 1 then Ok True else Err (Malformed bad))"

definition read_hash :: "bytes \<Rightarrow> nat \<Rightarrow> string \<Rightarrow> (protocol_error, hash) res" where
  "read_hash buf i bad =
     and_then (slice buf i (i + 32)) (\<lambda>h. ok_or (hash_from_bytes h) (Malformed bad))"

definition read_tid :: "bytes \<Rightarrow> nat \<Rightarrow> string \<Rightarrow> (protocol_error, transfer_id) res" where
  "read_tid buf i bad =
     and_then (slice buf i (i + 16)) (\<lambda>t. ok_or (tid_from_bytes t) (Malformed bad))"

section \<open>Rules\<close>

declare length_leb128 [simp]

lemma write_str_eq [simp]: "write_str s = Ok (leb128 (word_of_nat (length s)) @ s)"
  by (simp add: write_str_def)

lemma unat_len [simp]: "n < 18446744073709551616 \<Longrightarrow> unat (word_of_nat n :: u64) = n"
  by (simp add: unat_of_nat)

lemma unat_len32 [simp]: "n < 4294967296 \<Longrightarrow> unat (word_of_nat n :: u32) = n"
  by (simp add: unat_of_nat)

lemma read_str_no_panic [no_panic]: "i \<le> length buf \<Longrightarrow> read_str buf i o' t u \<noteq> Panic"
  unfolding read_str_def by (intro no_panic) (auto simp: res_simps)

lemma read_str_eq_Ok [res_simps]:
  "read_str buf i o' t u = Ok (s, e) \<longleftrightarrow>
     i \<le> length buf \<and>
     (\<exists>len n. decode_varint (drop i buf) = Ok (len, n) \<and> e = i + n + unat len \<and> e < 2 ^ 64 \<and>
        e \<le> length buf \<and> s = take (unat len) (drop (i + n) buf) \<and> utf8_valid s)"
  unfolding read_str_def Let_def by (auto simp: res_simps not_less split: prod.splits if_splits)

text \<open>A string field in front of anything, at any position.\<close>

lemma read_str_app [codec_simps]:
  assumes "drop i buf = leb128 (word_of_nat (length s)) @ s @ rest" and "i \<le> length buf"
    and "utf8_valid s" and "i + 10 + length s < 2 ^ 64"
  shows "read_str buf i o' t u = Ok (s, i + varint_len (word_of_nat (length s)) + length s)"
proof -
  have "i + varint_len (word_of_nat (length s)) + length s < 2 ^ 64"
    using assms(4) varint_len_bounds(2) [of "word_of_nat (length s)"] by linarith
  moreover have "drop (i + varint_len (word_of_nat (length s))) buf = s @ rest"
    by (simp only: drop_drop [symmetric] add.commute [of i] assms(1)) simp
  moreover have "length buf = i + varint_len (word_of_nat (length s)) + length s + length rest"
    using arg_cong [OF assms(1), of length] assms(2) by simp
  ultimately show ?thesis using assms by (simp add: read_str_eq_Ok)
qed

lemma read_bool_no_panic [no_panic]: "i < length buf \<Longrightarrow> read_bool buf i e \<noteq> Panic"
  unfolding read_bool_def by (intro no_panic)

lemma read_hash_no_panic [no_panic]: "i + 32 \<le> length buf \<Longrightarrow> read_hash buf i e \<noteq> Panic"
  unfolding read_hash_def by (intro no_panic) auto

lemma read_tid_no_panic [no_panic]: "i + 16 \<le> length buf \<Longrightarrow> read_tid buf i e \<noteq> Panic"
  unfolding read_tid_def by (intro no_panic) auto

lemma read_bool_eq_Ok [res_simps]:
  "read_bool buf i e = Ok b \<longleftrightarrow> i < length buf \<and> buf ! i = bool_to_u8 b"
  by (auto simp: read_bool_def res_simps bool_to_u8_def)

lemma read_hash_eq_Ok [res_simps]:
  "read_hash buf i e = Ok h \<longleftrightarrow> i + 32 \<le> length buf \<and> h = Hash (take 32 (drop i buf))"
  by (auto simp: read_hash_def res_simps)

lemma read_tid_eq_Ok [res_simps]:
  "read_tid buf i e = Ok t \<longleftrightarrow> i + 16 \<le> length buf \<and> t = TransferId (take 16 (drop i buf))"
  by (auto simp: read_tid_def res_simps)

lemma read_fixed_ok [simp]:
  "i + 32 \<le> length buf \<Longrightarrow> read_hash buf i e = Ok (Hash (take 32 (drop i buf)))"
  "i + 16 \<le> length buf \<Longrightarrow> read_tid buf i e = Ok (TransferId (take 16 (drop i buf)))"
  by (simp_all add: read_hash_eq_Ok read_tid_eq_Ok)

lemma bool_to_u8_simps [simp]: "bool_to_u8 b = 0 \<longleftrightarrow> \<not> b" "bool_to_u8 b = 1 \<longleftrightarrow> b"
  by (simp_all add: bool_to_u8_def)

lemma read_bool_ok [simp]:
  "i < length buf \<Longrightarrow> read_bool buf i e =
     (if buf ! i = 0 then Ok False else if buf ! i = 1 then Ok True else Err (Malformed e))"
  by (simp add: read_bool_def)

lemma drop_after:
  "drop i buf = a @ rest \<Longrightarrow> drop (i + length a) buf = rest"
  by (simp only: drop_drop [symmetric] add.commute [of i]) simp

lemma drop_after_str:
  assumes "drop i buf = leb128 (word_of_nat (length s)) @ s @ rest"
  shows "drop (i + varint_len (word_of_nat (length s)) + length s) buf = rest"
  using drop_after [OF drop_after [OF assms]] by simp

text \<open>What computes a decoder on the bytes an encoder wrote.\<close>

lemmas wire_compute = read_str_def Let_def drop_Cons'

lemma unat_len8 [simp]: "n < 256 \<Longrightarrow> unat (word_of_nat n :: u8) = n"
  by (simp add: unat_of_nat)

end
