(* ===== verification/Capabilities.thy ===== *)
theory Capabilities
  imports Codec
begin

unbundle bit_operations_syntax

text \<open>
  The capability bitset of \<open>protocol/capabilities.rs\<close>: eleven named bits in a 32-bit word,
  exchanged in HELLO and intersected by the server. The set is an interpretation of
  \<open>flag_set\<close>; the lemmas characterise intersection, the mandatory-capability check and the
  wire mask.
\<close>

datatype capability =
    FixedChunking | CdcChunking | Blake3 | Sha256 | DedupChunkStore | CompressionZstd
  | SparseFiles | Symlinks | Hardlinks | InventoryBloom | ChunkEncryption

fun capability_bit :: "capability \<Rightarrow> nat" where
  "capability_bit FixedChunking = 0"
| "capability_bit CdcChunking = 1"
| "capability_bit Blake3 = 2"
| "capability_bit Sha256 = 3"
| "capability_bit DedupChunkStore = 4"
| "capability_bit CompressionZstd = 5"
| "capability_bit SparseFiles = 6"
| "capability_bit Symlinks = 7"
| "capability_bit Hardlinks = 8"
| "capability_bit InventoryBloom = 9"
| "capability_bit ChunkEncryption = 10"

datatype capabilities = Capabilities (caps: u32)

definition caps_EMPTY :: capabilities where
  "caps_EMPTY = Capabilities 0"

definition caps_from_wire :: "u32 \<Rightarrow> capabilities" where
  "caps_from_wire bits = Capabilities (bits AND 0xFFF)"

definition caps_to_wire :: "capabilities \<Rightarrow> u32" where
  "caps_to_wire s = caps s AND 0xFFF"

definition caps_set :: "capability \<Rightarrow> capabilities \<Rightarrow> capabilities" where
  "caps_set c s = Capabilities (caps s OR push_bit (capability_bit c) 1)"

definition caps_clear :: "capability \<Rightarrow> capabilities \<Rightarrow> capabilities" where
  "caps_clear c s = Capabilities (caps s AND NOT (push_bit (capability_bit c) 1))"

definition caps_has :: "capabilities \<Rightarrow> capability \<Rightarrow> bool" where
  "caps_has s c \<longleftrightarrow> caps s AND push_bit (capability_bit c) 1 \<noteq> 0"

definition caps_intersect :: "capabilities \<Rightarrow> capabilities \<Rightarrow> capabilities" where
  "caps_intersect a b = Capabilities (caps a AND caps b)"

definition caps_is_empty :: "capabilities \<Rightarrow> bool" where
  "caps_is_empty s \<longleftrightarrow> caps s = 0"

definition caps_bitor :: "capabilities \<Rightarrow> capabilities \<Rightarrow> capabilities" where
  "caps_bitor a b = Capabilities (caps a OR caps b)"

definition caps_validate_intersection :: "capabilities \<Rightarrow> (string, unit) res" where
  "caps_validate_intersection i =
     (if \<not> caps_has i Blake3 then Err ''intersection lacks mandatory BLAKE3''
      else if \<not> caps_has i FixedChunking \<and> \<not> caps_has i CdcChunking
      then Err ''intersection lacks any chunking mode''
      else Ok ())"

definition capability_names :: "(capability \<times> string) list" where
  "capability_names =
     [(FixedChunking, ''fixed''), (CdcChunking, ''cdc''), (Blake3, ''blake3''), (Sha256, ''sha256''),
      (DedupChunkStore, ''dedup''), (CompressionZstd, ''zstd''), (SparseFiles, ''sparse''),
      (Symlinks, ''symlinks''), (Hardlinks, ''hardlinks''), (InventoryBloom, ''bloom''),
      (ChunkEncryption, ''encryption'')]"

fun join_with :: "string \<Rightarrow> string list \<Rightarrow> string" where
  "join_with sep [] = []"
| "join_with sep [p] = p"
| "join_with sep (p # q # ps) = p @ sep @ join_with sep (q # ps)"

definition caps_display :: "capabilities \<Rightarrow> string" where
  "caps_display s =
     ''{'' @ join_with '','' (map snd (filter (\<lambda>(c, n). caps_has s c) capability_names)) @ ''}''"

section \<open>The set laws\<close>

lemma capability_bit_bound [simp]: "capability_bit c < 12" "capability_bit c < 32"
  by (cases c; simp)+

lemma capability_bit_inj: "capability_bit c = capability_bit d \<longleftrightarrow> c = d"
  by (cases c; cases d) simp_all

lemma caps_has_iff: "caps_has s c \<longleftrightarrow> bit (caps s) (capability_bit c)"
  by (simp add: caps_has_def push_bit_of_1 and_exp_eq_0_iff_not_bit)

lemma bit_capability_word: "bit (2 ^ capability_bit c :: u32) n \<longleftrightarrow> n = capability_bit c"
  by (auto simp: bit_exp_iff)

lemma caps_has_set [simp]: "caps_has (caps_set d s) c \<longleftrightarrow> c = d \<or> caps_has s c"
  by (auto simp: caps_has_iff caps_set_def bit_or_iff bit_capability_word capability_bit_inj)

lemma caps_has_clear [simp]: "caps_has (caps_clear d s) c \<longleftrightarrow> c \<noteq> d \<and> caps_has s c"
  by (auto simp: caps_has_iff caps_clear_def bit_and_iff bit_not_iff bit_capability_word capability_bit_inj)

lemma caps_has_intersect [simp]: "caps_has (caps_intersect a b) c \<longleftrightarrow> caps_has a c \<and> caps_has b c"
  by (auto simp: caps_has_iff caps_intersect_def bit_and_iff)

lemma caps_has_bitor [simp]: "caps_has (caps_bitor a b) c \<longleftrightarrow> caps_has a c \<or> caps_has b c"
  by (auto simp: caps_has_iff caps_bitor_def bit_or_iff)

lemma caps_has_EMPTY [simp]: "\<not> caps_has caps_EMPTY c"
  by (simp add: caps_has_iff caps_EMPTY_def)

interpretation cap_set: flag_set caps_has caps_set caps_intersect caps_bitor caps_EMPTY
  by unfold_locales simp_all

section \<open>The wire form\<close>

lemma bit_cap_mask: "bit (0xFFF :: int) n \<longleftrightarrow> n < 12"
proof -
  have m: "(0xFFF :: int) = mask 12" by (simp add: mask_eq_exp_minus_1)
  show ?thesis unfolding m by (simp only: bit_mask_iff possible_bit_def) simp
qed

lemma caps_has_from_wire [simp]: "caps_has (caps_from_wire w) c \<longleftrightarrow> bit w (capability_bit c)"
  by (simp add: caps_has_iff caps_from_wire_def bit_and_iff bit_cap_mask)

text \<open>Sets without reserved bits travel unchanged.\<close>

definition wf_caps :: "capabilities \<Rightarrow> bool" where
  "wf_caps s \<longleftrightarrow> caps s AND 0xFFF = caps s"

lemma wf_caps_from_wire [simp]: "wf_caps (caps_from_wire w)"
  by (simp add: wf_caps_def caps_from_wire_def bit_eq_iff bit_and_iff)

lemma caps_wire_roundtrip [simp]: "wf_caps s \<Longrightarrow> caps_from_wire (caps_to_wire s) = s"
  by (cases s) (simp add: wf_caps_def caps_from_wire_def caps_to_wire_def)

lemma caps_has_after_wire [simp]:
  "caps_has (caps_from_wire (caps_to_wire s)) c \<longleftrightarrow> caps_has s c"
  by (simp add: caps_has_iff caps_from_wire_def caps_to_wire_def bit_and_iff bit_cap_mask)

lemma caps_to_wire_bound: "unat (caps_to_wire s) < 4096"
proof -
  have "unat (caps s AND 0xFFF) \<le> unat (0xFFF :: u32)"
    by (rule word_and_le1 [THEN word_le_nat_alt [THEN iffD1]])
  then show ?thesis by (simp add: caps_to_wire_def)
qed

section \<open>Negotiation\<close>

lemma caps_validate_Ok_iff:
  "caps_validate_intersection (caps_intersect a b) = Ok () \<longleftrightarrow>
     caps_has a Blake3 \<and> caps_has b Blake3 \<and>
     (\<exists>m \<in> {FixedChunking, CdcChunking}. caps_has a m \<and> caps_has b m)"
  by (auto simp: caps_validate_intersection_def)

end
