(* ===== verification/Msg_Session.thy ===== *)
theory Msg_Session
  imports Wire_Fields Capabilities
begin

text \<open>
  The session messages of \<open>protocol/message.rs\<close>: \<open>HELLO\<close>, \<open>HELLO_ACK\<close>, \<open>AUTH\<close>, \<open>AUTH_OK\<close>,
  \<open>PING\<close>, \<open>BYE\<close>, \<open>ERROR\<close> and \<open>SESSION_INIT\<close>. Each is a record with its \<open>encode\<close>,
  its \<open>decode\<close> and its well-formedness predicate, and an interpretation of the codec
  interfaces: decoding inverts encoding, and neither direction panics.
\<close>

section \<open>Data\<close>

record limits =
  limits_max_message_size :: u64
  limits_max_chunk_size :: u64
  limits_max_manifest_entries :: u64
  limits_max_concurrent_streams :: u32

definition limits_default :: limits where
  "limits_default = \<lparr>limits_max_message_size = MAX_MESSAGE_SIZE, limits_max_chunk_size = MAX_CHUNK_SIZE,
     limits_max_manifest_entries = MAX_MANIFEST_ENTRIES, limits_max_concurrent_streams = 32\<rparr>"

section \<open>HELLO\<close>

record hello =
  hello_versions :: bytes
  hello_capabilities :: capabilities
  hello_agent :: bytes

definition hello_encode :: "hello \<Rightarrow> (protocol_error, bytes) res" where
  "hello_encode m =
     (if length (hello_agent m) > 65535 then Err (Malformed ''agent too long'')
      else if length (hello_versions m) > 255 then Err (Malformed ''too many versions'')
      else
        and_then (write_str (hello_agent m)) (\<lambda>a.
        Ok ([word_of_nat (length (hello_versions m))] @ hello_versions m
            @ u32_to_le (caps_to_wire (hello_capabilities m)) @ a)))"

definition hello_decode :: "bytes \<Rightarrow> (protocol_error, hello) res" where
  "hello_decode buf =
     (if buf = [] then Err (Malformed ''HELLO: empty'')
      else
        and_then (index buf 0) (\<lambda>c.
        let count = unat c in
        if length buf < 1 + count then Err (Malformed ''HELLO: truncated versions'')
        else
          let i = 1 + count in
          if length buf < i + 4 then Err (Malformed ''HELLO: truncated capabilities'')
          else
            and_then (slice buf 1 (1 + count)) (\<lambda>versions.
            and_then (get_u32 buf i) (\<lambda>caps_raw.
            let capabilities = caps_from_wire caps_raw; i = i + 4 in
            and_then (read_str buf i ''HELLO: agent_len overflow'' ''HELLO: truncated agent''
                        ''HELLO: agent not UTF-8'') (\<lambda>(agent, _).
            Ok \<lparr>hello_versions = versions, hello_capabilities = capabilities, hello_agent = agent\<rparr>)))))"

text \<open>The message \<open>Hello::default_client\<close> builds.\<close>

definition AGENT_STRING :: bytes where
  "AGENT_STRING = lit ''velcrux/0.1.0''"

definition hello_default_client :: hello where
  "hello_default_client =
     \<lparr>hello_versions = [PROTOCOL_VERSION],
      hello_capabilities =
        caps_set Hardlinks (caps_set Symlinks (caps_set SparseFiles (caps_set CompressionZstd
          (caps_set Blake3 (caps_set CdcChunking (caps_set FixedChunking caps_EMPTY)))))),
      hello_agent = AGENT_STRING\<rparr>"

definition wf_hello :: "hello \<Rightarrow> bool" where
  "wf_hello m \<longleftrightarrow> length (hello_versions m) \<le> 255 \<and> wf_caps (hello_capabilities m)
     \<and> utf8_valid (hello_agent m) \<and> length (hello_agent m) \<le> 65535"

section \<open>HELLO\_ACK\<close>

record hello_ack =
  ack_version :: u8
  ack_capabilities :: capabilities
  ack_limits :: limits
  ack_agent :: bytes

definition hello_ack_encode :: "hello_ack \<Rightarrow> (protocol_error, bytes) res" where
  "hello_ack_encode m =
     (if length (ack_agent m) > 65535 then Err (Malformed ''agent too long'')
      else
        and_then (write_str (ack_agent m)) (\<lambda>a.
        Ok ([ack_version m] @ u32_to_le (caps_to_wire (ack_capabilities m))
            @ u64_to_le (limits_max_message_size (ack_limits m))
            @ u64_to_le (limits_max_chunk_size (ack_limits m))
            @ u64_to_le (limits_max_manifest_entries (ack_limits m))
            @ u32_to_le (limits_max_concurrent_streams (ack_limits m)) @ a)))"

definition hello_ack_decode :: "bytes \<Rightarrow> (protocol_error, hello_ack) res" where
  "hello_ack_decode buf =
     (if length buf < 1 + 4 + 8 * 3 + 4 then Err (Malformed ''HELLO_ACK: truncated'')
      else
        and_then (index buf 0) (\<lambda>version.
        let i = 1 in
        and_then (get_u32 buf i) (\<lambda>caps_raw.
        let i = i + 4 in
        and_then (get_u64 buf i) (\<lambda>max_message_size.
        let i = i + 8 in
        and_then (get_u64 buf i) (\<lambda>max_chunk_size.
        let i = i + 8 in
        and_then (get_u64 buf i) (\<lambda>max_manifest_entries.
        let i = i + 8 in
        and_then (get_u32 buf i) (\<lambda>max_concurrent_streams.
        let i = i + 4 in
        and_then (read_str buf i ''HELLO_ACK: agent_len overflow'' ''HELLO_ACK: truncated agent''
                    ''HELLO_ACK: agent not UTF-8'') (\<lambda>(agent, _).
        Ok \<lparr>ack_version = version, ack_capabilities = caps_from_wire caps_raw,
            ack_limits = \<lparr>limits_max_message_size = max_message_size,
                          limits_max_chunk_size = max_chunk_size,
                          limits_max_manifest_entries = max_manifest_entries,
                          limits_max_concurrent_streams = max_concurrent_streams\<rparr>,
            ack_agent = agent\<rparr>))))))))"

definition wf_hello_ack :: "hello_ack \<Rightarrow> bool" where
  "wf_hello_ack m \<longleftrightarrow> wf_caps (ack_capabilities m) \<and> utf8_valid (ack_agent m) \<and> length (ack_agent m) \<le> 65535"

section \<open>AUTH and AUTH\_OK\<close>

definition AUTH_MECHANISM_MTLS :: u16 where [simp]: "AUTH_MECHANISM_MTLS = 0"
definition AUTH_MECHANISM_SSH_PUBKEY :: u16 where [simp]: "AUTH_MECHANISM_SSH_PUBKEY = 1"

record auth =
  auth_mechanism :: u16
  auth_token :: bytes

definition auth_mtls :: auth where
  "auth_mtls = \<lparr>auth_mechanism = AUTH_MECHANISM_MTLS, auth_token = []\<rparr>"

definition auth_encode :: "auth \<Rightarrow> (protocol_error, bytes) res" where
  "auth_encode m =
     (if length (auth_token m) > MAX_AUTH_TOKEN then Err (Malformed ''AUTH: token too long'')
      else Ok (u16_to_le (auth_mechanism m) @ u16_to_le 0
               @ u32_to_le (word_of_nat (length (auth_token m))) @ auth_token m))"

definition auth_decode :: "bytes \<Rightarrow> (protocol_error, auth) res" where
  "auth_decode buf =
     (if length buf < 8 then Err (Malformed ''AUTH: truncated'')
      else
        and_then (get_u16 buf 0) (\<lambda>mechanism.
        and_then (get_u32 buf 4) (\<lambda>token_len.
        if unat token_len > MAX_AUTH_TOKEN then Err (Malformed ''AUTH: token too long'')
        else if length buf < 8 + unat token_len then Err (Malformed ''AUTH: truncated token'')
        else if mechanism \<noteq> AUTH_MECHANISM_MTLS \<and> mechanism \<noteq> AUTH_MECHANISM_SSH_PUBKEY
        then Err (Malformed ''AUTH: unknown mechanism'')
        else
          and_then (slice buf 8 (8 + unat token_len)) (\<lambda>token.
          Ok \<lparr>auth_mechanism = mechanism, auth_token = token\<rparr>))))"

definition wf_auth :: "auth \<Rightarrow> bool" where
  "wf_auth m \<longleftrightarrow> auth_mechanism m \<in> {AUTH_MECHANISM_MTLS, AUTH_MECHANISM_SSH_PUBKEY}
     \<and> length (auth_token m) \<le> MAX_AUTH_TOKEN"

record auth_ok =
  auth_ok_identity :: bytes
  auth_ok_permissions :: u64

definition auth_ok_encode :: "auth_ok \<Rightarrow> (protocol_error, bytes) res" where
  "auth_ok_encode m =
     (if length (auth_ok_identity m) > MAX_IDENTITY_LEN then Err (Malformed ''AUTH_OK: identity too long'')
      else
        and_then (write_str (auth_ok_identity m)) (\<lambda>s.
        Ok (s @ u64_to_le (auth_ok_permissions m))))"

definition auth_ok_decode :: "bytes \<Rightarrow> (protocol_error, auth_ok) res" where
  "auth_ok_decode buf =
     (if buf = [] then Err (Malformed ''AUTH_OK: empty'')
      else
        and_then (decode_varint buf) (\<lambda>(ilen, consumed).
        let i = consumed in
        if unat ilen > MAX_IDENTITY_LEN then Err (Malformed ''AUTH_OK: identity too long'')
        else
          and_then (ok_or (usize_checked_add i (unat ilen)) (Malformed ''AUTH_OK: identity_len overflow'')) (\<lambda>off.
          and_then (ok_or (usize_checked_add off 8) (Malformed ''AUTH_OK: length overflow'')) (\<lambda>needed.
          if length buf < needed then Err (Malformed ''AUTH_OK: truncated'')
          else
            and_then (slice buf i off) (\<lambda>s.
            and_then (from_utf8 s (Malformed ''AUTH_OK: identity not UTF-8'')) (\<lambda>identity.
            and_then (get_u64 buf off) (\<lambda>permissions.
            Ok \<lparr>auth_ok_identity = identity, auth_ok_permissions = permissions\<rparr>)))))))"

definition wf_auth_ok :: "auth_ok \<Rightarrow> bool" where
  "wf_auth_ok m \<longleftrightarrow> utf8_valid (auth_ok_identity m) \<and> length (auth_ok_identity m) \<le> MAX_IDENTITY_LEN"

section \<open>PING, BYE and SESSION\_INIT\<close>

record ping =
  ping_nonce :: u64
  ping_sender_ts_ms :: u64

definition ping_encode :: "ping \<Rightarrow> (protocol_error, bytes) res" where
  "ping_encode m =
     and_then (copy_at (replicate 16 0) 0 (u64_to_le (ping_nonce m))) (\<lambda>out.
     copy_at out 8 (u64_to_le (ping_sender_ts_ms m)))"

definition ping_decode :: "bytes \<Rightarrow> (protocol_error, ping) res" where
  "ping_decode buf =
     (if length buf < 16 then Err (Malformed ''PING: truncated'')
      else
        and_then (get_u64 buf 0) (\<lambda>nonce.
        and_then (get_u64 buf 8) (\<lambda>sender_ts_ms.
        Ok \<lparr>ping_nonce = nonce, ping_sender_ts_ms = sender_ts_ms\<rparr>)))"

record bye =
  bye_code :: u32

definition bye_encode :: "bye \<Rightarrow> (protocol_error, bytes) res" where
  "bye_encode m = Ok (u32_to_le (bye_code m))"

definition bye_decode :: "bytes \<Rightarrow> (protocol_error, bye) res" where
  "bye_decode buf =
     (if length buf < 4 then Err (Malformed ''BYE: truncated'')
      else and_then (get_u32 buf 0) (\<lambda>code. Ok \<lparr>bye_code = code\<rparr>))"

record session_options =
  so_bandwidth_bps :: u64
  so_priority :: u16

definition session_options_encode :: "session_options \<Rightarrow> (protocol_error, bytes) res" where
  "session_options_encode m =
     and_then (copy_at (replicate 10 0) 0 (u64_to_le (so_bandwidth_bps m))) (\<lambda>out.
     copy_at out 8 (u16_to_le (so_priority m)))"

definition session_options_decode :: "bytes \<Rightarrow> (protocol_error, session_options) res" where
  "session_options_decode buf =
     (if length buf < 10 then Err (Malformed ''SESSION_INIT: truncated'')
      else
        and_then (get_u64 buf 0) (\<lambda>bandwidth_bps.
        and_then (get_u16 buf 8) (\<lambda>priority.
        Ok \<lparr>so_bandwidth_bps = bandwidth_bps, so_priority = priority\<rparr>)))"

section \<open>ERROR\<close>

record error_msg =
  err_code :: error_code
  err_retryable :: bool
  err_detail :: error_detail

definition error_msg_new :: "error_code \<Rightarrow> error_detail \<Rightarrow> error_msg" where
  "error_msg_new code detail = \<lparr>err_code = code, err_retryable = retryable code, err_detail = detail\<rparr>"

definition error_msg_encode :: "error_msg \<Rightarrow> (protocol_error, bytes) res" where
  "error_msg_encode m =
     and_then (write_str (detail_str (err_detail m))) (\<lambda>d.
     Ok (u32_to_le (error_code_to_wire (err_code m)) @ [bool_to_u8 (err_retryable m)] @ d))"

definition error_msg_decode :: "bytes \<Rightarrow> (protocol_error, error_msg) res" where
  "error_msg_decode buf =
     (if length buf < 4 + 1 then Err (Malformed ''ERROR: truncated header'')
      else
        and_then (get_u32 buf 0) (\<lambda>c.
        and_then (read_bool buf 4 ''ERROR: retryable not 0/1'') (\<lambda>retry.
        and_then (read_str buf 5 ''ERROR: detail_len overflow'' ''ERROR: truncated detail''
                    ''ERROR: detail not UTF-8'') (\<lambda>(detail, _).
        Ok \<lparr>err_code = error_code_from_wire c, err_retryable = retry, err_detail = ErrorDetail detail\<rparr>))))"

definition wf_error_msg :: "error_msg \<Rightarrow> bool" where
  "wf_error_msg m \<longleftrightarrow> wf_detail (err_detail m)"

section \<open>Every payload is a codec\<close>

interpretation hello: message_codec hello_encode hello_decode wf_hello
proof unfold_locales
  show "\<exists>b. hello_encode m = Ok b \<and> hello_decode b = Ok m" if "wf_hello m" for m
    using that varint_len_bounds(2) [of "word_of_nat (length (hello_agent m))"]
    by (simp add: wf_hello_def hello_encode_def hello_decode_def wire_compute)
  show "hello_encode m \<noteq> Panic" for m
    by (simp add: hello_encode_def)
  show "hello_decode b \<noteq> Panic" for b
    unfolding hello_decode_def by (intro no_panic) auto
qed

interpretation hello_ack: message_codec hello_ack_encode hello_ack_decode wf_hello_ack
proof unfold_locales
  show "\<exists>b. hello_ack_encode m = Ok b \<and> hello_ack_decode b = Ok m" if "wf_hello_ack m" for m
    using that varint_len_bounds(2) [of "word_of_nat (length (ack_agent m))"]
    by (simp add: wf_hello_ack_def hello_ack_encode_def hello_ack_decode_def wire_compute)
  show "hello_ack_encode m \<noteq> Panic" for m
    by (simp add: hello_ack_encode_def)
  show "hello_ack_decode b \<noteq> Panic" for b
    unfolding hello_ack_decode_def by (intro no_panic) auto
qed

interpretation auth: strict_codec auth_encode auth_decode wf_auth
proof unfold_locales
  show "\<exists>b. auth_encode m = Ok b \<and> auth_decode b = Ok m" if "wf_auth m" for m
    using that by (auto simp: wf_auth_def auth_encode_def auth_decode_def wire_compute)
  show "auth_encode m \<noteq> Panic" for m
    by (simp add: auth_encode_def)
  show "auth_decode b \<noteq> Panic" for b
    unfolding auth_decode_def by (intro no_panic) auto
  show "wf_auth m" if "auth_decode b = Ok m" for b m
    using that by (auto simp: auth_decode_def wf_auth_def res_simps split: if_splits)
qed

interpretation auth_ok: strict_codec auth_ok_encode auth_ok_decode wf_auth_ok
proof unfold_locales
  show "\<exists>b. auth_ok_encode m = Ok b \<and> auth_ok_decode b = Ok m" if "wf_auth_ok m" for m
    using that varint_len_bounds(2) [of "word_of_nat (length (auth_ok_identity m))"]
    by (simp add: wf_auth_ok_def auth_ok_encode_def auth_ok_decode_def wire_compute)
  show "auth_ok_encode m \<noteq> Panic" for m
    by (simp add: auth_ok_encode_def)
  show "auth_ok_decode b \<noteq> Panic" for b
    unfolding auth_ok_decode_def by (intro no_panic) (auto simp: res_simps)
  show "wf_auth_ok m" if "auth_ok_decode b = Ok m" for b m
    using that by (auto simp: auth_ok_decode_def wf_auth_ok_def res_simps Let_def split: if_splits prod.splits)
qed

interpretation ping: strict_codec ping_encode ping_decode "\<lambda>_. True"
  by unfold_locales (auto simp: ping_encode_def ping_decode_def)

interpretation bye: strict_codec bye_encode bye_decode "\<lambda>_. True"
  by unfold_locales (auto simp: bye_encode_def bye_decode_def)

interpretation session_options: strict_codec session_options_encode session_options_decode "\<lambda>_. True"
  by unfold_locales (auto simp: session_options_encode_def session_options_decode_def)

interpretation error_msg: message_codec error_msg_encode error_msg_decode wf_error_msg
proof unfold_locales
  show "\<exists>b. error_msg_encode m = Ok b \<and> error_msg_decode b = Ok m" if "wf_error_msg m" for m
    using that varint_len_bounds(2) [of "word_of_nat (length (detail_str (err_detail m)))"]
    by (simp add: wf_error_msg_def wf_detail_def error_msg_encode_def error_msg_decode_def wire_compute nth_append)
  show "error_msg_encode m \<noteq> Panic" for m
    by (simp add: error_msg_encode_def)
  show "error_msg_decode b \<noteq> Panic" for b
    unfolding error_msg_decode_def by (intro no_panic) auto
qed

end
