(* ===== verification/Msg_Transfer.thy ===== *)
theory Msg_Transfer
  imports Wire_Fields
begin

text \<open>
  The messages of a transfer's life in \<open>protocol/message.rs\<close>: \<open>TRANSFER_CREATE\<close>,
  \<open>TRANSFER_CREATED\<close>, \<open>TRANSFER_PLAN\<close>, \<open>TRANSFER_BEGIN\<close>, \<open>VERIFY\<close>, \<open>VERIFY_RESULT\<close>,
  \<open>COMMIT\<close> and \<open>COMMITTED\<close>, each an interpretation of the codec interfaces. All but the
  first are strict: what was decoded can be forwarded.
\<close>

section \<open>TRANSFER\_CREATE\<close>

datatype transfer_op =
    Upload | Download | SyncUpload | SyncDownload | Delete | Symlink | Hardlink | SetXattr | SyncDelete

fun transfer_op_to_wire :: "transfer_op \<Rightarrow> u8" where
  "transfer_op_to_wire Upload = 1"
| "transfer_op_to_wire Download = 2"
| "transfer_op_to_wire SyncUpload = 3"
| "transfer_op_to_wire SyncDownload = 4"
| "transfer_op_to_wire Delete = 5"
| "transfer_op_to_wire Symlink = 6"
| "transfer_op_to_wire Hardlink = 7"
| "transfer_op_to_wire SetXattr = 8"
| "transfer_op_to_wire SyncDelete = 9"

definition transfer_op_from_wire :: "u8 \<Rightarrow> (protocol_error, transfer_op) res" where
  "transfer_op_from_wire b =
     (if b = 1 then Ok Upload
      else if b = 2 then Ok Download
      else if b = 3 then Ok SyncUpload
      else if b = 4 then Ok SyncDownload
      else if b = 5 then Ok Delete
      else if b = 6 then Ok Symlink
      else if b = 7 then Ok Hardlink
      else if b = 8 then Ok SetXattr
      else if b = 9 then Ok SyncDelete
      else Err (Malformed ''TRANSFER_CREATE: unknown op''))"

record transfer_create =
  tc_op :: transfer_op
  tc_src_path :: bytes
  tc_dst_path :: bytes
  tc_idempotency_key :: bytes
  tc_file_size :: u64
  tc_file_hash :: hash

definition transfer_create_encode :: "transfer_create \<Rightarrow> (protocol_error, bytes) res" where
  "transfer_create_encode m =
     (let sp = tc_src_path m; dp = tc_dst_path m; key = tc_idempotency_key m in
      if length sp > unat MAX_MESSAGE_SIZE \<or> length dp > 65535 \<or> length key > 65535
      then Err (Malformed ''TRANSFER_CREATE: field too long'')
      else
        and_then (write_str sp) (\<lambda>s.
        and_then (write_str dp) (\<lambda>d.
        and_then (write_str key) (\<lambda>k.
        Ok ([transfer_op_to_wire (tc_op m)] @ replicate 7 0 @ s @ d @ k
            @ u64_to_le (tc_file_size m) @ hash_bytes (tc_file_hash m))))))"

definition transfer_create_decode :: "bytes \<Rightarrow> (protocol_error, transfer_create) res" where
  "transfer_create_decode buf =
     (if length buf < 8 + 8 + 32 then Err (Malformed ''TRANSFER_CREATE: truncated'')
      else
        and_then (and_then (index buf 0) transfer_op_from_wire) (\<lambda>op.
        and_then (read_str buf 8 ''TRANSFER_CREATE: src_path_len overflow''
                    ''TRANSFER_CREATE: truncated src_path'' ''TRANSFER_CREATE: src_path not UTF-8'')
          (\<lambda>(src_path, i).
        and_then (read_str buf i ''TRANSFER_CREATE: dst_path_len overflow''
                    ''TRANSFER_CREATE: truncated dst_path'' ''TRANSFER_CREATE: dst_path not UTF-8'')
          (\<lambda>(dst_path, i).
        and_then (and_then (slice_from buf i) decode_varint) (\<lambda>(id_len, consumed).
        let i = i + consumed in
        and_then (ok_or (usize_checked_add i (unat id_len))
                    (Malformed ''TRANSFER_CREATE: idempotency_len overflow'')) (\<lambda>id_end.
        and_then (ok_or (usize_checked_add id_end (8 + 32))
                    (Malformed ''TRANSFER_CREATE: tail overflow'')) (\<lambda>tail_end.
        if length buf < tail_end then Err (Malformed ''TRANSFER_CREATE: truncated tail'')
        else
          and_then (slice buf i id_end) (\<lambda>k.
          and_then (from_utf8 k (Malformed ''TRANSFER_CREATE: idempotency not UTF-8'')) (\<lambda>key.
          let i = id_end in
          and_then (get_u64 buf i) (\<lambda>file_size.
          and_then (read_hash buf (i + 8) ''TRANSFER_CREATE: bad hash'') (\<lambda>file_hash.
          Ok \<lparr>tc_op = op, tc_src_path = src_path, tc_dst_path = dst_path, tc_idempotency_key = key,
              tc_file_size = file_size, tc_file_hash = file_hash\<rparr>)))))))))))"

definition wf_transfer_create :: "transfer_create \<Rightarrow> bool" where
  "wf_transfer_create m \<longleftrightarrow>
     utf8_valid (tc_src_path m) \<and> length (tc_src_path m) \<le> 1048576 \<and>
     utf8_valid (tc_dst_path m) \<and> length (tc_dst_path m) \<le> 65535 \<and>
     utf8_valid (tc_idempotency_key m) \<and> length (tc_idempotency_key m) \<le> 65535 \<and>
     wf_hash (tc_file_hash m)"

section \<open>TRANSFER\_CREATED, TRANSFER\_PLAN and TRANSFER\_BEGIN\<close>

record transfer_created =
  tcd_transfer_id :: transfer_id
  tcd_resumed :: bool
  tcd_max_chunk_size :: u64

definition transfer_created_encode :: "transfer_created \<Rightarrow> (protocol_error, bytes) res" where
  "transfer_created_encode m =
     Ok (tid_bytes (tcd_transfer_id m) @ [bool_to_u8 (tcd_resumed m)] @ replicate 7 0
         @ u64_to_le (tcd_max_chunk_size m))"

definition transfer_created_decode :: "bytes \<Rightarrow> (protocol_error, transfer_created) res" where
  "transfer_created_decode buf =
     (if length buf < 16 + 1 + 7 + 8 then Err (Malformed ''TRANSFER_CREATED: truncated'')
      else
        and_then (read_tid buf 0 ''TRANSFER_CREATED: bad transfer_id'') (\<lambda>transfer_id.
        and_then (read_bool buf 16 ''TRANSFER_CREATED: bad resumed'') (\<lambda>resumed.
        let i = 16 + 1 + 7 in
        and_then (get_u64 buf i) (\<lambda>max_chunk_size.
        Ok \<lparr>tcd_transfer_id = transfer_id, tcd_resumed = resumed, tcd_max_chunk_size = max_chunk_size\<rparr>))))"

record transfer_plan =
  tp_transfer_id :: transfer_id
  tp_bytes_total :: u64
  tp_bytes_to_transfer :: u64
  tp_bytes_reusable :: u64

definition transfer_plan_encode :: "transfer_plan \<Rightarrow> (protocol_error, bytes) res" where
  "transfer_plan_encode m =
     Ok (tid_bytes (tp_transfer_id m) @ u64_to_le (tp_bytes_total m)
         @ u64_to_le (tp_bytes_to_transfer m) @ u64_to_le (tp_bytes_reusable m))"

definition transfer_plan_decode :: "bytes \<Rightarrow> (protocol_error, transfer_plan) res" where
  "transfer_plan_decode buf =
     (if length buf < 16 + 8 * 3 then Err (Malformed ''TRANSFER_PLAN: truncated'')
      else
        and_then (read_tid buf 0 ''TRANSFER_PLAN: bad transfer_id'') (\<lambda>transfer_id.
        and_then (get_u64 buf 16) (\<lambda>bytes_total.
        and_then (get_u64 buf 24) (\<lambda>bytes_to_transfer.
        and_then (get_u64 buf 32) (\<lambda>bytes_reusable.
        Ok \<lparr>tp_transfer_id = transfer_id, tp_bytes_total = bytes_total,
            tp_bytes_to_transfer = bytes_to_transfer, tp_bytes_reusable = bytes_reusable\<rparr>)))))"

record transfer_begin =
  tb_transfer_id :: transfer_id
  tb_streams :: u8

definition transfer_begin_new :: "transfer_id \<Rightarrow> transfer_begin" where
  "transfer_begin_new t = \<lparr>tb_transfer_id = t, tb_streams = 1\<rparr>"

definition transfer_begin_with_streams :: "transfer_id \<Rightarrow> u8 \<Rightarrow> transfer_begin" where
  "transfer_begin_with_streams t streams = \<lparr>tb_transfer_id = t, tb_streams = max streams 1\<rparr>"

definition transfer_begin_encode :: "transfer_begin \<Rightarrow> (protocol_error, bytes) res" where
  "transfer_begin_encode m =
     Ok (tid_bytes (tb_transfer_id m) @ (if tb_streams m > 1 then [tb_streams m] else []))"

definition transfer_begin_decode :: "bytes \<Rightarrow> (protocol_error, transfer_begin) res" where
  "transfer_begin_decode buf =
     (if length buf < 16 then Err (Malformed ''TRANSFER_BEGIN: truncated'')
      else
        and_then (read_tid buf 0 ''TRANSFER_BEGIN: bad transfer_id'') (\<lambda>transfer_id.
        and_then (if length buf > 16 then and_then (index buf 16) (\<lambda>s. Ok (max s 1)) else Ok 1) (\<lambda>streams.
        Ok \<lparr>tb_transfer_id = transfer_id, tb_streams = streams\<rparr>)))"

definition wf_transfer_begin :: "transfer_begin \<Rightarrow> bool" where
  "wf_transfer_begin m \<longleftrightarrow> wf_tid (tb_transfer_id m) \<and> 1 \<le> tb_streams m"

section \<open>VERIFY, VERIFY\_RESULT, COMMIT and COMMITTED\<close>

record verify =
  vf_transfer_id :: transfer_id
  vf_expected_hash :: hash

definition verify_encode :: "verify \<Rightarrow> (protocol_error, bytes) res" where
  "verify_encode m = Ok (tid_bytes (vf_transfer_id m) @ hash_bytes (vf_expected_hash m))"

definition verify_decode :: "bytes \<Rightarrow> (protocol_error, verify) res" where
  "verify_decode buf =
     (if length buf < 16 + 32 then Err (Malformed ''VERIFY: truncated'')
      else
        and_then (read_tid buf 0 ''VERIFY: bad transfer_id'') (\<lambda>transfer_id.
        and_then (read_hash buf 16 ''VERIFY: bad hash'') (\<lambda>expected_hash.
        Ok \<lparr>vf_transfer_id = transfer_id, vf_expected_hash = expected_hash\<rparr>)))"

record verify_result =
  vr_transfer_id :: transfer_id
  vr_ok :: bool
  vr_computed_hash :: hash

definition verify_result_encode :: "verify_result \<Rightarrow> (protocol_error, bytes) res" where
  "verify_result_encode m =
     Ok (tid_bytes (vr_transfer_id m) @ [bool_to_u8 (vr_ok m)] @ replicate 7 0
         @ hash_bytes (vr_computed_hash m))"

definition verify_result_decode :: "bytes \<Rightarrow> (protocol_error, verify_result) res" where
  "verify_result_decode buf =
     (if length buf < 16 + 1 + 7 + 32 then Err (Malformed ''VERIFY_RESULT: truncated'')
      else
        and_then (read_tid buf 0 ''VERIFY_RESULT: bad transfer_id'') (\<lambda>transfer_id.
        and_then (read_bool buf 16 ''VERIFY_RESULT: bad ok'') (\<lambda>ok.
        let i = 16 + 1 + 7 in
        and_then (read_hash buf i ''VERIFY_RESULT: bad hash'') (\<lambda>computed_hash.
        Ok \<lparr>vr_transfer_id = transfer_id, vr_ok = ok, vr_computed_hash = computed_hash\<rparr>))))"

record commit =
  cm_transfer_id :: transfer_id

definition commit_encode :: "commit \<Rightarrow> (protocol_error, bytes) res" where
  "commit_encode m = Ok (tid_bytes (cm_transfer_id m))"

definition commit_decode :: "bytes \<Rightarrow> (protocol_error, commit) res" where
  "commit_decode buf =
     (if length buf < 16 then Err (Malformed ''COMMIT: truncated'')
      else and_then (read_tid buf 0 ''COMMIT: bad transfer_id'') (\<lambda>t. Ok \<lparr>cm_transfer_id = t\<rparr>))"

record committed =
  cd_transfer_id :: transfer_id
  cd_files :: u32

definition committed_encode :: "committed \<Rightarrow> (protocol_error, bytes) res" where
  "committed_encode m = Ok (tid_bytes (cd_transfer_id m) @ u32_to_le (cd_files m))"

definition committed_decode :: "bytes \<Rightarrow> (protocol_error, committed) res" where
  "committed_decode buf =
     (if length buf < 16 + 4 then Err (Malformed ''COMMITTED: truncated'')
      else
        and_then (read_tid buf 0 ''COMMITTED: bad transfer_id'') (\<lambda>transfer_id.
        and_then (get_u32 buf 16) (\<lambda>files.
        Ok \<lparr>cd_transfer_id = transfer_id, cd_files = files\<rparr>)))"

section \<open>Every payload is a codec\<close>

lemma transfer_op_roundtrip [simp]: "transfer_op_from_wire (transfer_op_to_wire op) = Ok op"
  by (cases op) (simp_all add: transfer_op_from_wire_def)

lemma transfer_op_no_panic [no_panic]: "transfer_op_from_wire b \<noteq> Panic"
  by (simp add: transfer_op_from_wire_def)

lemma Hash_bytes_collapse [simp]: "Hash (hash_bytes h) = h" "TransferId (tid_bytes t) = t"
  by (cases h, simp) (cases t, simp)

lemma transfer_create_roundtrip:
  assumes "wf_transfer_create m"
  shows "\<exists>b. transfer_create_encode m = Ok b \<and> transfer_create_decode b = Ok m"
proof -
  let ?v = "\<lambda>s :: bytes. leb128 (word_of_nat (length s)) @ s"
  let ?n = "\<lambda>s :: bytes. varint_len (word_of_nat (length s))"
  define sp dp key where f: "sp = tc_src_path m" "dp = tc_dst_path m" "key = tc_idempotency_key m"
  define tail where "tail = u64_to_le (tc_file_size m) @ hash_bytes (tc_file_hash m)"
  define buf where "buf = (transfer_op_to_wire (tc_op m) # replicate 7 0) @ ?v sp @ ?v dp @ ?v key @ tail"
  have lim: "utf8_valid sp" "length sp \<le> 1048576" "utf8_valid dp" "length dp \<le> 65535"
      "utf8_valid key" "length key \<le> 65535" "length (hash_bytes (tc_file_hash m)) = 32"
    using assms by (simp_all add: wf_transfer_create_def wf_hash_def f)
  have n: "?n sp \<le> 10" "?n dp \<le> 10" "?n key \<le> 10" by (rule varint_len_bounds)+
  have enc: "transfer_create_encode m = Ok buf"
    using lim by (simp add: transfer_create_encode_def Let_def f [symmetric] buf_def tail_def)
  have len: "length buf = 48 + ?n sp + length sp + ?n dp + length dp + ?n key + length key"
    using lim by (simp add: buf_def tail_def)
  have op: "index buf 0 = Ok (transfer_op_to_wire (tc_op m))" by (simp add: buf_def)
  define i1 i2 i3 where i: "i1 = 8 + ?n sp + length sp" "i2 = i1 + ?n dp + length dp" "i3 = i2 + ?n key"
  have "drop (length (transfer_op_to_wire (tc_op m) # replicate 7 0)) buf = leb128 (word_of_nat (length sp)) @ sp @ ?v dp @ ?v key @ tail"
    unfolding buf_def by (simp only: append_eq_conv_conj [THEN iffD1] append.assoc) simp
  then have d0: "drop 8 buf = leb128 (word_of_nat (length sp)) @ sp @ ?v dp @ ?v key @ tail" by simp
  have d1: "drop i1 buf = leb128 (word_of_nat (length dp)) @ dp @ ?v key @ tail"
    using drop_after_str [OF d0] by (simp add: i)
  have d2: "drop i2 buf = leb128 (word_of_nat (length key)) @ key @ tail"
    using drop_after_str [OF d1] by (simp add: i(2))
  have d3: "drop i3 buf = key @ tail" using drop_after [OF d2] by (simp add: i(3))
  have d4: "drop (i3 + length key) buf = tail" using drop_after [OF d3] by simp
  have d5: "drop (i3 + length key + 8) buf = hash_bytes (tc_file_hash m)"
    using drop_after [of "i3 + length key" buf "u64_to_le (tc_file_size m)"] d4 by (simp add: tail_def)
  have s1: "read_str buf 8 o' t u = Ok (sp, i1)" for o' t u
    unfolding i by (rule read_str_app [OF d0]) (use len lim in simp_all)
  have s2: "read_str buf i1 o' t u = Ok (dp, i2)" for o' t u
    unfolding i(2) by (rule read_str_app [OF d1]) (use len lim n in \<open>simp_all add: i\<close>)
  have l3: "length buf = i3 + length key + 40" by (simp add: len i)
  have b3: "i3 + length key + 40 < 2 ^ 64" using lim n by (simp add: i)
  have i8: "8 \<le> i3" by (simp add: i)
  have v: "and_then (slice_from buf i2) decode_varint = Ok (word_of_nat (length key), ?n key)"
    using l3 by (simp add: d2 i(3))
  have k: "slice buf i3 (i3 + length key) = Ok key" using l3 by (simp add: d3)
  have "transfer_create_decode buf = Ok m"
    unfolding transfer_create_decode_def Let_def
    using lim b3 i8 by (simp add: l3 op s1 s2 v k i(3) [symmetric] d4 d5 tail_def) (simp add: f)
  with enc show ?thesis by blast
qed

interpretation transfer_create: message_codec transfer_create_encode transfer_create_decode wf_transfer_create
proof unfold_locales
  show "\<exists>b. transfer_create_encode m = Ok b \<and> transfer_create_decode b = Ok m" if "wf_transfer_create m" for m
    using transfer_create_roundtrip [OF that] .
  show "transfer_create_encode m \<noteq> Panic" for m
    by (simp add: transfer_create_encode_def Let_def)
  show "transfer_create_decode b \<noteq> Panic" for b
    unfolding transfer_create_decode_def by (intro no_panic) (auto simp: res_simps)
qed

interpretation transfer_created:
  strict_codec transfer_created_encode transfer_created_decode "\<lambda>m. wf_tid (tcd_transfer_id m)"
proof unfold_locales
  show "\<exists>b. transfer_created_encode m = Ok b \<and> transfer_created_decode b = Ok m"
    if "wf_tid (tcd_transfer_id m)" for m
    using that by (simp add: transfer_created_encode_def transfer_created_decode_def wf_tid_def nth_append)
  show "transfer_created_encode m \<noteq> Panic" for m
    by (simp add: transfer_created_encode_def)
  show "transfer_created_decode b \<noteq> Panic" for b
    unfolding transfer_created_decode_def by (intro no_panic) auto
  show "wf_tid (tcd_transfer_id m)"
    if "transfer_created_decode b = Ok m" for b m
    using that by (auto simp: transfer_created_decode_def res_simps split: if_splits)
qed

interpretation transfer_plan:
  strict_codec transfer_plan_encode transfer_plan_decode "\<lambda>m. wf_tid (tp_transfer_id m)"
  by unfold_locales
    (auto simp: transfer_plan_encode_def transfer_plan_decode_def wf_tid_def split: if_splits)

interpretation transfer_begin: strict_codec transfer_begin_encode transfer_begin_decode wf_transfer_begin
  by unfold_locales
    (auto simp: transfer_begin_encode_def transfer_begin_decode_def wf_transfer_begin_def nth_append wf_tid_def
      max_def split: if_splits)

interpretation verify:
  strict_codec verify_encode verify_decode "\<lambda>m. wf_tid (vf_transfer_id m) \<and> wf_hash (vf_expected_hash m)"
  by unfold_locales
    (auto simp: verify_encode_def verify_decode_def wf_tid_def wf_hash_def split: if_splits)

interpretation verify_result:
  strict_codec verify_result_encode verify_result_decode
    "\<lambda>m. wf_tid (vr_transfer_id m) \<and> wf_hash (vr_computed_hash m)"
proof unfold_locales
  show "\<exists>b. verify_result_encode m = Ok b \<and> verify_result_decode b = Ok m"
    if "wf_tid (vr_transfer_id m) \<and> wf_hash (vr_computed_hash m)" for m
    using that by (simp add: verify_result_encode_def verify_result_decode_def wf_tid_def wf_hash_def nth_append)
  show "verify_result_encode m \<noteq> Panic" for m
    by (simp add: verify_result_encode_def)
  show "verify_result_decode b \<noteq> Panic" for b
    unfolding verify_result_decode_def by (intro no_panic) auto
  show "wf_tid (vr_transfer_id m) \<and> wf_hash (vr_computed_hash m)"
    if "verify_result_decode b = Ok m" for b m
    using that by (auto simp: verify_result_decode_def res_simps split: if_splits)
qed

interpretation commit: strict_codec commit_encode commit_decode "\<lambda>m. wf_tid (cm_transfer_id m)"
  by unfold_locales (auto simp: commit_encode_def commit_decode_def wf_tid_def split: if_splits)

interpretation committed: strict_codec committed_encode committed_decode "\<lambda>m. wf_tid (cd_transfer_id m)"
  by unfold_locales (auto simp: committed_encode_def committed_decode_def wf_tid_def split: if_splits)

end
