(* ===== verification/Msg_Resume.thy ===== *)
theory Msg_Resume
  imports Msg_Transfer
begin

text \<open>
  The messages for resuming and inspecting transfers in \<open>protocol/message.rs\<close>:
  \<open>CHECKPOINT\<close>, \<open>RESUME\<close>, \<open>RESUME_STATE\<close>, \<open>CANCEL\<close>, \<open>STAT\<close>, \<open>STAT_RESULT\<close>, \<open>LIST\<close> and
  \<open>LIST_RESULT\<close>. Chunk indices travel as a count and strictly increasing varints; both
  messages that carry them share \<open>decode_indices\<close>.
\<close>

section \<open>Index lists\<close>

definition MAX_WIRE_CHUNKS :: u64 where [simp]: "MAX_WIRE_CHUNKS = 1000000"

fun encode_indices :: "u64 list \<Rightarrow> ('e, bytes) res" where
  "encode_indices [] = Ok []"
| "encode_indices (idx # rest) =
     and_then (varint_bytes idx) (\<lambda>v.
     and_then (encode_indices rest) (\<lambda>r. Ok (v @ r)))"

fun decode_indices ::
  "bytes \<Rightarrow> nat \<Rightarrow> nat \<Rightarrow> u64 option \<Rightarrow> string \<Rightarrow> string \<Rightarrow> (protocol_error, u64 list) res" where
  "decode_indices buf i 0 prev truncated non_monotonic = Ok []"
| "decode_indices buf i (Suc count) prev truncated non_monotonic =
     (if i \<ge> length buf then Err (Malformed truncated)
      else
        and_then (and_then (slice_from buf i) decode_varint) (\<lambda>(idx, consumed).
        if (case prev of Some p \<Rightarrow> idx \<le> p | None \<Rightarrow> False) then Err (Malformed non_monotonic)
        else
          and_then (decode_indices buf (i + consumed) count (Some idx) truncated non_monotonic) (\<lambda>rest.
          Ok (idx # rest))))"

lemma encode_indices_eq [simp]: "encode_indices xs = Ok (concat (map leb128 xs))"
  by (induction xs) simp_all

lemma decode_indices_concat:
  assumes "drop i buf = concat (map leb128 xs) @ rest" and "sorted_wrt (<) xs"
    and "\<forall>p. prev = Some p \<longrightarrow> (\<forall>x \<in> set xs. p < x)"
  shows "decode_indices buf i (length xs) prev t nm = Ok xs"
  using assms
proof (induction xs arbitrary: i prev)
  case (Cons x xs)
  have d: "drop i buf = leb128 x @ concat (map leb128 xs) @ rest" using Cons.prems(1) by simp
  then have "i < length buf" by (metis append_is_Nil_conv drop_all leb128_nonempty not_le)
  moreover have "drop (i + varint_len x) buf = concat (map leb128 xs) @ rest"
    using drop_after [OF d] by simp
  then have "decode_indices buf (i + varint_len x) (length xs) (Some x) t nm = Ok xs"
    using Cons.prems by (intro Cons.IH) simp_all
  ultimately show ?case
    using Cons.prems(3) d by (cases prev) (auto simp: not_le)
qed simp

lemma decode_indices_no_panic [no_panic]:
  "decode_indices buf i count prev t nm \<noteq> Panic"
  by (induction buf i count prev t nm rule: decode_indices.induct)
    (simp, subst decode_indices.simps, intro no_panic, auto)

lemma decode_indices_OkD:
  "decode_indices buf i count prev t nm = Ok xs \<Longrightarrow>
     length xs = count \<and> sorted_wrt (<) xs \<and> (\<forall>p. prev = Some p \<longrightarrow> (\<forall>x \<in> set xs. p < x))"
proof (induction count arbitrary: i prev xs)
  case (Suc count)
  from Suc.prems obtain idx n rest where xs: "xs = idx # rest"
    and p: "\<not> (case prev of Some p \<Rightarrow> idx \<le> p | None \<Rightarrow> False)"
    and r: "decode_indices buf (i + n) count (Some idx) t nm = Ok rest"
    by (auto simp: res_simps split: if_splits)
  from Suc.IH [OF r] show ?case
    using p by (auto simp: xs not_le split: option.splits)
qed simp

section \<open>CHECKPOINT\<close>

record checkpoint =
  ck_transfer_id :: transfer_id
  ck_bytes_transferred :: u64
  ck_verified_up_to :: u64
  ck_ts_ms :: u64
  ck_completed_chunks :: "u64 list"

definition checkpoint_encode :: "checkpoint \<Rightarrow> (protocol_error, bytes) res" where
  "checkpoint_encode m =
     (if (word_of_nat (length (ck_completed_chunks m)) :: u64) > MAX_WIRE_CHUNKS
      then Err (Malformed ''too many completed chunks'')
      else
        and_then (varint_bytes (word_of_nat (length (ck_completed_chunks m)))) (\<lambda>n.
        and_then (encode_indices (ck_completed_chunks m)) (\<lambda>idx.
        Ok (tid_bytes (ck_transfer_id m) @ u64_to_le (ck_bytes_transferred m)
            @ u64_to_le (ck_verified_up_to m) @ u64_to_le (ck_ts_ms m) @ n @ idx))))"

definition checkpoint_decode :: "bytes \<Rightarrow> (protocol_error, checkpoint) res" where
  "checkpoint_decode buf =
     (if length buf < 16 + 8 * 3 then Err (Malformed ''CHECKPOINT: truncated header'')
      else
        and_then (read_tid buf 0 ''CHECKPOINT: bad transfer_id'') (\<lambda>transfer_id.
        and_then (get_u64 buf 16) (\<lambda>bytes_transferred.
        and_then (get_u64 buf 24) (\<lambda>verified_up_to.
        and_then (get_u64 buf 32) (\<lambda>ts_ms.
        let i = 40 in
        and_then (and_then (slice_from buf i) decode_varint) (\<lambda>(count, consumed).
        let i = i + consumed in
        if count > MAX_WIRE_CHUNKS then Err (Malformed ''too many completed chunks'')
        else
          and_then (decode_indices buf i (unat count) None ''CHECKPOINT: truncated chunks''
                      ''CHECKPOINT: non-monotonic chunks'') (\<lambda>completed.
          Ok \<lparr>ck_transfer_id = transfer_id, ck_bytes_transferred = bytes_transferred,
              ck_verified_up_to = verified_up_to, ck_ts_ms = ts_ms,
              ck_completed_chunks = completed\<rparr>)))))))"

definition wf_indices :: "u64 list \<Rightarrow> bool" where
  "wf_indices xs \<longleftrightarrow> length xs \<le> 1000000 \<and> sorted_wrt (<) xs"

definition wf_checkpoint :: "checkpoint \<Rightarrow> bool" where
  "wf_checkpoint m \<longleftrightarrow> wf_tid (ck_transfer_id m) \<and> wf_indices (ck_completed_chunks m)"

section \<open>RESUME and RESUME\_STATE\<close>

record resume =
  rs_transfer_id :: transfer_id
  rs_idempotency_key :: bytes

definition resume_encode :: "resume \<Rightarrow> (protocol_error, bytes) res" where
  "resume_encode m =
     (if length (rs_idempotency_key m) > 65535 then Err (Malformed ''RESUME: idempotency_key too long'')
      else
        and_then (write_str (rs_idempotency_key m)) (\<lambda>k. Ok (tid_bytes (rs_transfer_id m) @ k)))"

definition resume_decode :: "bytes \<Rightarrow> (protocol_error, resume) res" where
  "resume_decode buf =
     (if length buf < 16 then Err (Malformed ''RESUME: truncated'')
      else
        and_then (read_tid buf 0 ''RESUME: bad transfer_id'') (\<lambda>transfer_id.
        and_then (read_str buf 16 ''RESUME: key length overflow'' ''RESUME: truncated key''
                    ''RESUME: key not UTF-8'') (\<lambda>(key, _).
        Ok \<lparr>rs_transfer_id = transfer_id, rs_idempotency_key = key\<rparr>)))"

definition wf_resume :: "resume \<Rightarrow> bool" where
  "wf_resume m \<longleftrightarrow> wf_tid (rs_transfer_id m) \<and> utf8_valid (rs_idempotency_key m)
     \<and> length (rs_idempotency_key m) \<le> 65535"

record resume_state =
  rst_transfer_id :: transfer_id
  rst_staging_relpath :: bytes
  rst_file_size :: u64
  rst_bytes_completed :: u64
  rst_verified_up_to :: u64
  rst_file_hash :: hash
  rst_completed_chunks :: "u64 list"

definition resume_state_encode :: "resume_state \<Rightarrow> (protocol_error, bytes) res" where
  "resume_state_encode m =
     (if (word_of_nat (length (rst_completed_chunks m)) :: u64) > MAX_WIRE_CHUNKS
      then Err (Malformed ''too many completed chunks'')
      else if length (rst_staging_relpath m) > 65535 then Err (Malformed ''RESUME_STATE: path too long'')
      else
        and_then (write_str (rst_staging_relpath m)) (\<lambda>path.
        and_then (varint_bytes (word_of_nat (length (rst_completed_chunks m)))) (\<lambda>n.
        and_then (encode_indices (rst_completed_chunks m)) (\<lambda>idx.
        Ok (tid_bytes (rst_transfer_id m) @ path @ u64_to_le (rst_file_size m)
            @ u64_to_le (rst_bytes_completed m) @ u64_to_le (rst_verified_up_to m)
            @ hash_bytes (rst_file_hash m) @ n @ idx)))))"

definition resume_state_decode :: "bytes \<Rightarrow> (protocol_error, resume_state) res" where
  "resume_state_decode buf =
     (if length buf < 16 then Err (Malformed ''RESUME_STATE: truncated'')
      else
        and_then (read_tid buf 0 ''RESUME_STATE: bad transfer_id'') (\<lambda>transfer_id.
        and_then (and_then (slice_from buf 16) decode_varint) (\<lambda>(plen, consumed).
        let i = 16 + consumed in
        and_then (ok_or (usize_checked_add i (unat plen)) (Malformed ''RESUME_STATE: path length overflow'')) (\<lambda>pend.
        and_then (ok_or (usize_checked_add pend (8 * 3 + 32)) (Malformed ''RESUME_STATE: body length overflow'')) (\<lambda>body_end.
        if length buf < body_end then Err (Malformed ''RESUME_STATE: truncated body'')
        else
          and_then (slice buf i pend) (\<lambda>p.
          and_then (from_utf8 p (Malformed ''RESUME_STATE: path not UTF-8'')) (\<lambda>path.
          let i = pend in
          and_then (get_u64 buf i) (\<lambda>file_size.
          and_then (get_u64 buf (i + 8)) (\<lambda>bytes_completed.
          and_then (get_u64 buf (i + 16)) (\<lambda>verified_up_to.
          and_then (read_hash buf (i + 24) ''RESUME_STATE: bad hash'') (\<lambda>file_hash.
          let i = i + 56 in
          and_then (and_then (slice_from buf i) decode_varint) (\<lambda>(count, consumed).
          let i = i + consumed in
          if count > MAX_WIRE_CHUNKS then Err (Malformed ''too many completed chunks'')
          else
            and_then (decode_indices buf i (unat count) None ''RESUME_STATE: truncated chunks''
                        ''RESUME_STATE: non-monotonic chunks'') (\<lambda>completed.
            Ok \<lparr>rst_transfer_id = transfer_id, rst_staging_relpath = path, rst_file_size = file_size,
                rst_bytes_completed = bytes_completed, rst_verified_up_to = verified_up_to,
                rst_file_hash = file_hash, rst_completed_chunks = completed\<rparr>)))))))))))))"

definition wf_resume_state :: "resume_state \<Rightarrow> bool" where
  "wf_resume_state m \<longleftrightarrow> wf_tid (rst_transfer_id m) \<and> utf8_valid (rst_staging_relpath m)
     \<and> length (rst_staging_relpath m) \<le> 65535 \<and> wf_hash (rst_file_hash m)
     \<and> wf_indices (rst_completed_chunks m)"

section \<open>CANCEL and STAT\<close>

record cancel =
  cn_transfer_id :: transfer_id
  cn_reason_code :: u32

definition cancel_encode :: "cancel \<Rightarrow> (protocol_error, bytes) res" where
  "cancel_encode m = Ok (tid_bytes (cn_transfer_id m) @ u32_to_le (cn_reason_code m))"

definition cancel_decode :: "bytes \<Rightarrow> (protocol_error, cancel) res" where
  "cancel_decode buf =
     (if length buf < 16 + 4 then Err (Malformed ''CANCEL: truncated'')
      else
        and_then (read_tid buf 0 ''CANCEL: bad transfer_id'') (\<lambda>transfer_id.
        and_then (get_u32 buf 16) (\<lambda>reason_code.
        Ok \<lparr>cn_transfer_id = transfer_id, cn_reason_code = reason_code\<rparr>)))"

record stat_query =
  sq_transfer_id :: transfer_id

definition stat_query_encode :: "stat_query \<Rightarrow> (protocol_error, bytes) res" where
  "stat_query_encode m = Ok (tid_bytes (sq_transfer_id m))"

definition stat_query_decode :: "bytes \<Rightarrow> (protocol_error, stat_query) res" where
  "stat_query_decode buf =
     (if length buf < 16 then Err (Malformed ''STAT: truncated'')
      else and_then (read_tid buf 0 ''STAT: bad transfer_id'') (\<lambda>t. Ok \<lparr>sq_transfer_id = t\<rparr>))"

record stat_result =
  sr_transfer_id :: transfer_id
  sr_found :: bool
  sr_status :: bytes
  sr_direction :: bytes
  sr_remote_path :: bytes
  sr_file_size :: u64
  sr_bytes_completed :: u64
  sr_verified_up_to :: u64
  sr_created_ms :: u64
  sr_updated_ms :: u64

text \<open>One turn of the loop over the three strings.\<close>

definition stat_write_str :: "bytes \<Rightarrow> (protocol_error, bytes) res" where
  "stat_write_str b =
     (if length b > 65535 then Err (Malformed ''STAT_RESULT: field too long'') else write_str b)"

definition stat_result_encode :: "stat_result \<Rightarrow> (protocol_error, bytes) res" where
  "stat_result_encode m =
     and_then (stat_write_str (sr_status m)) (\<lambda>s.
     and_then (stat_write_str (sr_direction m)) (\<lambda>d.
     and_then (stat_write_str (sr_remote_path m)) (\<lambda>p.
     Ok (tid_bytes (sr_transfer_id m) @ [bool_to_u8 (sr_found m), 0] @ s @ d @ p
         @ u64_to_le (sr_file_size m) @ u64_to_le (sr_bytes_completed m)
         @ u64_to_le (sr_verified_up_to m) @ u64_to_le (sr_created_ms m) @ u64_to_le (sr_updated_ms m)))))"

definition stat_read_str :: "bytes \<Rightarrow> nat \<Rightarrow> (protocol_error, bytes \<times> nat) res" where
  "stat_read_str buf i =
     read_str buf i ''STAT_RESULT: string length overflow'' ''STAT_RESULT: truncated string''
       ''STAT_RESULT: not UTF-8''"

definition stat_result_decode :: "bytes \<Rightarrow> (protocol_error, stat_result) res" where
  "stat_result_decode buf =
     (if length buf < 16 + 2 then Err (Malformed ''STAT_RESULT: truncated'')
      else
        and_then (read_tid buf 0 ''STAT_RESULT: bad transfer_id'') (\<lambda>transfer_id.
        and_then (read_bool buf 16 ''STAT_RESULT: bad found flag'') (\<lambda>found.
        and_then (stat_read_str buf 18) (\<lambda>(status, i).
        and_then (stat_read_str buf i) (\<lambda>(direction, i).
        and_then (stat_read_str buf i) (\<lambda>(remote_path, i).
        if length buf < i + 8 * 5 then Err (Malformed ''STAT_RESULT: truncated numbers'')
        else
          and_then (get_u64 buf i) (\<lambda>file_size.
          and_then (get_u64 buf (i + 8)) (\<lambda>bytes_completed.
          and_then (get_u64 buf (i + 16)) (\<lambda>verified_up_to.
          and_then (get_u64 buf (i + 24)) (\<lambda>created_ms.
          and_then (get_u64 buf (i + 32)) (\<lambda>updated_ms.
          Ok \<lparr>sr_transfer_id = transfer_id, sr_found = found, sr_status = status,
              sr_direction = direction, sr_remote_path = remote_path, sr_file_size = file_size,
              sr_bytes_completed = bytes_completed, sr_verified_up_to = verified_up_to,
              sr_created_ms = created_ms, sr_updated_ms = updated_ms\<rparr>)))))))))))"

definition wf_stat_result :: "stat_result \<Rightarrow> bool" where
  "wf_stat_result m \<longleftrightarrow> wf_tid (sr_transfer_id m)
     \<and> utf8_valid (sr_status m) \<and> length (sr_status m) \<le> 65535
     \<and> utf8_valid (sr_direction m) \<and> length (sr_direction m) \<le> 65535
     \<and> utf8_valid (sr_remote_path m) \<and> length (sr_remote_path m) \<le> 65535"

section \<open>LIST\<close>

record list_query =
  lq_url_prefix :: bytes

definition list_query_encode :: "list_query \<Rightarrow> (protocol_error, bytes) res" where
  "list_query_encode m =
     (if length (lq_url_prefix m) > 65535 then Err (Malformed ''LIST: prefix too long'')
      else write_str (lq_url_prefix m))"

definition list_query_decode :: "bytes \<Rightarrow> (protocol_error, list_query) res" where
  "list_query_decode buf =
     and_then (read_str buf 0 ''LIST: prefix length overflow'' ''LIST: truncated prefix'' ''LIST: not UTF-8'')
       (\<lambda>(url_prefix, _). Ok \<lparr>lq_url_prefix = url_prefix\<rparr>)"

definition wf_list_query :: "list_query \<Rightarrow> bool" where
  "wf_list_query m \<longleftrightarrow> utf8_valid (lq_url_prefix m) \<and> length (lq_url_prefix m) \<le> 65535"

record list_result =
  lr_entries :: "stat_result list"

fun encode_entries :: "stat_result list \<Rightarrow> (protocol_error, bytes) res" where
  "encode_entries [] = Ok []"
| "encode_entries (e # es) =
     and_then (stat_result_encode e) (\<lambda>body.
     and_then (varint_bytes (word_of_nat (length body))) (\<lambda>n.
     and_then (encode_entries es) (\<lambda>rest. Ok (n @ body @ rest))))"

definition list_result_encode :: "list_result \<Rightarrow> (protocol_error, bytes) res" where
  "list_result_encode m =
     (if (word_of_nat (length (lr_entries m)) :: u64) > MAX_WIRE_CHUNKS
      then Err (Malformed ''LIST_RESULT: too many entries'')
      else
        and_then (varint_bytes (word_of_nat (length (lr_entries m)))) (\<lambda>n.
        and_then (encode_entries (lr_entries m)) (\<lambda>es. Ok (n @ es))))"

fun decode_entries :: "bytes \<Rightarrow> nat \<Rightarrow> nat \<Rightarrow> (protocol_error, stat_result list) res" where
  "decode_entries buf i 0 = Ok []"
| "decode_entries buf i (Suc count) =
     (if i \<ge> length buf then Err (Malformed ''LIST_RESULT: truncated entry length'')
      else
        and_then (and_then (slice_from buf i) decode_varint) (\<lambda>(n, c).
        let i = i + c in
        and_then (ok_or (usize_checked_add i (unat n)) (Malformed ''LIST_RESULT: entry length overflow'')) (\<lambda>entry_end.
        if length buf < entry_end then Err (Malformed ''LIST_RESULT: truncated entry'')
        else
          and_then (and_then (slice buf i entry_end) stat_result_decode) (\<lambda>entry.
          and_then (decode_entries buf entry_end count) (\<lambda>es. Ok (entry # es))))))"

definition list_result_decode :: "bytes \<Rightarrow> (protocol_error, list_result) res" where
  "list_result_decode buf =
     and_then (decode_varint buf) (\<lambda>(count, c).
     if count > MAX_WIRE_CHUNKS then Err (Malformed ''LIST_RESULT: too many entries'')
     else and_then (decode_entries buf c (unat count)) (\<lambda>es. Ok \<lparr>lr_entries = es\<rparr>))"

definition wf_list_result :: "list_result \<Rightarrow> bool" where
  "wf_list_result m \<longleftrightarrow> length (lr_entries m) \<le> 1000000 \<and> list_all wf_stat_result (lr_entries m)"

section \<open>Every payload is a codec\<close>

lemma checkpoint_roundtrip:
  assumes "wf_checkpoint m"
  shows "\<exists>b. checkpoint_encode m = Ok b \<and> checkpoint_decode b = Ok m"
proof -
  define xs where "xs = ck_completed_chunks m"
  define n :: u64 where "n = word_of_nat (length xs)"
  define pre where "pre = tid_bytes (ck_transfer_id m) @ u64_to_le (ck_bytes_transferred m)
            @ u64_to_le (ck_verified_up_to m) @ u64_to_le (ck_ts_ms m)"
  define buf where "buf = pre @ leb128 n @ concat (map leb128 xs)"
  have wf: "length (tid_bytes (ck_transfer_id m)) = 16" "length xs \<le> 1000000" "sorted_wrt (<) xs"
    using assms by (simp_all add: wf_checkpoint_def wf_indices_def wf_tid_def xs_def)
  have un: "unat n = length xs" using wf by (simp add: n_def)
  then have nl: "\<not> n > MAX_WIRE_CHUNKS" using wf by (simp add: word_less_nat_alt)
  have enc: "checkpoint_encode m = Ok buf"
    using nl by (simp add: checkpoint_encode_def xs_def [symmetric] n_def [symmetric] buf_def pre_def)
  have d: "drop 40 buf = leb128 n @ concat (map leb128 xs)" using wf by (simp add: buf_def pre_def)
  have "decode_indices buf (40 + varint_len n) (length xs) None t nm = Ok xs" for t nm
    using drop_after [OF d] wf by (intro decode_indices_concat [where rest = "[]"]) simp_all
  then have "checkpoint_decode buf = Ok m"
    unfolding checkpoint_decode_def Let_def using wf nl un d
    by (simp add: buf_def pre_def) (simp add: xs_def)
  with enc show ?thesis by blast
qed

interpretation checkpoint: strict_codec checkpoint_encode checkpoint_decode wf_checkpoint
proof unfold_locales
  show "\<exists>b. checkpoint_encode m = Ok b \<and> checkpoint_decode b = Ok m" if "wf_checkpoint m" for m
    using that by (rule checkpoint_roundtrip)
  show "checkpoint_encode m \<noteq> Panic" for m
    by (simp add: checkpoint_encode_def)
  show "checkpoint_decode b \<noteq> Panic" for b
    unfolding checkpoint_decode_def by (intro no_panic) auto
  show "wf_checkpoint m" if "checkpoint_decode b = Ok m" for b m
    using that unfolding checkpoint_decode_def Let_def
    by (auto simp: res_simps wf_checkpoint_def wf_indices_def word_less_nat_alt not_less
        dest!: decode_indices_OkD split: if_splits prod.splits)
qed

interpretation resume: message_codec resume_encode resume_decode wf_resume
proof unfold_locales
  show "\<exists>b. resume_encode m = Ok b \<and> resume_decode b = Ok m" if "wf_resume m" for m
    using that varint_len_bounds(2) [of "word_of_nat (length (rs_idempotency_key m))"]
    by (simp add: wf_resume_def resume_encode_def resume_decode_def wire_compute wf_tid_def)
  show "resume_encode m \<noteq> Panic" for m
    by (simp add: resume_encode_def)
  show "resume_decode b \<noteq> Panic" for b
    unfolding resume_decode_def by (intro no_panic) auto
qed

interpretation cancel: strict_codec cancel_encode cancel_decode "\<lambda>m. wf_tid (cn_transfer_id m)"
  by unfold_locales (auto simp: cancel_encode_def cancel_decode_def wf_tid_def split: if_splits)

interpretation stat_query: strict_codec stat_query_encode stat_query_decode "\<lambda>m. wf_tid (sq_transfer_id m)"
  by unfold_locales (auto simp: stat_query_encode_def stat_query_decode_def wf_tid_def split: if_splits)

interpretation list_query: message_codec list_query_encode list_query_decode wf_list_query
proof unfold_locales
  show "\<exists>b. list_query_encode m = Ok b \<and> list_query_decode b = Ok m" if "wf_list_query m" for m
    using that varint_len_bounds(2) [of "word_of_nat (length (lq_url_prefix m))"]
    by (simp add: wf_list_query_def list_query_encode_def list_query_decode_def wire_compute)
  show "list_query_encode m \<noteq> Panic" for m
    by (simp add: list_query_encode_def)
  show "list_query_decode b \<noteq> Panic" for b
    unfolding list_query_decode_def by (intro no_panic) auto
qed

lemma resume_state_roundtrip:
  assumes "wf_resume_state m"
  shows "\<exists>b. resume_state_encode m = Ok b \<and> resume_state_decode b = Ok m"
proof -
  define p where "p = rst_staging_relpath m"
  define vp :: u64 where "vp = word_of_nat (length p)"
  define xs where "xs = rst_completed_chunks m"
  define n :: u64 where "n = word_of_nat (length xs)"
  define nums where "nums = u64_to_le (rst_file_size m) @ u64_to_le (rst_bytes_completed m)
      @ u64_to_le (rst_verified_up_to m) @ hash_bytes (rst_file_hash m)"
  define rest where "rest = leb128 n @ concat (map leb128 xs)"
  define buf where "buf = tid_bytes (rst_transfer_id m) @ leb128 vp @ p @ nums @ rest"
  define e where "e = 16 + varint_len vp + length p"
  have wf: "length (tid_bytes (rst_transfer_id m)) = 16" "length xs \<le> 1000000" "sorted_wrt (<) xs"
      "length (hash_bytes (rst_file_hash m)) = 32" "utf8_valid p" "length p \<le> 65535"
    using assms by (simp_all add: wf_resume_state_def wf_indices_def wf_tid_def wf_hash_def xs_def p_def)
  have un: "unat n = length xs" "unat vp = length p" using wf by (simp_all add: n_def vp_def)
  then have nl: "\<not> n > MAX_WIRE_CHUNKS" using wf by (simp add: word_less_nat_alt)
  have enc: "resume_state_encode m = Ok buf"
    using nl wf by (simp add: resume_state_encode_def xs_def [symmetric] n_def [symmetric] p_def [symmetric]
        vp_def [symmetric] buf_def nums_def rest_def)
  have lb: "length buf = e + 56 + length rest" using wf by (simp add: buf_def nums_def e_def)
  have t: "read_tid buf 0 er = Ok (rst_transfer_id m)" for er using wf lb by (simp add: buf_def)
  have d0: "drop 16 buf = leb128 vp @ p @ nums @ rest" using wf by (simp add: buf_def)
  have d1: "drop (16 + varint_len vp) buf = p @ nums @ rest" using drop_after [OF d0] by simp
  have d2: "drop e buf = nums @ rest" using drop_after [OF d1] by (simp add: e_def)
  have nl4: "length nums = 56" using wf by (simp add: nums_def)
  have d3: "drop (e + 56) buf = rest" using drop_after [OF d2] nl4 by simp
  have f: "get_u64 buf e = Ok (rst_file_size m)" "get_u64 buf (e + 8) = Ok (rst_bytes_completed m)"
      "get_u64 buf (e + 16) = Ok (rst_verified_up_to m)" "read_hash buf (e + 24) er = Ok (rst_file_hash m)" for er
    using lb wf by (simp_all add: drop_drop [symmetric] add.commute [of e] d2 nums_def del: drop_drop)
  have sl: "slice buf (16 + varint_len vp) e = Ok p" using lb by (simp add: e_def d1)
  have v2: "decode_varint rest = Ok (n, varint_len n)" by (simp add: rest_def)
  have ix: "decode_indices buf (e + 56 + varint_len n) (length xs) None tr nm = Ok xs" for tr nm
    using drop_after [OF d3 [unfolded rest_def]] wf by (intro decode_indices_concat [where rest = "[]"]) simp_all
  have e64: "e + 56 < 2 ^ 64" using wf varint_len_bounds(2) [of vp] by (simp add: e_def)
  have "\<not> length buf < 16" using lb by (simp add: e_def)
  then have "resume_state_decode buf = Ok m"
    unfolding resume_state_decode_def Let_def using nl un e64 wf lb
    by (simp add: t d0 e_def [symmetric] sl f d3 v2 ix) (simp add: xs_def p_def)
  with enc show ?thesis by blast
qed

interpretation resume_state: message_codec resume_state_encode resume_state_decode wf_resume_state
proof unfold_locales
  show "\<exists>b. resume_state_encode m = Ok b \<and> resume_state_decode b = Ok m" if "wf_resume_state m" for m
    using that by (rule resume_state_roundtrip)
  show "resume_state_encode m \<noteq> Panic" for m
    by (simp add: resume_state_encode_def)
  show "resume_state_decode b \<noteq> Panic" for b
    unfolding resume_state_decode_def by (intro no_panic) (auto simp: res_simps)
qed

lemma stat_result_roundtrip:
  assumes "wf_stat_result m"
  shows "\<exists>b. stat_result_encode m = Ok b \<and> stat_result_decode b = Ok m \<and> length b \<le> 200000 \<and> b \<noteq> []"
proof -
  define s d p where f: "s = sr_status m" "d = sr_direction m" "p = sr_remote_path m"
  let ?v = "\<lambda>s :: bytes. leb128 (word_of_nat (length s)) @ s"
  let ?n = "\<lambda>s :: bytes. varint_len (word_of_nat (length s))"
  define nums where "nums = u64_to_le (sr_file_size m) @ u64_to_le (sr_bytes_completed m)
      @ u64_to_le (sr_verified_up_to m) @ u64_to_le (sr_created_ms m) @ u64_to_le (sr_updated_ms m)"
  define buf where "buf = tid_bytes (sr_transfer_id m) @ [bool_to_u8 (sr_found m), 0] @ ?v s @ ?v d @ ?v p @ nums"
  define i1 i2 i3 where i: "i1 = 18 + ?n s + length s" "i2 = i1 + ?n d + length d" "i3 = i2 + ?n p + length p"
  have wf: "length (tid_bytes (sr_transfer_id m)) = 16" "utf8_valid s" "length s \<le> 65535"
      "utf8_valid d" "length d \<le> 65535" "utf8_valid p" "length p \<le> 65535"
    using assms by (simp_all add: wf_stat_result_def wf_tid_def f)
  have n: "?n s \<le> 10" "?n d \<le> 10" "?n p \<le> 10" by (rule varint_len_bounds)+
  have enc: "stat_result_encode m = Ok buf"
    using wf by (simp add: stat_result_encode_def stat_write_str_def f [symmetric] buf_def nums_def)
  have lb: "length buf = i3 + 40" using wf by (simp add: buf_def nums_def i)
  have d0: "drop 18 buf = leb128 (word_of_nat (length s)) @ s @ ?v d @ ?v p @ nums"
    using wf by (simp add: buf_def)
  have d1: "drop i1 buf = leb128 (word_of_nat (length d)) @ d @ ?v p @ nums"
    using drop_after_str [OF d0] by (simp add: i)
  have d2: "drop i2 buf = leb128 (word_of_nat (length p)) @ p @ nums"
    using drop_after_str [OF d1] by (simp add: i(2))
  have d3: "drop i3 buf = nums" using drop_after_str [OF d2] by (simp add: i(3))
  have s1: "stat_read_str buf 18 = Ok (s, i1)"
    unfolding stat_read_str_def i by (rule read_str_app [OF d0]) (use lb wf in \<open>simp_all add: i\<close>)
  have s2: "stat_read_str buf i1 = Ok (d, i2)"
    unfolding stat_read_str_def i(2) by (rule read_str_app [OF d1]) (use lb wf n in \<open>simp_all add: i\<close>)
  have s3: "stat_read_str buf i2 = Ok (p, i3)"
    unfolding stat_read_str_def i(3) by (rule read_str_app [OF d2]) (use lb wf n in \<open>simp_all add: i\<close>)
  have fs: "get_u64 buf i3 = Ok (sr_file_size m)" "get_u64 buf (i3 + 8) = Ok (sr_bytes_completed m)"
      "get_u64 buf (i3 + 16) = Ok (sr_verified_up_to m)" "get_u64 buf (i3 + 24) = Ok (sr_created_ms m)"
      "get_u64 buf (i3 + 32) = Ok (sr_updated_ms m)"
    using lb by (simp_all add: drop_drop [symmetric] add.commute [of i3] d3 nums_def del: drop_drop)
  have t: "read_tid buf 0 er = Ok (sr_transfer_id m)" "read_bool buf 16 er = Ok (sr_found m)" for er
    using wf lb by (simp_all add: buf_def nth_append)
  have "\<not> length buf < 18" using lb by (simp add: i)
  then have "stat_result_decode buf = Ok m"
    unfolding stat_result_decode_def using lb by (simp add: t s1 s2 s3 fs) (simp add: f)
  moreover have "length buf \<le> 200000" "buf \<noteq> []" using lb wf n by (auto simp: i)
  ultimately show ?thesis using enc by blast
qed

lemma stat_result_decode_no_panic [no_panic]: "stat_result_decode b \<noteq> Panic"
  unfolding stat_result_decode_def stat_read_str_def by (intro no_panic) (auto simp: res_simps)

interpretation stat_result: message_codec stat_result_encode stat_result_decode wf_stat_result
proof unfold_locales
  show "\<exists>b. stat_result_encode m = Ok b \<and> stat_result_decode b = Ok m" if "wf_stat_result m" for m
    using stat_result_roundtrip [OF that] by blast
  show "stat_result_encode m \<noteq> Panic" for m
    by (auto simp: stat_result_encode_def stat_write_str_def res_simps split: if_splits)
qed (rule stat_result_decode_no_panic)

lemma encode_entries_ok:
  "list_all wf_stat_result es \<Longrightarrow> \<exists>b. encode_entries es = Ok b \<and> length b \<le> length es * 200010"
proof (induction es)
  case (Cons e es)
  obtain b where b: "stat_result_encode e = Ok b" "length b \<le> 200000"
    using stat_result_roundtrip [of e] Cons.prems by auto
  obtain r where "encode_entries es = Ok r" "length r \<le> length es * 200010"
    using Cons by auto
  then show ?case using b varint_len_bounds(2) [of "word_of_nat (length b)"] by simp
qed simp

lemma decode_entries_encode:
  assumes "list_all wf_stat_result es" and "encode_entries es = Ok b" and "drop i buf = b @ rest"
    and "length buf < 2 ^ 64"
  shows "decode_entries buf i (length es) = Ok es"
  using assms(1-3)
proof (induction es arbitrary: i b)
  case (Cons e es)
  obtain body where body: "stat_result_encode e = Ok body" "stat_result_decode body = Ok e"
      "length body \<le> 200000"
    using stat_result_roundtrip [of e] Cons.prems(1) by auto
  obtain r where r: "encode_entries es = Ok r" using encode_entries_ok [of es] Cons.prems(1) by auto
  define n :: u64 where "n = word_of_nat (length body)"
  have b: "b = leb128 n @ body @ r" using Cons.prems(2) body r by (simp add: n_def)
  have un: "unat n = length body" using body(3) by (simp add: n_def)
  have d0: "drop i buf = leb128 n @ body @ r @ rest" using Cons.prems(3) b by simp
  have d1: "drop (i + varint_len n) buf = body @ r @ rest" using drop_after [OF d0] by simp
  have d2: "drop (i + varint_len n + length body) buf = r @ rest" using drop_after [OF d1] by simp
  have il: "i < length buf" using d0 by (metis append_is_Nil_conv drop_all leb128_nonempty not_le)
  have ll: "length buf = i + varint_len n + length body + length r + length rest"
    using arg_cong [OF d0, of length] il by simp
  have "decode_entries buf (i + varint_len n + length body) (length es) = Ok es"
    using Cons.IH [OF _ r d2] Cons.prems(1) by simp
  then show ?case
    using il ll assms(4) body(2) un by (simp add: Let_def d0 d1)
qed simp

lemma decode_entries_no_panic [no_panic]: "decode_entries buf i count \<noteq> Panic"
proof (induction count arbitrary: i)
  case (Suc count)
  then show ?case
    by (simp only: decode_entries.simps, intro no_panic) (auto simp: res_simps)
qed simp

interpretation list_result: message_codec list_result_encode list_result_decode wf_list_result
proof unfold_locales
  show "\<exists>b. list_result_encode m = Ok b \<and> list_result_decode b = Ok m" if "wf_list_result m" for m
  proof -
    define es where "es = lr_entries m"
    define n :: u64 where "n = word_of_nat (length es)"
    have wf: "length es \<le> 1000000" "list_all wf_stat_result es"
      using that by (simp_all add: wf_list_result_def es_def)
    then obtain b where b: "encode_entries es = Ok b" "length b \<le> length es * 200010"
      using encode_entries_ok by blast
    have un: "unat n = length es" using wf by (simp add: n_def)
    then have nl: "\<not> n > MAX_WIRE_CHUNKS" using wf by (simp add: word_less_nat_alt)
    have "length (leb128 n @ b) < 2 ^ 64"
      using b(2) wf(1) varint_len_bounds(2) [of n] by simp
    then have "decode_entries (leb128 n @ b) (varint_len n) (length es) = Ok es"
      by (intro decode_entries_encode [OF wf(2) b(1), where rest = "[]"]) simp_all
    then show ?thesis
      using nl b un
      by (simp add: list_result_encode_def list_result_decode_def es_def [symmetric] n_def [symmetric])
  qed
  show "list_result_encode m \<noteq> Panic" for m
  proof -
    have "encode_entries es \<noteq> Panic" for es
      by (induction es) (simp_all add: res_simps stat_result.enc_total)
    then show ?thesis by (simp add: list_result_encode_def res_simps)
  qed
  show "list_result_decode b \<noteq> Panic" for b
    unfolding list_result_decode_def by (intro no_panic)
qed

end
