(* ===== verification/Chunk_Params.thy ===== *)
theory Chunk_Params
  imports Wire_Errors
begin

text \<open>
  The chunking parameters of \<open>chunking/mod.rs\<close> and the boundaries a chunker emits. The
  parameters travel in \<open>MANIFEST_BEGIN\<close> and drive the chunkers.
\<close>

definition CHUNK_DEFAULT_MIN :: u64 where [simp]: "CHUNK_DEFAULT_MIN = 262144"
definition CHUNK_DEFAULT_TARGET :: u64 where [simp]: "CHUNK_DEFAULT_TARGET = 1048576"
definition CHUNK_DEFAULT_MAX :: u64 where [simp]: "CHUNK_DEFAULT_MAX = 4194304"

datatype chunk_mode = Cdc | Fixed | FastCdc

record chunk_params =
  cp_min :: u64
  cp_target :: u64
  cp_max :: u64

definition chunk_params_default :: chunk_params where
  "chunk_params_default = \<lparr>cp_min = CHUNK_DEFAULT_MIN, cp_target = CHUNK_DEFAULT_TARGET, cp_max = CHUNK_DEFAULT_MAX\<rparr>"

definition chunk_params_new :: "u64 \<Rightarrow> u64 \<Rightarrow> u64 \<Rightarrow> chunk_params option" where
  "chunk_params_new mn target mx =
     (if mn = 0 \<or> mx = 0 then None
      else if mn = target \<and> target = mx then Some \<lparr>cp_min = mn, cp_target = target, cp_max = mx\<rparr>
      else if mn \<ge> mx \<or> target \<le> mn \<or> target \<ge> mx then None
      else Some \<lparr>cp_min = mn, cp_target = target, cp_max = mx\<rparr>)"

definition chunk_params_fixed :: "u64 \<Rightarrow> chunk_params" where
  "chunk_params_fixed chunk_size = \<lparr>cp_min = chunk_size, cp_target = chunk_size, cp_max = chunk_size\<rparr>"

definition chunk_params_cdc :: "u64 \<Rightarrow> u64 \<Rightarrow> u64 \<Rightarrow> chunk_params option" where
  "chunk_params_cdc mn target mx =
     (if mn = 0 \<or> mx = 0 \<or> mn \<ge> mx \<or> target \<le> mn \<or> target \<ge> mx then None
      else Some \<lparr>cp_min = mn, cp_target = target, cp_max = mx\<rparr>)"

definition chunk_params_fastcdc :: "u64 \<Rightarrow> u64 \<Rightarrow> u64 \<Rightarrow> chunk_params option" where
  "chunk_params_fastcdc mn target mx = chunk_params_cdc mn target mx"

definition chunk_params_is_fixed :: "chunk_params \<Rightarrow> bool" where
  "chunk_params_is_fixed p \<longleftrightarrow> cp_min p = cp_target p \<and> cp_target p = cp_max p"

text \<open>What \<open>ChunkParams::new\<close> accepts.\<close>

definition wf_params :: "chunk_params \<Rightarrow> bool" where
  "wf_params p \<longleftrightarrow>
     0 < cp_min p \<and> (chunk_params_is_fixed p \<or> cp_min p < cp_target p \<and> cp_target p < cp_max p)"

record chunk_boundary =
  cb_offset :: u64
  cb_length :: u64

definition chunk_boundary_end :: "chunk_boundary \<Rightarrow> u64" where
  "chunk_boundary_end b = cb_offset b + cb_length b"

lemma chunk_params_new_Some_iff:
  "chunk_params_new mn target mx = Some p \<longleftrightarrow>
     p = \<lparr>cp_min = mn, cp_target = target, cp_max = mx\<rparr> \<and> wf_params p"
  by (auto simp: chunk_params_new_def wf_params_def chunk_params_is_fixed_def word_gt_0 not_le not_less)

lemma chunk_params_new_self [simp]:
  "wf_params p \<Longrightarrow> chunk_params_new (cp_min p) (cp_target p) (cp_max p) = Some p"
  by (simp add: chunk_params_new_Some_iff)

lemma wf_params_cdc: "chunk_params_cdc mn target mx = Some p \<Longrightarrow> wf_params p \<and> \<not> chunk_params_is_fixed p"
  by (auto simp: chunk_params_cdc_def wf_params_def chunk_params_is_fixed_def word_gt_0 split: if_splits)

lemma wf_params_default: "wf_params chunk_params_default"
  by (simp add: wf_params_def chunk_params_default_def chunk_params_is_fixed_def)

lemma wf_params_fixed: "0 < n \<Longrightarrow> wf_params (chunk_params_fixed n)"
  by (simp add: wf_params_def chunk_params_fixed_def chunk_params_is_fixed_def)

lemma wf_params_order: "wf_params p \<Longrightarrow> 0 < cp_min p \<and> cp_min p \<le> cp_target p \<and> cp_target p \<le> cp_max p"
  by (auto simp: wf_params_def chunk_params_is_fixed_def)

end
