(* ===== verification/Msg_Manifest.thy ===== *)
theory Msg_Manifest
  imports Msg_Transfer Chunk_Params
begin

text \<open>
  The metadata messages of \<open>protocol/message.rs\<close>: \<open>MANIFEST_BEGIN\<close>, \<open>MANIFEST_BATCH\<close>,
  \<open>MANIFEST_END\<close>, \<open>INVENTORY_HINT\<close>, \<open>CHUNK_QUERY\<close> and \<open>CHUNK_RESPONSE\<close>. All are strict
  codecs, with the bounds that the decoders enforce as well-formedness.
\<close>

record manifest_begin =
  mb_file_count :: u64
  mb_total_bytes :: u64
  mb_chunker_params :: chunk_params
  mb_manifest_hash :: hash

definition manifest_begin_encode :: "manifest_begin \<Rightarrow> (protocol_error, bytes) res" where
  "manifest_begin_encode m =
     Ok (u64_to_le (mb_file_count m) @ u64_to_le (mb_total_bytes m)
         @ u64_to_le (cp_min (mb_chunker_params m)) @ u64_to_le (cp_target (mb_chunker_params m))
         @ u64_to_le (cp_max (mb_chunker_params m)) @ hash_bytes (mb_manifest_hash m))"

definition manifest_begin_decode :: "bytes \<Rightarrow> (protocol_error, manifest_begin) res" where
  "manifest_begin_decode buf =
     (if length buf < 72 then Err (Malformed ''MANIFEST_BEGIN: truncated'')
      else
        and_then (get_u64 buf 0) (\<lambda>file_count.
        if file_count > MAX_MANIFEST_ENTRIES
        then Err (protocol_error.InvalidManifest (''file count '' @ show_nat (unat file_count)
               @ '' exceeds MAX_MANIFEST_ENTRIES '' @ show_nat (unat MAX_MANIFEST_ENTRIES)))
        else
          and_then (get_u64 buf 8) (\<lambda>total_bytes.
          if total_bytes > MAX_MANIFEST_BYTES
          then Err (protocol_error.InvalidManifest (''total bytes '' @ show_nat (unat total_bytes)
                 @ '' exceeds MAX_MANIFEST_BYTES '' @ show_nat (unat MAX_MANIFEST_BYTES)))
          else
            and_then (get_u64 buf 16) (\<lambda>mn.
            and_then (get_u64 buf 24) (\<lambda>target.
            and_then (get_u64 buf 32) (\<lambda>mx.
            and_then (ok_or (chunk_params_new mn target mx)
                        (Malformed ''MANIFEST_BEGIN: invalid chunk params'')) (\<lambda>chunker_params.
            and_then (read_hash buf 40 ''MANIFEST_BEGIN: invalid hash'') (\<lambda>manifest_hash.
            Ok \<lparr>mb_file_count = file_count, mb_total_bytes = total_bytes,
                mb_chunker_params = chunker_params, mb_manifest_hash = manifest_hash\<rparr>))))))))"

definition wf_manifest_begin :: "manifest_begin \<Rightarrow> bool" where
  "wf_manifest_begin m \<longleftrightarrow> mb_file_count m \<le> MAX_MANIFEST_ENTRIES \<and> mb_total_bytes m \<le> MAX_MANIFEST_BYTES
     \<and> wf_params (mb_chunker_params m) \<and> wf_hash (mb_manifest_hash m)"

record manifest_batch =
  mba_batch_index :: u64
  mba_entry_count :: u32
  mba_compressed_payload :: bytes

definition manifest_batch_encode :: "manifest_batch \<Rightarrow> (protocol_error, bytes) res" where
  "manifest_batch_encode m =
     Ok (u64_to_le (mba_batch_index m) @ u32_to_le (mba_entry_count m) @ mba_compressed_payload m)"

definition manifest_batch_decode :: "bytes \<Rightarrow> (protocol_error, manifest_batch) res" where
  "manifest_batch_decode buf =
     (if length buf < 12 then Err (Malformed ''MANIFEST_BATCH: truncated'')
      else
        and_then (get_u64 buf 0) (\<lambda>batch_index.
        and_then (get_u32 buf 8) (\<lambda>entry_count.
        if unat entry_count > MANIFEST_BATCH_SIZE
        then Err (protocol_error.InvalidManifest (''batch entry count '' @ show_nat (unat entry_count)
               @ '' exceeds MANIFEST_BATCH_SIZE '' @ show_nat MANIFEST_BATCH_SIZE))
        else
          and_then (slice_from buf 12) (\<lambda>compressed_payload.
          Ok \<lparr>mba_batch_index = batch_index, mba_entry_count = entry_count,
              mba_compressed_payload = compressed_payload\<rparr>))))"

definition wf_manifest_batch :: "manifest_batch \<Rightarrow> bool" where
  "wf_manifest_batch m \<longleftrightarrow> unat (mba_entry_count m) \<le> MANIFEST_BATCH_SIZE"

record manifest_end =
  me_manifest_hash :: hash

definition manifest_end_encode :: "manifest_end \<Rightarrow> (protocol_error, bytes) res" where
  "manifest_end_encode m = Ok (hash_bytes (me_manifest_hash m))"

definition manifest_end_decode :: "bytes \<Rightarrow> (protocol_error, manifest_end) res" where
  "manifest_end_decode buf =
     (if length buf \<noteq> 32 then Err (Malformed ''MANIFEST_END: expected 32 bytes'')
      else
        and_then (ok_or (hash_from_bytes buf) (Malformed ''MANIFEST_END: invalid hash'')) (\<lambda>h.
        Ok \<lparr>me_manifest_hash = h\<rparr>))"

record inventory_hint =
  ih_transfer_id :: transfer_id
  ih_filter_bits :: u32
  ih_num_hashes :: u8
  ih_bitset :: bytes

definition inventory_hint_encode :: "inventory_hint \<Rightarrow> (protocol_error, bytes) res" where
  "inventory_hint_encode m =
     Ok (tid_bytes (ih_transfer_id m) @ u32_to_le (ih_filter_bits m) @ [ih_num_hashes m] @ ih_bitset m)"

definition inventory_hint_decode :: "bytes \<Rightarrow> (protocol_error, inventory_hint) res" where
  "inventory_hint_decode buf =
     (if length buf < 16 + 4 + 1 then Err (Malformed ''INVENTORY_HINT: truncated'')
      else
        and_then (read_tid buf 0 ''INVENTORY_HINT: bad transfer_id'') (\<lambda>transfer_id.
        and_then (get_u32 buf 16) (\<lambda>filter_bits.
        and_then (index buf 20) (\<lambda>num_hashes.
        and_then (slice_from buf 21) (\<lambda>bitset.
        Ok \<lparr>ih_transfer_id = transfer_id, ih_filter_bits = filter_bits,
            ih_num_hashes = num_hashes, ih_bitset = bitset\<rparr>)))))"

record chunk_query =
  cq_transfer_id :: transfer_id
  cq_query_seq :: u64
  cq_chunk_hashes :: "hash list"

definition chunk_query_encode :: "chunk_query \<Rightarrow> (protocol_error, bytes) res" where
  "chunk_query_encode m =
     and_then (varint_bytes (word_of_nat (length (cq_chunk_hashes m)))) (\<lambda>n.
     Ok (tid_bytes (cq_transfer_id m) @ u64_to_le (cq_query_seq m) @ n
         @ concat (map hash_bytes (cq_chunk_hashes m))))"

fun decode_hashes :: "bytes \<Rightarrow> nat \<Rightarrow> nat \<Rightarrow> (protocol_error, hash list) res" where
  "decode_hashes buf i 0 = Ok []"
| "decode_hashes buf i (Suc count) =
     and_then (read_hash buf i ''CHUNK_QUERY: invalid hash'') (\<lambda>h.
     and_then (decode_hashes buf (i + 32) count) (\<lambda>hs. Ok (h # hs)))"

definition chunk_query_decode :: "bytes \<Rightarrow> (protocol_error, chunk_query) res" where
  "chunk_query_decode buf =
     (if length buf < 16 + 8 then Err (Malformed ''CHUNK_QUERY: truncated'')
      else
        and_then (read_tid buf 0 ''CHUNK_QUERY: bad transfer_id'') (\<lambda>transfer_id.
        and_then (get_u64 buf 16) (\<lambda>query_seq.
        and_then (and_then (slice_from buf 24) decode_varint) (\<lambda>(count, consumed).
        let i = 24 + consumed in
        if count > MAX_MANIFEST_ENTRIES then Err (Malformed ''CHUNK_QUERY: too many hashes'')
        else
          and_then (ok_or (usize_checked_mul (unat count) 32) (Malformed ''CHUNK_QUERY: count overflow'')) (\<lambda>hashes_bytes.
          and_then (ok_or (usize_checked_add i hashes_bytes) (Malformed ''CHUNK_QUERY: length overflow'')) (\<lambda>hashes_end.
          if length buf < hashes_end then Err (Malformed ''CHUNK_QUERY: truncated hashes'')
          else
            and_then (decode_hashes buf i (unat count)) (\<lambda>chunk_hashes.
            Ok \<lparr>cq_transfer_id = transfer_id, cq_query_seq = query_seq,
                cq_chunk_hashes = chunk_hashes\<rparr>)))))))"

definition wf_chunk_query :: "chunk_query \<Rightarrow> bool" where
  "wf_chunk_query m \<longleftrightarrow> wf_tid (cq_transfer_id m) \<and> length (cq_chunk_hashes m) \<le> unat MAX_MANIFEST_ENTRIES
     \<and> list_all wf_hash (cq_chunk_hashes m)"

record chunk_response =
  cr_transfer_id :: transfer_id
  cr_query_seq :: u64
  cr_total_chunks :: u32
  cr_have_count :: u32
  cr_rle_bitmap :: bytes

definition chunk_response_encode :: "chunk_response \<Rightarrow> (protocol_error, bytes) res" where
  "chunk_response_encode m =
     Ok (tid_bytes (cr_transfer_id m) @ u64_to_le (cr_query_seq m) @ u32_to_le (cr_total_chunks m)
         @ u32_to_le (cr_have_count m) @ cr_rle_bitmap m)"

definition chunk_response_decode :: "bytes \<Rightarrow> (protocol_error, chunk_response) res" where
  "chunk_response_decode buf =
     (if length buf < 16 + 8 + 4 + 4 then Err (Malformed ''CHUNK_RESPONSE: truncated'')
      else
        and_then (read_tid buf 0 ''CHUNK_RESPONSE: bad transfer_id'') (\<lambda>transfer_id.
        and_then (get_u64 buf 16) (\<lambda>query_seq.
        and_then (get_u32 buf 24) (\<lambda>total_chunks.
        and_then (get_u32 buf 28) (\<lambda>have_count.
        and_then (slice_from buf 32) (\<lambda>rle_bitmap.
        Ok \<lparr>cr_transfer_id = transfer_id, cr_query_seq = query_seq, cr_total_chunks = total_chunks,
            cr_have_count = have_count, cr_rle_bitmap = rle_bitmap\<rparr>))))))"

section \<open>Every payload is a codec\<close>

interpretation manifest_begin: strict_codec manifest_begin_encode manifest_begin_decode wf_manifest_begin
proof unfold_locales
  show "\<exists>b. manifest_begin_encode m = Ok b \<and> manifest_begin_decode b = Ok m" if "wf_manifest_begin m" for m
    using that by (simp add: wf_manifest_begin_def manifest_begin_encode_def manifest_begin_decode_def wf_hash_def not_less)
  show "manifest_begin_encode m \<noteq> Panic" for m
    by (simp add: manifest_begin_encode_def)
  show "manifest_begin_decode b \<noteq> Panic" for b
    unfolding manifest_begin_decode_def by (intro no_panic) auto
  show "wf_manifest_begin m" if "manifest_begin_decode b = Ok m" for b m
    using that
    by (auto simp: manifest_begin_decode_def wf_manifest_begin_def res_simps chunk_params_new_Some_iff not_less
        split: if_splits)
qed

interpretation manifest_batch: strict_codec manifest_batch_encode manifest_batch_decode wf_manifest_batch
  by unfold_locales
    (auto simp: manifest_batch_encode_def manifest_batch_decode_def wf_manifest_batch_def not_less split: if_splits)

interpretation manifest_end:
  strict_codec manifest_end_encode manifest_end_decode "\<lambda>m. wf_hash (me_manifest_hash m)"
  by unfold_locales
    (auto simp: manifest_end_encode_def manifest_end_decode_def wf_hash_def split: if_splits)

interpretation inventory_hint:
  strict_codec inventory_hint_encode inventory_hint_decode "\<lambda>m. wf_tid (ih_transfer_id m)"
  by unfold_locales
    (auto simp: inventory_hint_encode_def inventory_hint_decode_def wf_tid_def nth_append split: if_splits)

interpretation chunk_response:
  strict_codec chunk_response_encode chunk_response_decode "\<lambda>m. wf_tid (cr_transfer_id m)"
  by unfold_locales
    (auto simp: chunk_response_encode_def chunk_response_decode_def wf_tid_def split: if_splits)

lemma decode_hashes_concat:
  assumes "drop i buf = concat (map hash_bytes hs) @ rest" and "list_all wf_hash hs"
  shows "decode_hashes buf i (length hs) = Ok hs"
  using assms
proof (induction hs arbitrary: i)
  case (Cons h hs)
  have d: "drop i buf = hash_bytes h @ concat (map hash_bytes hs) @ rest" using Cons.prems(1) by simp
  have h: "length (hash_bytes h) = 32" using Cons.prems(2) by (simp add: wf_hash_def)
  have "i + 32 \<le> length buf" using arg_cong [OF d, of length] h by simp
  moreover have "decode_hashes buf (i + 32) (length hs) = Ok hs"
    using drop_after [OF d] h Cons.prems(2) by (intro Cons.IH) simp_all
  ultimately show ?case using d h by simp
qed simp

lemma decode_hashes_no_panic:
  "i + 32 * count \<le> length buf \<Longrightarrow> decode_hashes buf i count \<noteq> Panic"
  by (induction count arbitrary: i) (auto simp: res_simps)

lemma decode_hashes_OkD: "decode_hashes buf i count = Ok hs \<Longrightarrow> length hs = count \<and> list_all wf_hash hs"
  by (induction count arbitrary: i hs) (auto simp: res_simps)

lemma length_concat_hashes: "list_all wf_hash hs \<Longrightarrow> length (concat (map hash_bytes hs)) = 32 * length hs"
  by (induction hs) (simp_all add: wf_hash_def)

interpretation chunk_query: strict_codec chunk_query_encode chunk_query_decode wf_chunk_query
proof unfold_locales
  show "\<exists>b. chunk_query_encode m = Ok b \<and> chunk_query_decode b = Ok m" if "wf_chunk_query m" for m
  proof -
    define hs where "hs = cq_chunk_hashes m"
    define n :: u64 where "n = word_of_nat (length hs)"
    define buf where "buf = tid_bytes (cq_transfer_id m) @ u64_to_le (cq_query_seq m) @ leb128 n @ concat (map hash_bytes hs)"
    have wf: "length (tid_bytes (cq_transfer_id m)) = 16" "length hs \<le> 50000000" "list_all wf_hash hs"
      using that by (simp_all add: wf_chunk_query_def wf_tid_def hs_def)
    have un: "unat n = length hs" using wf by (simp add: n_def)
    then have nl: "\<not> n > MAX_MANIFEST_ENTRIES" using wf by (simp add: word_less_nat_alt)
    have d: "drop 24 buf = leb128 n @ concat (map hash_bytes hs)" using wf by (simp add: buf_def)
    have lb: "length buf = 24 + varint_len n + 32 * length hs"
      using wf length_concat_hashes [OF wf(3)] by (simp add: buf_def)
    have "decode_hashes buf (24 + varint_len n) (length hs) = Ok hs"
      using drop_after [OF d] wf by (intro decode_hashes_concat [where rest = "[]"]) simp_all
    moreover have "read_tid buf 0 e = Ok (cq_transfer_id m)" "get_u64 buf 16 = Ok (cq_query_seq m)" for e
      using wf lb by (simp_all add: buf_def)
    ultimately have "chunk_query_decode buf = Ok m"
      unfolding chunk_query_decode_def Let_def using wf un nl lb d varint_len_bounds(2) [of n]
      by (simp add: usize_checked_mul_def) (simp add: hs_def)
    then show ?thesis
      by (simp add: chunk_query_encode_def buf_def hs_def n_def)
  qed
  show "chunk_query_encode m \<noteq> Panic" for m
    by (simp add: chunk_query_encode_def)
  show "chunk_query_decode b \<noteq> Panic" for b
    unfolding chunk_query_decode_def
    by (intro no_panic decode_hashes_no_panic) (auto simp: res_simps)
  show "wf_chunk_query m" if "chunk_query_decode b = Ok m" for b m
    using that unfolding chunk_query_decode_def Let_def
    by (auto simp: res_simps wf_chunk_query_def word_less_nat_alt not_less
        dest!: decode_hashes_OkD split: if_splits prod.splits)
qed

end
