(* ===== verification/Message.thy ===== *)
theory Message
  imports Msg_Session Msg_Resume Msg_Manifest
begin

text \<open>
  The enum \<open>Message\<close> of \<open>protocol/message.rs\<close> and its dispatch: the type byte of a message,
  \<open>Message::encode\<close> and \<open>Message::decode\<close>. \<open>PONG\<close> has the type byte of \<open>PING\<close>, so it is
  decoded as a \<open>PING\<close>. The lemmas lift the codec laws of the payloads: round trip, no
  panic, and that a decoded message has the type it was tagged with.
\<close>

section \<open>Type bytes\<close>

definition HELLO :: u8 where [simp]: "HELLO = 0x01"
definition HELLO_ACK :: u8 where [simp]: "HELLO_ACK = 0x02"
definition AUTH :: u8 where [simp]: "AUTH = 0x03"
definition AUTH_OK :: u8 where [simp]: "AUTH_OK = 0x04"
definition PING :: u8 where [simp]: "PING = 0x06"
definition SESSION_INIT :: u8 where [simp]: "SESSION_INIT = 0x05"
definition BYE :: u8 where [simp]: "BYE = 0x07"
definition ERROR :: u8 where [simp]: "ERROR = 0x7F"
definition TRANSFER_CREATE :: u8 where [simp]: "TRANSFER_CREATE = 0x10"
definition TRANSFER_CREATED :: u8 where [simp]: "TRANSFER_CREATED = 0x11"
definition TRANSFER_PLAN :: u8 where [simp]: "TRANSFER_PLAN = 0x12"
definition TRANSFER_BEGIN :: u8 where [simp]: "TRANSFER_BEGIN = 0x13"
definition VERIFY :: u8 where [simp]: "VERIFY = 0x15"
definition VERIFY_RESULT :: u8 where [simp]: "VERIFY_RESULT = 0x16"
definition COMMIT :: u8 where [simp]: "COMMIT = 0x17"
definition COMMITTED :: u8 where [simp]: "COMMITTED = 0x18"
definition CHECKPOINT :: u8 where [simp]: "CHECKPOINT = 0x14"
definition RESUME :: u8 where [simp]: "RESUME = 0x19"
definition RESUME_STATE :: u8 where [simp]: "RESUME_STATE = 0x1A"
definition CANCEL :: u8 where [simp]: "CANCEL = 0x1B"
definition STAT :: u8 where [simp]: "STAT = 0x1C"
definition STAT_RESULT :: u8 where [simp]: "STAT_RESULT = 0x1D"
definition LIST :: u8 where [simp]: "LIST = 0x1E"
definition LIST_RESULT :: u8 where [simp]: "LIST_RESULT = 0x1F"
definition MANIFEST_BEGIN :: u8 where [simp]: "MANIFEST_BEGIN = 0x30"
definition MANIFEST_BATCH :: u8 where [simp]: "MANIFEST_BATCH = 0x31"
definition MANIFEST_END :: u8 where [simp]: "MANIFEST_END = 0x32"
definition INVENTORY_HINT :: u8 where [simp]: "INVENTORY_HINT = 0x33"
definition CHUNK_QUERY :: u8 where [simp]: "CHUNK_QUERY = 0x34"
definition CHUNK_RESPONSE :: u8 where [simp]: "CHUNK_RESPONSE = 0x35"

section \<open>The dispatch\<close>

datatype message =
    Hello hello
  | HelloAck hello_ack
  | Auth auth
  | AuthOk auth_ok
  | Ping ping
  | Pong ping
  | SessionInit session_options
  | Bye bye
  | Error error_msg
  | TransferCreate transfer_create
  | TransferCreated transfer_created
  | TransferPlan transfer_plan
  | TransferBegin transfer_begin
  | Verify verify
  | VerifyResult verify_result
  | Commit commit
  | Committed committed
  | Checkpoint checkpoint
  | Resume resume
  | ResumeState resume_state
  | Cancel cancel
  | Stat stat_query
  | StatResult stat_result
  | List list_query
  | ListResult list_result
  | ManifestBegin manifest_begin
  | ManifestBatch manifest_batch
  | ManifestEnd manifest_end
  | InventoryHint inventory_hint
  | ChunkQuery chunk_query
  | ChunkResponse chunk_response

fun type_byte :: "message \<Rightarrow> u8" where
  "type_byte (Hello m) = HELLO"
| "type_byte (HelloAck m) = HELLO_ACK"
| "type_byte (Auth m) = AUTH"
| "type_byte (AuthOk m) = AUTH_OK"
| "type_byte (Ping m) = PING"
| "type_byte (Pong m) = PING"
| "type_byte (SessionInit m) = SESSION_INIT"
| "type_byte (Bye m) = BYE"
| "type_byte (Error m) = ERROR"
| "type_byte (TransferCreate m) = TRANSFER_CREATE"
| "type_byte (TransferCreated m) = TRANSFER_CREATED"
| "type_byte (TransferPlan m) = TRANSFER_PLAN"
| "type_byte (TransferBegin m) = TRANSFER_BEGIN"
| "type_byte (Verify m) = VERIFY"
| "type_byte (VerifyResult m) = VERIFY_RESULT"
| "type_byte (Commit m) = COMMIT"
| "type_byte (Committed m) = COMMITTED"
| "type_byte (Checkpoint m) = CHECKPOINT"
| "type_byte (Resume m) = RESUME"
| "type_byte (ResumeState m) = RESUME_STATE"
| "type_byte (Cancel m) = CANCEL"
| "type_byte (Stat m) = STAT"
| "type_byte (StatResult m) = STAT_RESULT"
| "type_byte (List m) = LIST"
| "type_byte (ListResult m) = LIST_RESULT"
| "type_byte (ManifestBegin m) = MANIFEST_BEGIN"
| "type_byte (ManifestBatch m) = MANIFEST_BATCH"
| "type_byte (ManifestEnd m) = MANIFEST_END"
| "type_byte (InventoryHint m) = INVENTORY_HINT"
| "type_byte (ChunkQuery m) = CHUNK_QUERY"
| "type_byte (ChunkResponse m) = CHUNK_RESPONSE"

text \<open>\<open>Ok((TYPE, m.encode()?))\<close>.\<close>

definition tagged :: "u8 \<Rightarrow> (protocol_error, bytes) res \<Rightarrow> (protocol_error, u8 \<times> bytes) res" where
  "tagged t r = and_then r (\<lambda>b. Ok (t, b))"

fun message_encode :: "message \<Rightarrow> (protocol_error, u8 \<times> bytes) res" where
  "message_encode (Hello m) = tagged HELLO (hello_encode m)"
| "message_encode (HelloAck m) = tagged HELLO_ACK (hello_ack_encode m)"
| "message_encode (Auth m) = tagged AUTH (auth_encode m)"
| "message_encode (AuthOk m) = tagged AUTH_OK (auth_ok_encode m)"
| "message_encode (Ping m) = tagged PING (ping_encode m)"
| "message_encode (Pong m) = tagged PING (ping_encode m)"
| "message_encode (SessionInit m) = tagged SESSION_INIT (session_options_encode m)"
| "message_encode (Bye m) = tagged BYE (bye_encode m)"
| "message_encode (Error m) = tagged ERROR (error_msg_encode m)"
| "message_encode (TransferCreate m) = tagged TRANSFER_CREATE (transfer_create_encode m)"
| "message_encode (TransferCreated m) = tagged TRANSFER_CREATED (transfer_created_encode m)"
| "message_encode (TransferPlan m) = tagged TRANSFER_PLAN (transfer_plan_encode m)"
| "message_encode (TransferBegin m) = tagged TRANSFER_BEGIN (transfer_begin_encode m)"
| "message_encode (Verify m) = tagged VERIFY (verify_encode m)"
| "message_encode (VerifyResult m) = tagged VERIFY_RESULT (verify_result_encode m)"
| "message_encode (Commit m) = tagged COMMIT (commit_encode m)"
| "message_encode (Committed m) = tagged COMMITTED (committed_encode m)"
| "message_encode (Checkpoint m) = tagged CHECKPOINT (checkpoint_encode m)"
| "message_encode (Resume m) = tagged RESUME (resume_encode m)"
| "message_encode (ResumeState m) = tagged RESUME_STATE (resume_state_encode m)"
| "message_encode (Cancel m) = tagged CANCEL (cancel_encode m)"
| "message_encode (Stat m) = tagged STAT (stat_query_encode m)"
| "message_encode (StatResult m) = tagged STAT_RESULT (stat_result_encode m)"
| "message_encode (List m) = tagged LIST (list_query_encode m)"
| "message_encode (ListResult m) = tagged LIST_RESULT (list_result_encode m)"
| "message_encode (ManifestBegin m) = tagged MANIFEST_BEGIN (manifest_begin_encode m)"
| "message_encode (ManifestBatch m) = tagged MANIFEST_BATCH (manifest_batch_encode m)"
| "message_encode (ManifestEnd m) = tagged MANIFEST_END (manifest_end_encode m)"
| "message_encode (InventoryHint m) = tagged INVENTORY_HINT (inventory_hint_encode m)"
| "message_encode (ChunkQuery m) = tagged CHUNK_QUERY (chunk_query_encode m)"
| "message_encode (ChunkResponse m) = tagged CHUNK_RESPONSE (chunk_response_encode m)"

text \<open>\<open>Ok(Message::X(X::decode(payload)?))\<close>.\<close>

definition as_msg :: "('m \<Rightarrow> message) \<Rightarrow> (protocol_error, 'm) res \<Rightarrow> (protocol_error, message) res" where
  "as_msg con r = and_then r (\<lambda>m. Ok (con m))"

definition message_decode :: "u8 \<Rightarrow> bytes \<Rightarrow> (protocol_error, message) res" where
  "message_decode t payload =
     (if t = HELLO then as_msg Hello (hello_decode payload)
      else if t = HELLO_ACK then as_msg HelloAck (hello_ack_decode payload)
      else if t = AUTH then as_msg Auth (auth_decode payload)
      else if t = AUTH_OK then as_msg AuthOk (auth_ok_decode payload)
      else if t = PING then as_msg Ping (ping_decode payload)
      else if t = SESSION_INIT then as_msg SessionInit (session_options_decode payload)
      else if t = BYE then as_msg Bye (bye_decode payload)
      else if t = ERROR then as_msg Error (error_msg_decode payload)
      else if t = TRANSFER_CREATE then as_msg TransferCreate (transfer_create_decode payload)
      else if t = TRANSFER_CREATED then as_msg TransferCreated (transfer_created_decode payload)
      else if t = TRANSFER_PLAN then as_msg TransferPlan (transfer_plan_decode payload)
      else if t = TRANSFER_BEGIN then as_msg TransferBegin (transfer_begin_decode payload)
      else if t = VERIFY then as_msg Verify (verify_decode payload)
      else if t = VERIFY_RESULT then as_msg VerifyResult (verify_result_decode payload)
      else if t = COMMIT then as_msg Commit (commit_decode payload)
      else if t = COMMITTED then as_msg Committed (committed_decode payload)
      else if t = CHECKPOINT then as_msg Checkpoint (checkpoint_decode payload)
      else if t = RESUME then as_msg Resume (resume_decode payload)
      else if t = RESUME_STATE then as_msg ResumeState (resume_state_decode payload)
      else if t = CANCEL then as_msg Cancel (cancel_decode payload)
      else if t = STAT then as_msg Stat (stat_query_decode payload)
      else if t = STAT_RESULT then as_msg StatResult (stat_result_decode payload)
      else if t = LIST then as_msg List (list_query_decode payload)
      else if t = LIST_RESULT then as_msg ListResult (list_result_decode payload)
      else if t = MANIFEST_BEGIN then as_msg ManifestBegin (manifest_begin_decode payload)
      else if t = MANIFEST_BATCH then as_msg ManifestBatch (manifest_batch_decode payload)
      else if t = MANIFEST_END then as_msg ManifestEnd (manifest_end_decode payload)
      else if t = INVENTORY_HINT then as_msg InventoryHint (inventory_hint_decode payload)
      else if t = CHUNK_QUERY then as_msg ChunkQuery (chunk_query_decode payload)
      else if t = CHUNK_RESPONSE then as_msg ChunkResponse (chunk_response_decode payload)
      else Err (protocol_error.UnsupportedMessage t))"

text \<open>Messages that every well-behaved sender builds.\<close>

fun wf_message :: "message \<Rightarrow> bool" where
  "wf_message (Hello m) = wf_hello m"
| "wf_message (HelloAck m) = wf_hello_ack m"
| "wf_message (Auth m) = wf_auth m"
| "wf_message (AuthOk m) = wf_auth_ok m"
| "wf_message (Ping m) = True"
| "wf_message (Pong m) = True"
| "wf_message (SessionInit m) = True"
| "wf_message (Bye m) = True"
| "wf_message (Error m) = wf_error_msg m"
| "wf_message (TransferCreate m) = wf_transfer_create m"
| "wf_message (TransferCreated m) = (wf_tid (tcd_transfer_id m))"
| "wf_message (TransferPlan m) = (wf_tid (tp_transfer_id m))"
| "wf_message (TransferBegin m) = wf_transfer_begin m"
| "wf_message (Verify m) = (wf_tid (vf_transfer_id m) \<and> wf_hash (vf_expected_hash m))"
| "wf_message (VerifyResult m) = (wf_tid (vr_transfer_id m) \<and> wf_hash (vr_computed_hash m))"
| "wf_message (Commit m) = (wf_tid (cm_transfer_id m))"
| "wf_message (Committed m) = (wf_tid (cd_transfer_id m))"
| "wf_message (Checkpoint m) = wf_checkpoint m"
| "wf_message (Resume m) = wf_resume m"
| "wf_message (ResumeState m) = wf_resume_state m"
| "wf_message (Cancel m) = (wf_tid (cn_transfer_id m))"
| "wf_message (Stat m) = (wf_tid (sq_transfer_id m))"
| "wf_message (StatResult m) = wf_stat_result m"
| "wf_message (List m) = wf_list_query m"
| "wf_message (ListResult m) = wf_list_result m"
| "wf_message (ManifestBegin m) = wf_manifest_begin m"
| "wf_message (ManifestBatch m) = wf_manifest_batch m"
| "wf_message (ManifestEnd m) = (wf_hash (me_manifest_hash m))"
| "wf_message (InventoryHint m) = (wf_tid (ih_transfer_id m))"
| "wf_message (ChunkQuery m) = wf_chunk_query m"
| "wf_message (ChunkResponse m) = (wf_tid (cr_transfer_id m))"

text \<open>What the receiver of a message sees: \<open>PONG\<close> and \<open>PING\<close> are the same on the wire.\<close>

fun on_the_wire :: "message \<Rightarrow> message" where
  "on_the_wire (Pong m) = Ping m"
| "on_the_wire m = m"

section \<open>Laws\<close>

lemmas codec_roundtrips =
  hello.enc_wf hello_ack.enc_wf auth.enc_wf auth_ok.enc_wf
  ping.enc_wf session_options.enc_wf bye.enc_wf error_msg.enc_wf
  transfer_create.enc_wf transfer_created.enc_wf transfer_plan.enc_wf transfer_begin.enc_wf
  verify.enc_wf verify_result.enc_wf commit.enc_wf committed.enc_wf
  checkpoint.enc_wf resume.enc_wf resume_state.enc_wf cancel.enc_wf
  stat_query.enc_wf stat_result.enc_wf list_query.enc_wf list_result.enc_wf
  manifest_begin.enc_wf manifest_batch.enc_wf manifest_end.enc_wf inventory_hint.enc_wf
  chunk_query.enc_wf chunk_response.enc_wf

lemmas codec_enc_totals =
  hello.enc_total hello_ack.enc_total auth.enc_total auth_ok.enc_total
  ping.enc_total session_options.enc_total bye.enc_total error_msg.enc_total
  transfer_create.enc_total transfer_created.enc_total transfer_plan.enc_total transfer_begin.enc_total
  verify.enc_total verify_result.enc_total commit.enc_total committed.enc_total
  checkpoint.enc_total resume.enc_total resume_state.enc_total cancel.enc_total
  stat_query.enc_total stat_result.enc_total list_query.enc_total list_result.enc_total
  manifest_begin.enc_total manifest_batch.enc_total manifest_end.enc_total inventory_hint.enc_total
  chunk_query.enc_total chunk_response.enc_total

lemmas codec_dec_totals =
  hello.dec_total hello_ack.dec_total auth.dec_total auth_ok.dec_total
  ping.dec_total session_options.dec_total bye.dec_total error_msg.dec_total
  transfer_create.dec_total transfer_created.dec_total transfer_plan.dec_total transfer_begin.dec_total
  verify.dec_total verify_result.dec_total commit.dec_total committed.dec_total
  checkpoint.dec_total resume.dec_total resume_state.dec_total cancel.dec_total
  stat_query.dec_total stat_result.dec_total list_query.dec_total list_result.dec_total
  manifest_begin.dec_total manifest_batch.dec_total manifest_end.dec_total inventory_hint.dec_total
  chunk_query.dec_total chunk_response.dec_total

lemma tagged_eq_Ok [res_simps]: "tagged t r = Ok x \<longleftrightarrow> (\<exists>b. r = Ok b \<and> x = (t, b))"
  by (auto simp: tagged_def res_simps)

lemma tagged_no_panic [no_panic]: "r \<noteq> Panic \<Longrightarrow> tagged t r \<noteq> Panic"
  by (auto simp: tagged_def res_simps)

lemma as_msg_eq_Ok [res_simps]: "as_msg con r = Ok x \<longleftrightarrow> (\<exists>m. r = Ok m \<and> x = con m)"
  by (auto simp: as_msg_def res_simps)

lemma as_msg_no_panic [no_panic]: "r \<noteq> Panic \<Longrightarrow> as_msg con r \<noteq> Panic"
  by (auto simp: as_msg_def res_simps)

lemma message_roundtrip:
  "wf_message m \<Longrightarrow>
     \<exists>p. message_encode m = Ok (type_byte m, p) \<and> message_decode (type_byte m) p = Ok (on_the_wire m)"
  by (cases m) (auto simp: message_decode_def tagged_def as_msg_def ping_encode_def ping_decode_def
      session_options_encode_def session_options_decode_def bye_encode_def bye_decode_def
      dest!: codec_roundtrips)

lemma message_encode_no_panic [no_panic]: "message_encode m \<noteq> Panic"
  by (cases m) (simp_all add: tagged_no_panic codec_enc_totals)

lemma message_decode_no_panic [no_panic]: "message_decode t payload \<noteq> Panic"
  unfolding message_decode_def by (intro no_panic codec_dec_totals)

lemma message_encode_type: "message_encode m = Ok (t, p) \<Longrightarrow> t = type_byte m"
  by (cases m) (simp_all add: res_simps)

lemma message_decode_type: "message_decode t payload = Ok m \<Longrightarrow> type_byte m = t"
  unfolding message_decode_def by (auto simp: res_simps split: if_splits)

end
