(* ===== verification/Frame.thy ===== *)
theory Frame
  imports Varint Ids
begin

text \<open>
  The frame layer, \<open>protocol/frame.rs\<close>: control frames (version, type, flags, varint length,
  request id, payload), the preamble of a data stream and the header of a data frame. The
  encoders write into a caller's buffer as the source does, and panic where the buffer is
  too small. Debug assertions, which a release build drops, are not part of the model.

  The lemmas show that each encoder writes the reference bytes, that decoding returns what
  was encoded whatever follows, that no decoder panics on any bytes, and that a declared
  length above the limit is refused from the header alone.
\<close>

unbundle bit_operations_syntax

section \<open>Control frames\<close>

definition FRAME_HEADER_LEN :: nat where [simp]: "FRAME_HEADER_LEN = 4"

datatype frame_flags = FrameFlags (frame_flags_bits: u16)

definition frame_flags_NONE :: frame_flags where "frame_flags_NONE = FrameFlags 0"
definition frame_flags_END_OF_SEQUENCE :: frame_flags where "frame_flags_END_OF_SEQUENCE = FrameFlags 1"
definition frame_flags_COMPRESSED :: frame_flags where "frame_flags_COMPRESSED = FrameFlags 2"

definition frame_flags_from_bits_truncate :: "u16 \<Rightarrow> frame_flags" where
  "frame_flags_from_bits_truncate b = FrameFlags (b AND 0xFFFF)"

definition end_of_sequence :: "frame_flags \<Rightarrow> bool" where
  "end_of_sequence f \<longleftrightarrow> frame_flags_bits f AND 1 \<noteq> 0"

definition frame_compressed :: "frame_flags \<Rightarrow> bool" where
  "frame_compressed f \<longleftrightarrow> frame_flags_bits f AND 2 \<noteq> 0"

definition frame_flags_bitor :: "frame_flags \<Rightarrow> frame_flags \<Rightarrow> frame_flags" where
  "frame_flags_bitor a b = FrameFlags (frame_flags_bits a OR frame_flags_bits b)"

record frame =
  frame_version :: u8
  frame_type_byte :: u8
  frame_flags :: frame_flags
  frame_length :: u64
  frame_request_id :: u64
  frame_payload :: bytes

definition header_size_for :: "u64 \<Rightarrow> nat" where
  "header_size_for len = 4 + varint_len len + 8"

definition max_message_size :: u64 where
  "max_message_size = MAX_MESSAGE_SIZE"

definition decode_frame :: "bytes \<Rightarrow> (protocol_error, frame) res" where
  "decode_frame buf =
     (if length buf < 4 then Err Empty
      else
        and_then (index buf 0) (\<lambda>version.
        and_then (index buf 1) (\<lambda>type_byte.
        and_then (get_u16 buf 2) (\<lambda>flags_raw.
        let flags = frame_flags_from_bits_truncate flags_raw in
        and_then (and_then (slice_from buf 4) decode_varint) (\<lambda>(len, varint_consumed).
        let header_len = 4 + varint_consumed + 8 in
        if length buf < header_len then Err Empty
        else if len > max_message_size then Err (FrameTooLarge len max_message_size)
        else
          let payload_len = unat len in
          and_then (ok_or (usize_checked_add header_len payload_len)
                      (FrameTooLarge len max_message_size)) (\<lambda>total_needed.
          if length buf < total_needed then Err Empty
          else
            and_then (get_u64 buf (4 + varint_consumed)) (\<lambda>request_id.
            and_then (slice buf header_len total_needed) (\<lambda>payload.
            if version \<noteq> PROTOCOL_VERSION then Err (VersionMismatch version PROTOCOL_VERSION)
            else Ok \<lparr>frame_version = version, frame_type_byte = type_byte, frame_flags = flags,
                     frame_length = len, frame_request_id = request_id,
                     frame_payload = payload\<rparr>))))))))"

definition encode_frame ::
  "bytes \<Rightarrow> u8 \<Rightarrow> frame_flags \<Rightarrow> u64 \<Rightarrow> bytes \<Rightarrow> ('e, bytes \<times> nat) res" where
  "encode_frame out type_byte flags request_id payload =
     (let len = (word_of_nat (length payload) :: u64);
          total = header_size_for len + length payload;
          fb = u16_to_le (frame_flags_bits flags);
          varint_len_bytes = varint_len len;
          rid_off = 4 + varint_len_bytes;
          payload_off = rid_off + 8
      in
        and_then (copy_at out 0 [PROTOCOL_VERSION]) (\<lambda>out.
        and_then (copy_at out 1 [type_byte]) (\<lambda>out.
        and_then (copy_at out 2 [fb ! 0]) (\<lambda>out.
        and_then (copy_at out 3 [fb ! 1]) (\<lambda>out.
        and_then (slice out 4 (4 + varint_len_bytes)) (\<lambda>window.
        and_then (encode_varint len window) (\<lambda>(window, _).
        and_then (copy_at out 4 window) (\<lambda>out.
        and_then (copy_at out rid_off (u64_to_le request_id)) (\<lambda>out.
        and_then (copy_at out payload_off payload) (\<lambda>out.
        Ok (out, total)))))))))))"

text \<open>The bytes of a frame as the layout diagram of the source gives them.\<close>

definition frame_header :: "u8 \<Rightarrow> frame_flags \<Rightarrow> u64 \<Rightarrow> u64 \<Rightarrow> bytes" where
  "frame_header type_byte flags request_id len =
     [PROTOCOL_VERSION, type_byte] @ u16_to_le (frame_flags_bits flags) @ leb128 len @ u64_to_le request_id"

definition frame_bytes :: "u8 \<Rightarrow> frame_flags \<Rightarrow> u64 \<Rightarrow> bytes \<Rightarrow> bytes" where
  "frame_bytes type_byte flags request_id payload =
     frame_header type_byte flags request_id (word_of_nat (length payload)) @ payload"

section \<open>Data streams\<close>

definition DATA_PREAMBLE_LEN :: nat where [simp]: "DATA_PREAMBLE_LEN = 56"
definition DATA_FRAME_HEADER_LEN :: nat where [simp]: "DATA_FRAME_HEADER_LEN = 48"
definition DATA_MAX_CHUNK_LEN :: u32 where [simp]: "DATA_MAX_CHUNK_LEN = 4194304"

record data_preamble =
  preamble_transfer_id :: transfer_id
  preamble_file_id :: u64
  preamble_stream_seq :: u64

definition encode_data_preamble :: "data_preamble \<Rightarrow> ('e, bytes) res" where
  "encode_data_preamble p =
     and_then (copy_at (replicate DATA_PREAMBLE_LEN 0) 0 (tid_bytes (preamble_transfer_id p))) (\<lambda>out.
     and_then (copy_at out 16 (u64_to_le (preamble_file_id p))) (\<lambda>out.
     copy_at out 24 (u64_to_le (preamble_stream_seq p))))"

definition decode_data_preamble :: "bytes \<Rightarrow> (protocol_error, data_preamble) res" where
  "decode_data_preamble buf =
     (if length buf < DATA_PREAMBLE_LEN then Err (Malformed ''data preamble: truncated'')
      else
        and_then (slice buf 0 16) (\<lambda>t.
        and_then (ok_or (tid_from_bytes t) (Malformed ''data preamble: bad transfer_id'')) (\<lambda>transfer_id.
        and_then (get_u64 buf 16) (\<lambda>file_id.
        and_then (get_u64 buf 24) (\<lambda>stream_seq.
        Ok \<lparr>preamble_transfer_id = transfer_id, preamble_file_id = file_id,
            preamble_stream_seq = stream_seq\<rparr>)))))"

datatype data_frame_flags = DataFrameFlags (data_flags_bits: u16)

definition data_flags_NONE :: data_frame_flags where "data_flags_NONE = DataFrameFlags 0"
definition data_flags_HOLE :: data_frame_flags where "data_flags_HOLE = DataFrameFlags 1"
definition data_flags_COMPRESSED :: data_frame_flags where "data_flags_COMPRESSED = DataFrameFlags 2"
definition data_flags_ENCRYPTED :: data_frame_flags where "data_flags_ENCRYPTED = DataFrameFlags 4"

definition data_flags_from_bits_truncate :: "u16 \<Rightarrow> data_frame_flags" where
  "data_flags_from_bits_truncate b = DataFrameFlags (b AND 0xFFFF)"

definition data_compressed :: "data_frame_flags \<Rightarrow> bool" where
  "data_compressed f \<longleftrightarrow> data_flags_bits f AND 2 \<noteq> 0"

definition data_encrypted :: "data_frame_flags \<Rightarrow> bool" where
  "data_encrypted f \<longleftrightarrow> data_flags_bits f AND 4 \<noteq> 0"

definition data_is_hole :: "data_frame_flags \<Rightarrow> bool" where
  "data_is_hole f \<longleftrightarrow> data_flags_bits f AND 1 \<noteq> 0"

record data_frame_header =
  dfh_chunk_offset :: u64
  dfh_chunk_len :: u32
  dfh_flags :: data_frame_flags
  dfh_chunk_hash :: hash

definition encode_data_frame_header ::
  "bytes \<Rightarrow> u64 \<Rightarrow> u32 \<Rightarrow> data_frame_flags \<Rightarrow> hash \<Rightarrow> ('e, bytes) res" where
  "encode_data_frame_header out chunk_offset chunk_len flags chunk_hash =
     and_then (copy_at out 0 (u64_to_le chunk_offset)) (\<lambda>out.
     and_then (copy_at out 8 (u32_to_le chunk_len)) (\<lambda>out.
     and_then (copy_at out 12 (u16_to_le (data_flags_bits flags))) (\<lambda>out.
     and_then (copy_at out 14 [0, 0]) (\<lambda>out.
     copy_at out 16 (hash_bytes chunk_hash)))))"

definition decode_data_frame_header :: "bytes \<Rightarrow> (protocol_error, data_frame_header \<times> bytes) res" where
  "decode_data_frame_header buf =
     (if length buf < DATA_FRAME_HEADER_LEN then Err (Malformed ''data frame: truncated header'')
      else
        and_then (get_u64 buf 0) (\<lambda>chunk_offset.
        and_then (get_u32 buf 8) (\<lambda>chunk_len.
        if chunk_len > DATA_MAX_CHUNK_LEN then Err (Malformed ''data frame: chunk_len > max'')
        else
        and_then (get_u16 buf 12) (\<lambda>fl.
        let flags = data_flags_from_bits_truncate fl in
        and_then (get_u16 buf 14) (\<lambda>reserved.
        if reserved \<noteq> 0 then Err (Malformed ''data frame: reserved bits set'')
        else
        and_then (slice buf 16 48) (\<lambda>h.
        and_then (ok_or (hash_from_bytes h) (Malformed ''data frame: bad chunk hash'')) (\<lambda>chunk_hash.
        and_then (slice_from buf DATA_FRAME_HEADER_LEN) (\<lambda>payload.
        Ok (\<lparr>dfh_chunk_offset = chunk_offset, dfh_chunk_len = chunk_len, dfh_flags = flags,
             dfh_chunk_hash = chunk_hash\<rparr>, payload)))))))))"

definition encode_data_frame ::
  "u64 \<Rightarrow> u32 \<Rightarrow> data_frame_flags \<Rightarrow> hash \<Rightarrow> bytes \<Rightarrow> ('e, bytes) res" where
  "encode_data_frame chunk_offset chunk_len flags chunk_hash payload =
     (let out = replicate DATA_FRAME_HEADER_LEN 0 in
      if data_is_hole flags
      then encode_data_frame_header out chunk_offset chunk_len flags chunk_hash
      else
        and_then (encode_data_frame_header out chunk_offset chunk_len flags chunk_hash) (\<lambda>out.
        Ok (out @ payload)))"

section \<open>Control frames: encoder\<close>

lemma u16_to_le_nths: "[u16_to_le w ! 0, u16_to_le w ! 1] = u16_to_le w"
  by (rule nth_equalityI) (auto simp: less_Suc_eq numeral_2_eq_2)

lemma length_frame_header: "length (frame_header t f r len) = header_size_for len"
  by (simp add: frame_header_def header_size_for_def length_leb128)

lemma encode_frame_eq:
  assumes "length (frame_bytes t f r payload) \<le> length out"
  shows "encode_frame out t f r payload =
           Ok (frame_bytes t f r payload @ drop (length (frame_bytes t f r payload)) out,
               length (frame_bytes t f r payload))"
proof -
  define len :: u64 where "len = word_of_nat (length payload)"
  define n where "n = varint_len len"
  define fb where "fb = u16_to_le (frame_flags_bits f)"
  have tot: "length (frame_bytes t f r payload) = 4 + n + 8 + length payload"
    by (simp add: frame_bytes_def length_frame_header len_def n_def header_size_for_def)
  then have room: "4 + n + 8 + length payload \<le> length out" using assms by simp
  have l: "length (leb128 len) = n" by (simp add: length_leb128 n_def)
  have fb: "[PROTOCOL_VERSION, t, fb ! 0, fb ! 1] = [PROTOCOL_VERSION, t] @ fb"
    using u16_to_le_nths [of "frame_flags_bits f"] by (simp add: fb_def)
  have w0: "copy_at out 0 [PROTOCOL_VERSION] = Ok ([PROTOCOL_VERSION] @ drop 1 out)"
    using room by simp
  have w1: "copy_at ([PROTOCOL_VERSION] @ drop 1 out) 1 [t] = Ok ([PROTOCOL_VERSION, t] @ drop 2 out)"
    using room copy_at_front [of 1 "[PROTOCOL_VERSION]" "[t]" out] by (simp add: numeral_2_eq_2)
  have w2: "copy_at ([PROTOCOL_VERSION, t] @ drop 2 out) 2 [fb ! 0] = Ok ([PROTOCOL_VERSION, t, fb ! 0] @ drop 3 out)"
    using room copy_at_front [of 2 "[PROTOCOL_VERSION, t]" "[fb ! 0]" out] by simp
  have w3: "copy_at ([PROTOCOL_VERSION, t, fb ! 0] @ drop 3 out) 3 [fb ! 1] =
      Ok ([PROTOCOL_VERSION, t, fb ! 0, fb ! 1] @ drop 4 out)"
    using room copy_at_front [of 3 "[PROTOCOL_VERSION, t, fb ! 0]" "[fb ! 1]" out] by simp
  define p4 where "p4 = [PROTOCOL_VERSION, t] @ fb"
  have l4: "length p4 = 4" by (simp add: p4_def fb_def)
  have s4: "slice (p4 @ drop 4 out) 4 (4 + n) = Ok (take n (drop 4 out))"
    using room l4 by simp
  have ev: "encode_varint len (take n (drop 4 out)) = Ok (leb128 len, n)"
    using room by (simp add: encode_varint_eq n_def [symmetric])
  have w4: "copy_at (p4 @ drop 4 out) 4 (leb128 len) = Ok ((p4 @ leb128 len) @ drop (4 + n) out)"
    using room l4 l copy_at_front [of 4 p4 "leb128 len" out] by simp
  have w5: "copy_at ((p4 @ leb128 len) @ drop (4 + n) out) (4 + n) (u64_to_le r) =
      Ok ((p4 @ leb128 len @ u64_to_le r) @ drop (4 + n + 8) out)"
    using room l4 l copy_at_front [of "4 + n" "p4 @ leb128 len" "u64_to_le r" out] by simp
  have w6: "copy_at ((p4 @ leb128 len @ u64_to_le r) @ drop (4 + n + 8) out) (4 + n + 8) payload =
      Ok ((p4 @ leb128 len @ u64_to_le r @ payload) @ drop (4 + n + 8 + length payload) out)"
    using room l4 l copy_at_front [of "4 + n + 8" "p4 @ leb128 len @ u64_to_le r" payload out] by simp
  show ?thesis
    unfolding encode_frame_def Let_def len_def [symmetric] n_def [symmetric] fb_def [symmetric] tot
    by (simp only: w0 w1 w2 w3 fb p4_def [symmetric] s4 ev w4 w5 w6 and_then.simps prod.case)
      (simp add: frame_bytes_def frame_header_def p4_def fb_def len_def header_size_for_def n_def)
qed

section \<open>Control frames: decoder\<close>

lemma and_ffff [simp]: "w AND 0xFFFF = (w :: u16)"
proof -
  have "(0xFFFF :: u16) = - 1" by simp
  then show ?thesis by (simp only: and.right_neutral)
qed

lemma frame_flags_truncate [simp]: "frame_flags_from_bits_truncate (frame_flags_bits f) = f"
  by (cases f) (simp add: frame_flags_from_bits_truncate_def)

text \<open>The fields in front of the varint, then the varint, then the request id.\<close>

lemma decode_frame_header:
  "decode_frame (frame_header t f r len @ rest) =
           (if len > max_message_size then Err (FrameTooLarge len max_message_size)
            else if length rest < unat len then Err Empty
            else Ok \<lparr>frame_version = PROTOCOL_VERSION, frame_type_byte = t, frame_flags = f,
                     frame_length = len, frame_request_id = r,
                     frame_payload = take (unat len) rest\<rparr>)"
proof -
  define buf where "buf = frame_header t f r len @ rest"
  define n where "n = varint_len len"
  have n: "1 \<le> n" "n \<le> 10" using varint_len_bounds [of len] by (simp_all add: n_def)
  have ll: "length (leb128 len) = n" by (simp add: length_leb128 n_def)
  have buf: "buf = PROTOCOL_VERSION # t # u16_to_le (frame_flags_bits f) @ leb128 len @ u64_to_le r @ rest"
    by (simp add: buf_def frame_header_def)
  have lb: "length buf = 12 + n + length rest" by (simp add: buf ll)
  have g: "index buf 0 = Ok PROTOCOL_VERSION" "index buf 1 = Ok t"
      "get_u16 buf 2 = Ok (frame_flags_bits f)"
    by (simp_all add: buf)
  have v: "and_then (slice_from buf 4) decode_varint = Ok (len, n)"
    by (simp add: buf n_def)
  have d4: "drop 4 buf = leb128 len @ u64_to_le r @ rest" by (simp add: buf)
  have d: "drop (4 + n) buf = u64_to_le r @ rest"
    unfolding add.commute [of 4 n] drop_drop [symmetric] d4 by (simp add: ll)
  have "drop (4 + n + 8) buf = drop 8 (drop (4 + n) buf)" by (simp add: add.commute)
  then have d': "drop (4 + n + 8) buf = rest" unfolding d by simp
  have rid: "get_u64 buf (4 + n) = Ok r"
    using lb by (simp add: d)
  have pl: "slice buf (4 + n + 8) (4 + n + 8 + unat len) = Ok (take (unat len) rest)"
    if "unat len \<le> length rest"
    unfolding slice_def using that lb by (simp only: d') simp
  have small: "4 + n + 8 + unat len < 2 ^ 64" if "\<not> len > max_message_size"
    using that n by (simp add: max_message_size_def word_less_nat_alt not_less)
  show ?thesis
  proof (cases "len > max_message_size")
    case True
    then show ?thesis
      by (simp only: decode_frame_def buf_def [symmetric] g v and_then.simps Let_def prod.case) (simp add: lb)
  next
    case False
    then show ?thesis
      using small [OF False] pl
      by (simp only: decode_frame_def buf_def [symmetric] g v rid and_then.simps Let_def prod.case
            frame_flags_truncate) (simp add: lb not_less)
  qed
qed

lemma decode_frame_bytes:
  assumes "length payload \<le> 1048576"
  shows "decode_frame (frame_bytes t f r payload @ rest) =
           Ok \<lparr>frame_version = PROTOCOL_VERSION, frame_type_byte = t, frame_flags = f,
               frame_length = word_of_nat (length payload), frame_request_id = r, frame_payload = payload\<rparr>"
proof -
  have "unat (word_of_nat (length payload) :: u64) = length payload"
    using assms by (simp add: unat_of_nat)
  then show ?thesis
    using assms
    by (simp add: frame_bytes_def decode_frame_header max_message_size_def word_less_nat_alt)
qed

lemma decode_frame_no_panic [no_panic]: "decode_frame buf \<noteq> Panic"
  unfolding decode_frame_def
  by (intro no_panic) (auto simp: res_simps)

lemma decode_frame_OkD:
  assumes "decode_frame buf = Ok fr"
  shows "\<exists>rest. buf = frame_bytes (frame_type_byte fr) (frame_flags fr) (frame_request_id fr) (frame_payload fr) @ rest"
    and "length (frame_payload fr) \<le> 1048576"
    and "frame_length fr = word_of_nat (length (frame_payload fr))"
    and "frame_version fr = PROTOCOL_VERSION"
proof -
  obtain len n where v: "decode_varint (drop 4 buf) = Ok (len, n)"
    and l4: "4 \<le> length buf" and len: "len \<le> max_message_size"
    and lb: "4 + n + 8 + unat len \<le> length buf"
    and b0: "buf ! 0 = PROTOCOL_VERSION"
    and fr: "fr = \<lparr>frame_version = PROTOCOL_VERSION, frame_type_byte = buf ! 1,
             frame_flags = FrameFlags (u16_of_le (take 2 (drop 2 buf))), frame_length = len,
             frame_request_id = u64_of_le (take 8 (drop (4 + n) buf)),
             frame_payload = take (unat len) (drop (4 + n + 8) buf)\<rparr>"
    using assms unfolding decode_frame_def Let_def
    by (auto simp: res_simps frame_flags_from_bits_truncate_def simp del: PROTOCOL_VERSION_def
          split: if_splits prod.splits)
  have lim: "unat len \<le> 1048576" using len by (simp add: max_message_size_def word_le_nat_alt)
  then have "varint_len len \<le> 3" by (simp add: varint_len_def word_le_nat_alt)
  then have "take n (drop 4 buf) = leb128 len"
    using decode_varint_bounds [OF v] by (intro decode_varint_canonical [OF v]) simp
  define body where "body = drop (4 + n + 8) buf"
  have pl: "length (take (unat len) body) = unat len" using lb by (simp add: body_def)
  have cut: "drop 2 buf = take 2 (drop 2 buf) @ drop 4 buf" "drop 4 buf = take n (drop 4 buf) @ drop (4 + n) buf"
      "drop (4 + n) buf = take 8 (drop (4 + n) buf) @ body"
    using drop_cut [of 2 buf 2] drop_cut [of 4 buf n] drop_cut [of "4 + n" buf 8] by (simp_all add: body_def)
  have two: "buf = [buf ! 0, buf ! 1] @ drop 2 buf"
    using l4 by (cases buf; cases "tl buf") auto
  have "buf = [PROTOCOL_VERSION, buf ! 1] @ take 2 (drop 2 buf) @ leb128 len @ take 8 (drop (4 + n) buf) @ body"
    using two cut b0 \<open>take n (drop 4 buf) = leb128 len\<close> by (metis append.assoc)
  moreover have "length (take 8 (drop (4 + n) buf)) = 8" "length (take 2 (drop 2 buf)) = 2"
    using lb l4 by simp_all
  ultimately have "buf = frame_header (buf ! 1) (FrameFlags (u16_of_le (take 2 (drop 2 buf))))
      (u64_of_le (take 8 (drop (4 + n) buf))) len @ body"
    unfolding frame_header_def by (simp only: frame_flags.sel u16_to_of_le u64_to_of_le append.assoc)
  then show "\<exists>rest. buf = frame_bytes (frame_type_byte fr) (frame_flags fr) (frame_request_id fr) (frame_payload fr) @ rest"
    unfolding frame_bytes_def fr body_def [symmetric] using pl
    by (intro exI [of _ "drop (unat len) body"]) simp
  show "length (frame_payload fr) \<le> 1048576" "frame_length fr = word_of_nat (length (frame_payload fr))"
    "frame_version fr = PROTOCOL_VERSION"
    using lim pl by (simp_all add: fr body_def)
qed

lemma decode_frame_Ok_iff:
  "decode_frame buf = Ok fr \<longleftrightarrow>
     (\<exists>t f r payload rest.
        buf = frame_bytes t f r payload @ rest \<and> length payload \<le> 1048576 \<and>
        fr = \<lparr>frame_version = PROTOCOL_VERSION, frame_type_byte = t, frame_flags = f,
              frame_length = word_of_nat (length payload), frame_request_id = r,
              frame_payload = payload\<rparr>)"
  (is "?L \<longleftrightarrow> ?R")
proof
  assume ?L
  from decode_frame_OkD [OF this] obtain rest where
    "buf = frame_bytes (frame_type_byte fr) (frame_flags fr) (frame_request_id fr) (frame_payload fr) @ rest"
    "length (frame_payload fr) \<le> 1048576" "frame_length fr = word_of_nat (length (frame_payload fr))"
    "frame_version fr = PROTOCOL_VERSION" by blast
  then show ?R
    by (intro exI [of _ "frame_type_byte fr"] exI [of _ "frame_flags fr"] exI [of _ "frame_request_id fr"]
        exI [of _ "frame_payload fr"] exI [of _ rest]) simp
next
  assume ?R
  then show ?L by (elim exE conjE) (simp only: decode_frame_bytes)
qed

text \<open>More input never changes a frame that was already complete.\<close>

lemma decode_frame_append: "decode_frame buf = Ok fr \<Longrightarrow> decode_frame (buf @ rest) = Ok fr"
  unfolding decode_frame_Ok_iff by (metis append.assoc)

section \<open>Data streams: lemmas\<close>

definition wf_preamble :: "data_preamble \<Rightarrow> bool" where
  "wf_preamble p \<longleftrightarrow> wf_tid (preamble_transfer_id p)"

lemma encode_data_preamble_eq:
  assumes "wf_preamble p"
  shows "encode_data_preamble p =
           Ok (tid_bytes (preamble_transfer_id p) @ u64_to_le (preamble_file_id p)
               @ u64_to_le (preamble_stream_seq p) @ replicate 24 0)"
  using assms
  by (simp add: encode_data_preamble_def wf_preamble_def wf_tid_def)

lemma decode_data_preamble_append:
  assumes "length t = 16" and "length pad = 24"
  shows "decode_data_preamble (t @ u64_to_le fid @ u64_to_le s @ pad @ rest) =
           Ok \<lparr>preamble_transfer_id = TransferId t, preamble_file_id = fid, preamble_stream_seq = s\<rparr>"
  using assms by (simp add: decode_data_preamble_def)

lemma decode_data_preamble_no_panic [no_panic]: "decode_data_preamble buf \<noteq> Panic"
  unfolding decode_data_preamble_def by (intro no_panic) auto

lemma data_flags_truncate [simp]: "data_flags_from_bits_truncate (data_flags_bits f) = f"
  by (cases f) (simp add: data_flags_from_bits_truncate_def)

definition data_header_bytes :: "u64 \<Rightarrow> u32 \<Rightarrow> data_frame_flags \<Rightarrow> hash \<Rightarrow> bytes" where
  "data_header_bytes chunk_offset chunk_len flags h =
     u64_to_le chunk_offset @ u32_to_le chunk_len @ u16_to_le (data_flags_bits flags) @ [0, 0] @ hash_bytes h"

lemma encode_data_frame_header_eq:
  assumes "wf_hash h" and "length out = 48"
  shows "encode_data_frame_header out off len f h = Ok (data_header_bytes off len f h)"
  using assms
  by (simp add: encode_data_frame_header_def data_header_bytes_def wf_hash_def)

lemma encode_data_frame_eq:
  assumes "wf_hash h"
  shows "encode_data_frame off len f h payload =
           Ok (data_header_bytes off len f h @ (if data_is_hole f then [] else payload))"
  using assms by (simp add: encode_data_frame_def encode_data_frame_header_eq)

lemma u16_of_le_zero [simp]: "u16_of_le [0, 0] = 0"
  by (simp add: u16_of_le_def)

lemma decode_data_header_bytes:
  assumes "wf_hash h"
  shows "decode_data_frame_header (data_header_bytes off len f h @ rest) =
           (if len > DATA_MAX_CHUNK_LEN then Err (Malformed ''data frame: chunk_len > max'')
            else Ok (\<lparr>dfh_chunk_offset = off, dfh_chunk_len = len, dfh_flags = f, dfh_chunk_hash = h\<rparr>, rest))"
  using assms
  by (cases h) (simp add: decode_data_frame_header_def data_header_bytes_def)

lemma decode_data_frame_header_no_panic [no_panic]: "decode_data_frame_header buf \<noteq> Panic"
  unfolding decode_data_frame_header_def by (intro no_panic) auto

lemma decode_data_frame_header_OkD:
  assumes "decode_data_frame_header buf = Ok (h, payload)"
  shows "buf = data_header_bytes (dfh_chunk_offset h) (dfh_chunk_len h) (dfh_flags h) (dfh_chunk_hash h) @ payload"
    and "unat (dfh_chunk_len h) \<le> 4194304" and "wf_hash (dfh_chunk_hash h)"
proof -
  have l: "48 \<le> length buf" and len: "u32_of_le (take 4 (drop 8 buf)) \<le> 4194304"
    and z: "u16_of_le (take 2 (drop 14 buf)) = 0"
    and h: "h = \<lparr>dfh_chunk_offset = u64_of_le (take 8 buf), dfh_chunk_len = u32_of_le (take 4 (drop 8 buf)),
              dfh_flags = DataFrameFlags (u16_of_le (take 2 (drop 12 buf))),
              dfh_chunk_hash = Hash (take 32 (drop 16 buf))\<rparr>"
    and p: "payload = drop 48 buf"
    using assms unfolding decode_data_frame_header_def Let_def
    by (auto simp: res_simps data_flags_from_bits_truncate_def split: if_splits)
  have "u16_to_le (u16_of_le (take 2 (drop 14 buf))) = take 2 (drop 14 buf)"
    using l by (intro u16_to_of_le) simp
  then have z': "take 2 (drop 14 buf) = [0, 0]" unfolding z by (simp add: u16_to_le_def numeral_2_eq_2)
  have cut: "drop 0 buf = take 8 (drop 0 buf) @ drop 8 buf" "drop 8 buf = take 4 (drop 8 buf) @ drop 12 buf"
      "drop 12 buf = take 2 (drop 12 buf) @ drop 14 buf" "drop 14 buf = take 2 (drop 14 buf) @ drop 16 buf"
      "drop 16 buf = take 32 (drop 16 buf) @ drop 48 buf"
    using drop_cut [of 0 buf 8] drop_cut [of 8 buf 4] drop_cut [of 12 buf 2] drop_cut [of 14 buf 2]
      drop_cut [of 16 buf 32] by simp_all
  have "buf = take 8 buf @ take 4 (drop 8 buf) @ take 2 (drop 12 buf) @ [0, 0] @ take 32 (drop 16 buf) @ drop 48 buf"
    using cut z' by (metis drop0)
  then show "buf = data_header_bytes (dfh_chunk_offset h) (dfh_chunk_len h) (dfh_flags h) (dfh_chunk_hash h) @ payload"
    using l by (simp add: data_header_bytes_def h p u64_to_of_le u32_to_of_le u16_to_of_le)
  show "unat (dfh_chunk_len h) \<le> 4194304" "wf_hash (dfh_chunk_hash h)"
    using len l by (simp_all add: h word_le_nat_alt)
qed

end
