(* ===== verification/Compression.thy ===== *)
theory Compression
  imports Complex_Main Wire_Errors
begin

text \<open>
  \<open>protocol/compression.rs\<close>: the entropy tiers, the adaptive selector with its backoff, the
  plain \<open>compress_if_beneficial\<close>, and the bounded decompressor. The zstd library is a
  parameter: \<open>zstd\<close> compresses at a level or fails, and a decoder is a reader \<open>rd\<close> over an
  arbitrary state, which may produce bytes for ever. The entropy estimate, a floating-point
  computation, is a parameter \<open>entropy\<close> of the functions that compare it with a threshold.

  The lemmas show that a compressed payload always saves what was asked, that a cooldown
  skips exactly its number of chunks, that the byte counters account for what is sent, and
  that decompression ends for every decoder within its two bounds.
\<close>

section \<open>Constants and tiers\<close>

definition DEFAULT_ZSTD_LEVEL :: int where [simp]: "DEFAULT_ZSTD_LEVEL = 3"
definition FAST_ZSTD_LEVEL :: int where [simp]: "FAST_ZSTD_LEVEL = 1"
definition HIGH_ZSTD_LEVEL :: int where [simp]: "HIGH_ZSTD_LEVEL = 7"
definition MIN_COMPRESSIBLE_SIZE :: nat where [simp]: "MIN_COMPRESSIBLE_SIZE = 128"
definition DEFAULT_MIN_SAVINGS :: nat where [simp]: "DEFAULT_MIN_SAVINGS = 16"
definition DEFAULT_ENTROPY_BYPASS_THRESHOLD :: real where [simp]: "DEFAULT_ENTROPY_BYPASS_THRESHOLD = 15 / 2"

datatype entropy_tier = UltraRepetitive | Standard | Marginal | Incompressible

definition entropy_tier_classify :: "real \<Rightarrow> entropy_tier" where
  "entropy_tier_classify e =
     (if e \<ge> DEFAULT_ENTROPY_BYPASS_THRESHOLD then Incompressible
      else if e \<ge> 6 then Marginal
      else if e \<ge> 3 then Standard
      else UltraRepetitive)"

fun recommended_level :: "entropy_tier \<Rightarrow> int option" where
  "recommended_level UltraRepetitive = Some HIGH_ZSTD_LEVEL"
| "recommended_level Standard = Some DEFAULT_ZSTD_LEVEL"
| "recommended_level Marginal = Some FAST_ZSTD_LEVEL"
| "recommended_level Incompressible = None"

section \<open>The adaptive selector\<close>

record adaptive_config =
  ac_min_compressible_size :: nat
  ac_min_savings :: nat
  ac_entropy_bypass_threshold :: real
  ac_backoff_failure_threshold :: nat
  ac_backoff_cooldown_chunks :: nat

definition adaptive_config_default :: adaptive_config where
  "adaptive_config_default =
     \<lparr>ac_min_compressible_size = MIN_COMPRESSIBLE_SIZE, ac_min_savings = DEFAULT_MIN_SAVINGS,
      ac_entropy_bypass_threshold = DEFAULT_ENTROPY_BYPASS_THRESHOLD,
      ac_backoff_failure_threshold = 3, ac_backoff_cooldown_chunks = 6\<rparr>"

record adaptive_stats =
  as_total_chunks :: u64
  as_bypassed_small :: u64
  as_bypassed_entropy :: u64
  as_bypassed_backoff :: u64
  as_compressed_chunks :: u64
  as_raw_bytes :: u64
  as_wire_bytes :: u64
  as_cpu_time_saved_us_est :: u64

definition adaptive_stats_default :: adaptive_stats where
  "adaptive_stats_default =
     \<lparr>as_total_chunks = 0, as_bypassed_small = 0, as_bypassed_entropy = 0, as_bypassed_backoff = 0,
      as_compressed_chunks = 0, as_raw_bytes = 0, as_wire_bytes = 0, as_cpu_time_saved_us_est = 0\<rparr>"

datatype compression_decision =
    BypassTooSmall
  | BypassHighEntropy (entropy_centibits: u16)
  | BypassBackoff (cooldown_remaining: nat)
  | Compressed (level: int) (raw_len: nat) (compressed_len: nat)
  | FailedSavings (level: int) (raw_len: nat) (attempted_len: nat)

record selector =
  sel_config :: adaptive_config
  sel_consecutive_failures :: nat
  sel_cooldown_remaining :: nat
  sel_stats :: adaptive_stats

definition selector_new :: "adaptive_config \<Rightarrow> adaptive_stats \<Rightarrow> selector" where
  "selector_new config stats =
     \<lparr>sel_config = config, sel_consecutive_failures = 0, sel_cooldown_remaining = 0, sel_stats = stats\<rparr>"

definition selector_with_defaults :: selector where
  "selector_with_defaults = selector_new adaptive_config_default adaptive_stats_default"

definition reset_stream_state :: "selector \<Rightarrow> selector" where
  "reset_stream_state s = s\<lparr>sel_consecutive_failures := 0, sel_cooldown_remaining := 0\<rparr>"

definition compress_payload ::
  "(bytes \<Rightarrow> int \<Rightarrow> bytes option) \<Rightarrow> bytes \<Rightarrow> int \<Rightarrow> (protocol_error, bytes) res" where
  "compress_payload zstd data lvl = ok_or (zstd data lvl) (Malformed ''zstd compression failed'')"

text \<open>The counter updates, named after the fields; \<open>fetch_add\<close> wraps.\<close>

definition count_chunk :: "nat \<Rightarrow> adaptive_stats \<Rightarrow> adaptive_stats" where
  "count_chunk n st = st\<lparr>as_total_chunks := as_total_chunks st + 1, as_raw_bytes := as_raw_bytes st + word_of_nat n\<rparr>"

definition count_wire :: "nat \<Rightarrow> adaptive_stats \<Rightarrow> adaptive_stats" where
  "count_wire n st = st\<lparr>as_wire_bytes := as_wire_bytes st + word_of_nat n\<rparr>"

definition count_saved :: "nat \<Rightarrow> adaptive_stats \<Rightarrow> adaptive_stats" where
  "count_saved n st =
     st\<lparr>as_cpu_time_saved_us_est := as_cpu_time_saved_us_est st + (word_of_nat n * 30) div 1000\<rparr>"

text \<open>A failed attempt: one more failure, and the cooldown once there are enough of them.\<close>

definition note_failure :: "selector \<Rightarrow> selector" where
  "note_failure s =
     (let s = s\<lparr>sel_consecutive_failures := sel_consecutive_failures s + 1\<rparr> in
      if sel_consecutive_failures s \<ge> ac_backoff_failure_threshold (sel_config s)
      then s\<lparr>sel_cooldown_remaining := ac_backoff_cooldown_chunks (sel_config s)\<rparr> else s)"

definition process_payload ::
  "(bytes \<Rightarrow> real) \<Rightarrow> (bytes \<Rightarrow> int \<Rightarrow> bytes option) \<Rightarrow> selector \<Rightarrow> bytes \<Rightarrow>
     selector \<times> bytes option \<times> compression_decision" where
  "process_payload entropy zstd s payload =
     (let len = length payload;
          s = s\<lparr>sel_stats := count_chunk len (sel_stats s)\<rparr>
      in
        if len < ac_min_compressible_size (sel_config s) then
          (s\<lparr>sel_stats := count_wire len
               (sel_stats s\<lparr>as_bypassed_small := as_bypassed_small (sel_stats s) + 1\<rparr>)\<rparr>,
           None, BypassTooSmall)
        else if sel_cooldown_remaining s > 0 then
          (let left = sel_cooldown_remaining s - 1 in
           (s\<lparr>sel_cooldown_remaining := left,
              sel_stats := count_saved len (count_wire len
                (sel_stats s\<lparr>as_bypassed_backoff := as_bypassed_backoff (sel_stats s) + 1\<rparr>))\<rparr>,
            None, BypassBackoff left))
        else
          (let e = entropy payload in
           if e \<ge> ac_entropy_bypass_threshold (sel_config s) then
             (note_failure
                (s\<lparr>sel_stats := count_saved len (count_wire len
                    (sel_stats s\<lparr>as_bypassed_entropy := as_bypassed_entropy (sel_stats s) + 1\<rparr>))\<rparr>),
              None, BypassHighEntropy (word_of_nat (min 65535 (nat \<lfloor>e * 100 + 1 / 2\<rfloor>))))
           else
             (let lvl = (case recommended_level (entropy_tier_classify e) of
                           Some l \<Rightarrow> l | None \<Rightarrow> DEFAULT_ZSTD_LEVEL)
              in case compress_payload zstd payload lvl of
                   Ok compressed \<Rightarrow>
                     (if length compressed + ac_min_savings (sel_config s) \<le> len then
                        (s\<lparr>sel_consecutive_failures := 0, sel_cooldown_remaining := 0,
                           sel_stats := count_wire (length compressed)
                             (sel_stats s\<lparr>as_compressed_chunks := as_compressed_chunks (sel_stats s) + 1\<rparr>)\<rparr>,
                         Some compressed, Compressed lvl len (length compressed))
                      else
                        ((note_failure s)\<lparr>sel_stats := count_wire len (sel_stats s)\<rparr>,
                         None, FailedSavings lvl len (length compressed)))
                 | _ \<Rightarrow>
                     ((note_failure s)\<lparr>sel_stats := count_wire len (sel_stats s)\<rparr>,
                      None, FailedSavings lvl len len))))"

section \<open>Plain compression and bounded decompression\<close>

definition compress_if_beneficial ::
  "(bytes \<Rightarrow> real) \<Rightarrow> (bytes \<Rightarrow> int \<Rightarrow> bytes option) \<Rightarrow> bytes \<Rightarrow> nat \<Rightarrow> bytes option" where
  "compress_if_beneficial entropy zstd data min_savings =
     (if length data < MIN_COMPRESSIBLE_SIZE then None
      else if entropy data \<ge> DEFAULT_ENTROPY_BYPASS_THRESHOLD then None
      else
        (case compress_payload zstd data DEFAULT_ZSTD_LEVEL of
           Ok compressed \<Rightarrow> if length compressed + min_savings \<le> length data then Some compressed else None
         | _ \<Rightarrow> None))"

text \<open>
  The read loop. \<open>rd s\<close> is one call of \<open>decoder.read\<close>: \<open>None\<close> is a decode error, an empty
  read the end of the stream. The loop ends for every reader, since each turn either
  stops or adds at least one byte to an output of at most \<open>max_bytes\<close>.
\<close>

function decompress_loop ::
  "('s \<Rightarrow> (bytes \<times> 's) option) \<Rightarrow> nat \<Rightarrow> nat \<Rightarrow> nat option \<Rightarrow> 's \<Rightarrow> bytes \<Rightarrow> (protocol_error, bytes) res" where
  "decompress_loop rd clen max_bytes max_ratio s out =
     (case rd s of
        None \<Rightarrow> Err (Malformed ''zstd decode error'')
      | Some (chunk, s') \<Rightarrow>
          (if chunk = [] then Ok out
           else if length out + length chunk > max_bytes
           then Err (DecompressionBomb (''decompressed size exceeds limit of '' @ show_nat max_bytes @ '' bytes''))
           else if (case max_ratio of
                      Some ratio \<Rightarrow> length out + length chunk > 65536
                        \<and> length out + length chunk > max clen 1 * ratio
                    | None \<Rightarrow> False)
           then Err (DecompressionBomb (''decompression expansion ratio exceeded ''
                  @ show_nat (case max_ratio of Some ratio \<Rightarrow> ratio | None \<Rightarrow> 0) @ ''x limit''))
           else decompress_loop rd clen max_bytes max_ratio s' (out @ chunk)))"
  by pat_completeness auto
termination
  by (relation "measure (\<lambda>(rd, clen, max_bytes, max_ratio, s, out). max_bytes - length out)")
    (auto, metis length_greater_0_conv less_add_same_cancel1 not_less diff_less_mono2 less_le_trans)

declare decompress_loop.simps [simp del]

definition decompress_payload_bounded ::
  "(bytes \<Rightarrow> 's option) \<Rightarrow> ('s \<Rightarrow> (bytes \<times> 's) option) \<Rightarrow> bytes \<Rightarrow> nat \<Rightarrow> nat option \<Rightarrow>
     (protocol_error, bytes) res" where
  "decompress_payload_bounded decoder rd compressed max_bytes max_ratio =
     (if compressed = [] then Err (Malformed ''empty compressed payload'')
      else
        and_then (ok_or (decoder compressed) (Malformed ''invalid zstd header'')) (\<lambda>s.
        decompress_loop rd (length compressed) max_bytes max_ratio s []))"

text \<open>\<open>decoder_yields rd s data\<close>: reading from state \<open>s\<close> to the end gives \<open>data\<close>.\<close>

inductive decoder_yields :: "('s \<Rightarrow> (bytes \<times> 's) option) \<Rightarrow> 's \<Rightarrow> bytes \<Rightarrow> bool" for rd where
  yields_end: "rd s = Some ([], s') \<Longrightarrow> decoder_yields rd s []"
| yields_more: "rd s = Some (c, s') \<Longrightarrow> c \<noteq> [] \<Longrightarrow> decoder_yields rd s' data \<Longrightarrow> decoder_yields rd s (c @ data)"

text \<open>A run of the selector over consecutive chunks.\<close>

fun process_all ::
  "(bytes \<Rightarrow> real) \<Rightarrow> (bytes \<Rightarrow> int \<Rightarrow> bytes option) \<Rightarrow> selector \<Rightarrow> bytes list \<Rightarrow>
     selector \<times> (bytes option \<times> compression_decision) list" where
  "process_all entropy zstd s [] = (s, [])"
| "process_all entropy zstd s (p # ps) =
     (let (s', r) = process_payload entropy zstd s p;
          (s'', rs) = process_all entropy zstd s' ps
      in (s'', r # rs))"

text \<open>The bytes that go on the wire for one chunk.\<close>

definition sent_len :: "bytes \<Rightarrow> bytes option \<Rightarrow> nat" where
  "sent_len payload r = (case r of Some c \<Rightarrow> length c | None \<Rightarrow> length payload)"

section \<open>The selector\<close>

lemma note_failure_simps [simp]:
  "sel_config (note_failure s) = sel_config s" "sel_stats (note_failure s) = sel_stats s"
  by (simp_all add: note_failure_def Let_def)

lemma process_payload_config:
  "process_payload entropy zstd s payload = (s', r) \<Longrightarrow> sel_config s' = sel_config s"
  by (auto simp: process_payload_def Let_def split: if_splits res.splits)

lemma process_payload_Some:
  assumes "process_payload entropy zstd s payload = (s', Some c, d)"
  shows "length c + ac_min_savings (sel_config s) \<le> length payload \<and>
         (\<exists>lvl. zstd payload lvl = Some c \<and> d = Compressed lvl (length payload) (length c)) \<and>
         sel_consecutive_failures s' = 0 \<and> sel_cooldown_remaining s' = 0"
  using assms
  by (auto simp: process_payload_def Let_def compress_payload_def res_simps split: if_splits res.splits)

lemma process_payload_counts:
  assumes "process_payload entropy zstd s payload = (s', r, d)"
  shows "as_total_chunks (sel_stats s') = as_total_chunks (sel_stats s) + 1"
    and "as_raw_bytes (sel_stats s') = as_raw_bytes (sel_stats s) + word_of_nat (length payload)"
    and "as_wire_bytes (sel_stats s') = as_wire_bytes (sel_stats s) + word_of_nat (sent_len payload r)"
  using assms
  by (auto simp: process_payload_def Let_def count_chunk_def count_wire_def count_saved_def sent_len_def
      split: if_splits res.splits)

lemma process_payload_cooldown:
  assumes "sel_cooldown_remaining s = Suc k" and "ac_min_compressible_size (sel_config s) \<le> length payload"
  shows "\<exists>st. process_payload entropy zstd s payload =
           (s\<lparr>sel_cooldown_remaining := k, sel_stats := st\<rparr>, None, BypassBackoff k)"
  using assms by (auto simp: process_payload_def Let_def)

lemma process_all_cooldown:
  assumes "length ps \<le> sel_cooldown_remaining s"
    and "\<forall>p \<in> set ps. ac_min_compressible_size (sel_config s) \<le> length p"
  shows "\<exists>s' rs. process_all entropy zstd s ps = (s', rs) \<and>
           sel_cooldown_remaining s' = sel_cooldown_remaining s - length ps \<and>
           map fst rs = replicate (length ps) None \<and>
           map snd rs = map (\<lambda>i. BypassBackoff (sel_cooldown_remaining s - Suc i)) [0..<length ps]"
  using assms
proof (induction ps arbitrary: s)
  case (Cons p ps)
  obtain k where k: "sel_cooldown_remaining s = Suc k" using Cons.prems(1) by (cases "sel_cooldown_remaining s") auto
  obtain st where st: "process_payload entropy zstd s p =
      (s\<lparr>sel_cooldown_remaining := k, sel_stats := st\<rparr>, None, BypassBackoff k)"
    using process_payload_cooldown [OF k, of p entropy zstd] Cons.prems(2) by auto
  define t where "t = s\<lparr>sel_cooldown_remaining := k, sel_stats := st\<rparr>"
  obtain s' rs where r: "process_all entropy zstd t ps = (s', rs)"
      "sel_cooldown_remaining s' = k - length ps" "map fst rs = replicate (length ps) None"
      "map snd rs = map (\<lambda>i. BypassBackoff (k - Suc i)) [0..<length ps]"
    using Cons.IH [of t] Cons.prems k by (auto simp: t_def)
  have "map (\<lambda>i. BypassBackoff (Suc k - Suc i)) [0..<Suc (length ps)] =
        BypassBackoff k # map (\<lambda>i. BypassBackoff (k - Suc i)) [0..<length ps]"
    by (simp add: upt_conv_Cons map_Suc_upt [symmetric] del: upt_Suc map_Suc_upt)
  then show ?case using st r k by (simp add: t_def [symmetric])
qed simp

section \<open>Plain compression\<close>

lemma compress_if_beneficial_Some:
  "compress_if_beneficial entropy zstd data ms = Some c \<longleftrightarrow>
     128 \<le> length data \<and> entropy data < 15 / 2 \<and> zstd data 3 = Some c \<and> length c + ms \<le> length data"
  by (auto simp: compress_if_beneficial_def compress_payload_def ok_or_def split: option.splits)

section \<open>Bounded decompression\<close>

lemma decompress_loop_no_panic [no_panic]: "decompress_loop rd clen mb mr s out \<noteq> Panic"
proof (induction rd clen mb mr s out rule: decompress_loop.induct)
  case (1 rd clen mb mr s out)
  then show ?case by (subst decompress_loop.simps) (auto split: option.split)
qed

lemma decompress_loop_bounds:
  assumes "decompress_loop rd clen mb mr s out = Ok data" and "length out \<le> mb"
    and "\<forall>r. mr = Some r \<longrightarrow> length out \<le> max 65536 (max clen 1 * r)"
  shows "length data \<le> mb \<and> (\<forall>r. mr = Some r \<longrightarrow> length data \<le> max 65536 (max clen 1 * r))"
  using assms
proof (induction rd clen mb mr s out rule: decompress_loop.induct)
  case (1 rd clen mb mr s out)
  show ?case
  proof (cases "rd s")
    case None
    then show ?thesis using 1(2) by (simp add: decompress_loop.simps [of rd clen mb mr s])
  next
    case (Some p)
    obtain c s' where p: "p = (c, s')" by (cases p)
    show ?thesis
    proof (cases "c = []")
      case True
      then show ?thesis using 1(2-4) Some p by (simp add: decompress_loop.simps [of rd clen mb mr s])
    next
      case False
      then have step: "length out + length c \<le> mb"
          "\<not> (case mr of Some ratio \<Rightarrow> length out + length c > 65536 \<and> length out + length c > max clen 1 * ratio
                      | None \<Rightarrow> False)"
          "decompress_loop rd clen mb mr s' (out @ c) = Ok data"
        using 1(2) Some p by (simp_all add: decompress_loop.simps [of rd clen mb mr s] not_less split: if_splits)
      show ?thesis
        using step False Some p
        by (intro 1(1) [of "(c, s')" c s']) (auto simp: not_less split: option.splits)
    qed
  qed
qed

lemma decompress_loop_yields:
  assumes "decoder_yields rd s data" and "length out + length data \<le> mb"
    and "\<forall>r. mr = Some r \<longrightarrow> length out + length data \<le> max 65536 (max clen 1 * r)"
  shows "decompress_loop rd clen mb mr s out = Ok (out @ data)"
  using assms
proof (induction arbitrary: out rule: decoder_yields.induct)
  case (yields_end s s')
  then show ?case by (simp add: decompress_loop.simps [of rd clen mb mr s])
next
  case (yields_more s c s' data)
  have "decompress_loop rd clen mb mr s' (out @ c) = Ok ((out @ c) @ data)"
    using yields_more.prems by (intro yields_more.IH) (simp_all add: add.assoc)
  then show ?case
    using yields_more.hyps(1,2) yields_more.prems
    by (auto simp: decompress_loop.simps [of rd clen mb mr s] not_less split: option.splits)
qed

lemma decompress_loop_bomb:
  assumes "decoder_yields rd s data" and "length out \<le> mb"
    and "length out \<le> max 65536 (max clen 1 * r)"
    and "length out + length data > mb \<or> length out + length data > max 65536 (max clen 1 * r)"
  shows "\<exists>msg. decompress_loop rd clen mb (Some r) s out = Err (DecompressionBomb msg)"
  using assms
proof (induction arbitrary: out rule: decoder_yields.induct)
  case (yields_end s s')
  then show ?case by (auto simp: le_max_iff_disj)
next
  case (yields_more s c s' data)
  show ?case
  proof (cases "length out + length c > mb \<or> length out + length c > max 65536 (max clen 1 * r)")
    case True
    then show ?thesis
      using yields_more.hyps by (subst decompress_loop.simps) auto
  next
    case False
    then have "\<exists>msg. decompress_loop rd clen mb (Some r) s' (out @ c) = Err (DecompressionBomb msg)"
      using yields_more.prems by (intro yields_more.IH) auto
    then show ?thesis
      using yields_more.hyps False by (subst decompress_loop.simps) auto
  qed
qed

end
