(* ===== verification/Session_Framing.thy ===== *)
theory Session_Framing
  imports Message Frame Compression
begin

text \<open>
  The framing functions of \<open>session/mod.rs\<close>: \<open>encode_message\<close>, \<open>encode_message_compressed\<close>
  and \<open>read_frame\<close>. A receive stream is the list of the bytes that arrive before its end;
  \<open>read_exact\<close> gives \<open>None\<close> when the stream ends early, as \<open>transport/quic.rs\<close> maps it. A
  stream that breaks off with a transport error is not modelled.

  The lemmas show that what one side frames the other reads, message by message and in
  order, that no stream makes the reader panic, and how a truncated frame is reported.
\<close>

unbundle bit_operations_syntax

section \<open>Sending\<close>

definition frame_message :: "u8 \<Rightarrow> frame_flags \<Rightarrow> u64 \<Rightarrow> bytes \<Rightarrow> (protocol_error, bytes) res" where
  "frame_message ty flags request_id payload =
     (let total = header_size_for (word_of_nat (length payload)) + length payload in
      and_then (encode_frame (replicate total 0) ty flags request_id payload) (\<lambda>(out, n). Ok out))"

definition encode_message_compressed ::
  "(bytes \<Rightarrow> real) \<Rightarrow> (bytes \<Rightarrow> int \<Rightarrow> bytes option) \<Rightarrow> message \<Rightarrow> u64 \<Rightarrow> bool \<Rightarrow> (protocol_error, bytes) res" where
  "encode_message_compressed entropy zstd msg request_id enable_compression =
     and_then (message_encode msg) (\<lambda>(ty, payload).
     case (if enable_compression then compress_if_beneficial entropy zstd payload DEFAULT_MIN_SAVINGS else None) of
       Some compressed \<Rightarrow> frame_message ty frame_flags_COMPRESSED request_id compressed
     | None \<Rightarrow> frame_message ty frame_flags_NONE request_id payload)"

definition encode_message ::
  "(bytes \<Rightarrow> real) \<Rightarrow> (bytes \<Rightarrow> int \<Rightarrow> bytes option) \<Rightarrow> message \<Rightarrow> u64 \<Rightarrow> (protocol_error, bytes) res" where
  "encode_message entropy zstd msg request_id = encode_message_compressed entropy zstd msg request_id False"

section \<open>Receiving\<close>

definition stream_read_exact :: "nat \<Rightarrow> bytes \<Rightarrow> (bytes \<times> bytes) option" where
  "stream_read_exact n recv = (if n \<le> length recv then Some (take n recv, drop n recv) else None)"

text \<open>The loop that collects the length varint, byte by byte.\<close>

fun read_varint_loop :: "bytes \<Rightarrow> nat \<Rightarrow> bytes \<Rightarrow> (protocol_error, (bytes \<times> bytes) option) res" where
  "read_varint_loop buf vlen recv =
     and_then (index buf (length buf - 1)) (\<lambda>b.
     if b AND 0x80 \<noteq> 0 then
       (case recv of
          [] \<Rightarrow> Ok None
        | next # recv' \<Rightarrow>
            (if vlen + 1 > 10 then Err VarintOverflow
             else read_varint_loop (buf @ [next]) (vlen + 1) recv'))
     else Ok (Some (buf, recv)))"

definition read_frame ::
  "(bytes \<Rightarrow> 's option) \<Rightarrow> ('s \<Rightarrow> (bytes \<times> 's) option) \<Rightarrow> bytes \<Rightarrow>
     (protocol_error, (frame \<times> bytes) option) res" where
  "read_frame decoder rd recv =
     (case stream_read_exact 5 recv of
        None \<Rightarrow> Ok None
      | Some (header_start, recv) \<Rightarrow>
          and_then (read_varint_loop header_start 1 recv) (\<lambda>r. case r of
            None \<Rightarrow> Ok None
          | Some (buf, recv) \<Rightarrow>
              and_then (and_then (slice_from buf 4) decode_varint) (\<lambda>(declared_length, _).
              case stream_read_exact 8 recv of
                None \<Rightarrow> Ok None
              | Some (rid, recv) \<Rightarrow>
                  let buf = buf @ rid in
                  if declared_length > max_message_size
                  then Err (FrameTooLarge declared_length max_message_size)
                  else
                    let payload_len = unat declared_length in
                    (case (if payload_len = 0 then Some ([], recv) else stream_read_exact payload_len recv) of
                       None \<Rightarrow> Ok None
                     | Some (payload, recv) \<Rightarrow>
                         let buf = buf @ payload in
                         and_then (decode_frame buf) (\<lambda>fr.
                         and_then
                           (if frame_compressed (frame_flags fr)
                            then decompress_payload_bounded decoder rd (frame_payload fr)
                                   MAX_BATCH_DECOMPRESSED_BYTES (Some 500)
                            else Ok (frame_payload fr)) (\<lambda>payload_bytes.
                         Ok (Some (fr\<lparr>frame_length := word_of_nat (length payload_bytes),
                                      frame_payload := payload_bytes\<rparr>, recv))))))))"

declare read_varint_loop.simps [simp del]

text \<open>A receiver that reads and decodes messages until the stream ends.\<close>

fun read_messages ::
  "(bytes \<Rightarrow> 's option) \<Rightarrow> ('s \<Rightarrow> (bytes \<times> 's) option) \<Rightarrow> nat \<Rightarrow> bytes \<Rightarrow>
     (protocol_error, (message \<times> u64) list) res" where
  "read_messages decoder rd 0 recv = Ok []"
| "read_messages decoder rd (Suc n) recv =
     and_then (read_frame decoder rd recv) (\<lambda>r. case r of
       None \<Rightarrow> Ok []
     | Some (fr, recv) \<Rightarrow>
         and_then (message_decode (frame_type_byte fr) (frame_payload fr)) (\<lambda>m.
         and_then (read_messages decoder rd n recv) (\<lambda>ms. Ok ((m, frame_request_id fr) # ms))))"

section \<open>Reading a well-formed header\<close>

lemma frame_message_eq: "frame_message t f r payload = Ok (frame_bytes t f r payload)"
proof -
  have l: "length (frame_bytes t f r payload) = header_size_for (word_of_nat (length payload)) + length payload"
    by (simp add: frame_bytes_def length_frame_header)
  show ?thesis
    unfolding frame_message_def Let_def l [symmetric] by (simp add: encode_frame_eq)
qed

lemma leb128_top: "j < length (leb128 v) \<Longrightarrow> leb128 v ! j AND 0x80 = 0 \<longleftrightarrow> Suc j = length (leb128 v)"
  using leb128_bits [of j v] by (auto simp: top_bit_iff)

lemma read_varint_loop_leb128:
  assumes "j < length (leb128 v)"
  shows "read_varint_loop (pre @ take (Suc j) (leb128 v)) (Suc j) (drop (Suc j) (leb128 v) @ rest) =
           Ok (Some (pre @ leb128 v, rest))"
  using assms
proof (induction "length (leb128 v) - j" arbitrary: j)
  case (Suc d)
  have b: "(pre @ take (Suc j) (leb128 v)) ! (length (pre @ take (Suc j) (leb128 v)) - 1) = leb128 v ! j"
    using Suc.prems by (simp add: nth_append)
  show ?case
  proof (cases "Suc j = length (leb128 v)")
    case True
    then show ?thesis
      using leb128_top [OF Suc.prems] b by (subst read_varint_loop.simps) simp
  next
    case False
    then have lt: "Suc j < length (leb128 v)" using Suc.prems by simp
    have d: "drop (Suc j) (leb128 v) = leb128 v ! Suc j # drop (Suc (Suc j)) (leb128 v)"
      using lt by (simp add: Cons_nth_drop_Suc)
    have t: "take (Suc (Suc j)) (leb128 v) = take (Suc j) (leb128 v) @ [leb128 v ! Suc j]"
      using lt by (simp add: take_Suc_conv_app_nth)
    have "Suc j < 10" using lt varint_len_bounds(2) [of v] by (simp add: length_leb128)
    moreover have "read_varint_loop (pre @ take (Suc (Suc j)) (leb128 v)) (Suc (Suc j))
        (drop (Suc (Suc j)) (leb128 v) @ rest) = Ok (Some (pre @ leb128 v, rest))"
      using Suc.hyps lt by (intro Suc.hyps(1)) simp_all
    ultimately show ?thesis
      using leb128_top [OF Suc.prems] False b lt
      by (subst read_varint_loop.simps) (simp add: d t)
  qed
qed simp

lemma stream_read_exact_app: "stream_read_exact (length a) (a @ b) = Some (a, b)"
  by (simp add: stream_read_exact_def)

text \<open>The reader after it has the whole length varint.\<close>

definition after_varint ::
  "(bytes \<Rightarrow> 's option) \<Rightarrow> ('s \<Rightarrow> (bytes \<times> 's) option) \<Rightarrow> bytes \<Rightarrow> u64 \<Rightarrow> bytes \<Rightarrow>
     (protocol_error, (frame \<times> bytes) option) res" where
  "after_varint decoder rd buf declared_length recv =
     (case stream_read_exact 8 recv of
        None \<Rightarrow> Ok None
      | Some (rid, recv) \<Rightarrow>
          if declared_length > max_message_size
          then Err (FrameTooLarge declared_length max_message_size)
          else
            (case (if unat declared_length = 0 then Some ([], recv)
                   else stream_read_exact (unat declared_length) recv) of
               None \<Rightarrow> Ok None
             | Some (payload, recv) \<Rightarrow>
                 and_then (decode_frame ((buf @ rid) @ payload)) (\<lambda>fr.
                 and_then
                   (if frame_compressed (frame_flags fr)
                    then decompress_payload_bounded decoder rd (frame_payload fr)
                           MAX_BATCH_DECOMPRESSED_BYTES (Some 500)
                    else Ok (frame_payload fr)) (\<lambda>payload_bytes.
                 Ok (Some (fr\<lparr>frame_length := word_of_nat (length payload_bytes),
                              frame_payload := payload_bytes\<rparr>, recv))))))"

lemma read_frame_header:
  assumes "length h = 4"
  shows "read_frame decoder rd (h @ leb128 len @ recv) = after_varint decoder rd (h @ leb128 len) len recv"
proof -
  define L where "L = leb128 len"
  have L: "L = take 1 L @ drop 1 L" "0 < length L"
    using varint_len_bounds(1) [of len] by (simp_all add: L_def)
  have "length (h @ take 1 L) = 5" using assms L(2) by (cases L) simp_all
  then have "stream_read_exact 5 ((h @ take 1 L) @ drop 1 L @ recv) = Some (h @ take 1 L, drop 1 L @ recv)"
    by (metis stream_read_exact_app)
  then have r5: "stream_read_exact 5 (h @ L @ recv) = Some (h @ take 1 L, drop 1 L @ recv)"
    using L(1) by (metis append.assoc)
  have "read_varint_loop (h @ take (Suc 0) L) (Suc 0) (drop (Suc 0) L @ recv) = Ok (Some (h @ L, recv))"
    using L(2) unfolding L_def by (rule read_varint_loop_leb128)
  then have loop: "read_varint_loop (h @ take 1 L) 1 (drop 1 L @ recv) = Ok (Some (h @ L, recv))"
    by simp
  have v: "and_then (slice_from (h @ L) 4) decode_varint = Ok (len, varint_len len)"
    using assms by (simp add: L_def)
  show ?thesis
    unfolding read_frame_def L_def [symmetric] after_varint_def Let_def
    by (simp only: r5 option.case prod.case loop and_then.simps v)
qed

lemma frame_header_split:
  "frame_header t f r len = ([PROTOCOL_VERSION, t] @ u16_to_le (frame_flags_bits f)) @ leb128 len @ u64_to_le r"
  by (simp add: frame_header_def)

lemma stream_read_u64 [simp]: "stream_read_exact 8 (u64_to_le r @ rest) = Some (u64_to_le r, rest)"
  using stream_read_exact_app [of "u64_to_le r" rest] by simp

lemma stream_read_payload:
  "(if length p = 0 then Some ([], p @ rest) else stream_read_exact (length p) (p @ rest)) = Some (p, rest)"
  by (simp add: stream_read_exact_app)

lemma read_frame_bytes:
  assumes "length payload \<le> 1048576"
  shows "read_frame decoder rd (frame_bytes t f r payload @ rest) =
     and_then
       (if frame_compressed f
        then decompress_payload_bounded decoder rd payload MAX_BATCH_DECOMPRESSED_BYTES (Some 500)
        else Ok payload) (\<lambda>p.
     Ok (Some (\<lparr>frame_version = PROTOCOL_VERSION, frame_type_byte = t, frame_flags = f,
                frame_length = word_of_nat (length p), frame_request_id = r, frame_payload = p\<rparr>, rest)))"
proof -
  define h where "h = [PROTOCOL_VERSION, t] @ u16_to_le (frame_flags_bits f)"
  define len :: u64 where "len = word_of_nat (length payload)"
  have h: "length h = 4" by (simp add: h_def)
  have un: "unat len = length payload" using assms by (simp add: len_def)
  then have nl: "\<not> len > max_message_size" using assms by (simp add: max_message_size_def word_less_nat_alt)
  have fb: "frame_bytes t f r payload = h @ leb128 len @ u64_to_le r @ payload"
    by (simp add: frame_bytes_def frame_header_split h_def len_def)
  have dec: "decode_frame (((h @ leb128 len) @ u64_to_le r) @ payload) =
      Ok \<lparr>frame_version = PROTOCOL_VERSION, frame_type_byte = t, frame_flags = f,
          frame_length = len, frame_request_id = r, frame_payload = payload\<rparr>"
    using decode_frame_bytes [OF assms, of t f r "[]"] by (simp add: fb len_def)
  have sp: "(if length payload = 0 then Some ([], payload @ rest)
      else stream_read_exact (length payload) (payload @ rest)) = Some (payload, rest)"
    by (rule stream_read_payload)
  have "read_frame decoder rd (frame_bytes t f r payload @ rest) =
      after_varint decoder rd (h @ leb128 len) len (u64_to_le r @ payload @ rest)"
    unfolding fb using read_frame_header [OF h, of decoder rd len "u64_to_le r @ payload @ rest"] by simp
  then show ?thesis
    using nl by (simp only: after_varint_def un stream_read_u64 option.case prod.case sp dec and_then.simps
        frame.simps if_False)
qed

lemma read_frame_too_large:
  assumes "len > max_message_size"
  shows "read_frame decoder rd (frame_header t f r len @ rest) = Err (FrameTooLarge len max_message_size)"
proof -
  have "read_frame decoder rd (frame_header t f r len @ rest) =
      after_varint decoder rd (([PROTOCOL_VERSION, t] @ u16_to_le (frame_flags_bits f)) @ leb128 len) len
        (u64_to_le r @ rest)"
    unfolding frame_header_split append.assoc
    using read_frame_header [of "[PROTOCOL_VERSION, t] @ u16_to_le (frame_flags_bits f)" decoder rd len
        "u64_to_le r @ rest"] by simp
  then show ?thesis using assms by (simp add: after_varint_def)
qed

section \<open>No panic on any stream\<close>

lemma read_varint_loop_no_panic [no_panic]: "buf \<noteq> [] \<Longrightarrow> read_varint_loop buf vlen recv \<noteq> Panic"
proof (induction recv arbitrary: buf vlen)
  case Nil
  then show ?case by (subst read_varint_loop.simps) simp
next
  case (Cons b recv)
  then show ?case by (subst read_varint_loop.simps) simp
qed

lemma read_varint_loop_length:
  "read_varint_loop buf vlen recv = Ok (Some (buf', recv')) \<Longrightarrow> length buf \<le> length buf'"
proof (induction recv arbitrary: buf vlen)
  case Nil
  then show ?case by (subst (asm) read_varint_loop.simps) (auto simp: res_simps split: if_splits)
next
  case (Cons b recv)
  show ?case
    using Cons.prems Cons.IH [of "buf @ [b]" "vlen + 1"]
    by (subst (asm) read_varint_loop.simps) (auto simp: res_simps split: if_splits)
qed

lemma decompress_payload_bounded_no_panic [no_panic]:
  "decompress_payload_bounded decoder rd c mb mr \<noteq> Panic"
  unfolding decompress_payload_bounded_def by (intro no_panic)

lemma option_pair_no_panic [no_panic]:
  "(o' = None \<Longrightarrow> a \<noteq> Panic) \<Longrightarrow> (\<And>x. o' = Some x \<Longrightarrow> f x \<noteq> Panic) \<Longrightarrow>
     (case o' of None \<Rightarrow> a | Some x \<Rightarrow> f x) \<noteq> Panic"
  by (cases o') auto

lemma read_frame_no_panic: "read_frame decoder rd recv \<noteq> Panic"
  unfolding read_frame_def
  by (intro no_panic) (auto simp: stream_read_exact_def dest!: read_varint_loop_length split: if_splits)

section \<open>Truncated frames\<close>

lemma read_varint_loop_truncated:
  assumes "Suc j + m < length (leb128 v)"
  shows "read_varint_loop (pre @ take (Suc j) (leb128 v)) (Suc j) (take m (drop (Suc j) (leb128 v))) = Ok None"
  using assms
proof (induction m arbitrary: j)
  case 0
  then show ?case
    using leb128_top [of j v] by (subst read_varint_loop.simps) (simp add: nth_append)
next
  case (Suc m)
  have lt: "Suc j < length (leb128 v)" using Suc.prems by simp
  have d: "drop (Suc j) (leb128 v) = leb128 v ! Suc j # drop (Suc (Suc j)) (leb128 v)"
    using lt by (simp add: Cons_nth_drop_Suc)
  have t: "take (Suc (Suc j)) (leb128 v) = take (Suc j) (leb128 v) @ [leb128 v ! Suc j]"
    using lt by (simp add: take_Suc_conv_app_nth)
  have "Suc j < 10" using lt varint_len_bounds(2) [of v] by (simp add: length_leb128)
  then show ?case
    using leb128_top [of j v] Suc.IH [of "Suc j"] Suc.prems lt
    by (subst read_varint_loop.simps) (simp add: d t nth_append)
qed

lemma after_varint_truncated:
  assumes "length payload \<le> 1048576" and "k < 8 + length payload"
  shows "after_varint decoder rd buf (word_of_nat (length payload)) (take k (u64_to_le r @ payload)) = Ok None"
proof (cases "k < 8")
  case True
  then show ?thesis by (simp add: after_varint_def stream_read_exact_def)
next
  case False
  then have t: "take k (u64_to_le r @ payload) = u64_to_le r @ take (k - 8) payload" by simp
  have "\<not> (word_of_nat (length payload) :: u64) > max_message_size"
    using assms(1) by (simp add: max_message_size_def word_less_nat_alt)
  moreover have "stream_read_exact (length payload) (take (k - 8) payload) = None" "payload \<noteq> []"
    using assms(2) False by (auto simp: stream_read_exact_def)
  ultimately show ?thesis
    unfolding t after_varint_def using assms(1) by simp
qed

lemma read_frame_truncated:
  assumes "length payload \<le> 1048576" and "k < length (frame_bytes t f r payload)"
  shows "read_frame decoder rd (take k (frame_bytes t f r payload)) = Ok None"
proof -
  define h where "h = [PROTOCOL_VERSION, t] @ u16_to_le (frame_flags_bits f)"
  define len :: u64 where "len = word_of_nat (length payload)"
  define L where "L = leb128 len"
  have h: "length h = 4" by (simp add: h_def)
  have fb: "frame_bytes t f r payload = h @ L @ u64_to_le r @ payload"
    by (simp add: frame_bytes_def frame_header_split h_def len_def L_def)
  consider "k < 5" | "5 \<le> k" "k < 4 + length L" | "4 + length L \<le> k" by linarith
  then show ?thesis
  proof cases
    case 1
    then show ?thesis by (simp add: read_frame_def stream_read_exact_def)
  next
    case 2
    define m where "m = k - 5"
    have t5: "take k (frame_bytes t f r payload) = (h @ take 1 L) @ take m (drop 1 L)"
    proof -
      have "k - 4 = 1 + m" "k - 4 \<le> length L" using 2 by (simp_all add: m_def)
      then have "take k (frame_bytes t f r payload) = h @ take (1 + m) L" using 2 h by (simp add: fb)
      then show ?thesis by (simp only: take_add append.assoc)
    qed
    have "length (h @ take 1 L) = 5" using h 2 by (cases L) simp_all
    then have "stream_read_exact 5 (take k (frame_bytes t f r payload)) = Some (h @ take 1 L, take m (drop 1 L))"
      unfolding t5 by (metis stream_read_exact_app)
    moreover have "read_varint_loop (h @ take (Suc 0) L) (Suc 0) (take m (drop (Suc 0) L)) = Ok None"
      using 2 unfolding L_def by (intro read_varint_loop_truncated) (simp add: m_def L_def)
    ultimately show ?thesis by (simp add: read_frame_def)
  next
    case 3
    define m where "m = k - (4 + length L)"
    have "take k (frame_bytes t f r payload) = h @ leb128 len @ take m (u64_to_le r @ payload)"
      using 3 h by (simp add: fb m_def L_def)
    then show ?thesis
      using after_varint_truncated [OF assms(1), of m decoder rd "h @ leb128 len" r] assms(2) 3 h
        read_frame_header [OF h, of decoder rd len "take m (u64_to_le r @ payload)"]
      by (simp add: fb m_def len_def)
  qed
qed

section \<open>From sender to receiver\<close>

text \<open>The zstd library as the code relies on it: a decoder gives back what was compressed.\<close>

definition zstd_lossless ::
  "(bytes \<Rightarrow> int \<Rightarrow> bytes option) \<Rightarrow> (bytes \<Rightarrow> 's option) \<Rightarrow> ('s \<Rightarrow> (bytes \<times> 's) option) \<Rightarrow> bool" where
  "zstd_lossless zstd decoder rd \<longleftrightarrow>
     (\<forall>data lvl c. zstd data lvl = Some c \<longrightarrow>
        c \<noteq> [] \<and> (\<exists>s. decoder c = Some s \<and> decoder_yields rd s data))"

lemma flags_compressed [simp]:
  "frame_compressed frame_flags_COMPRESSED" "\<not> frame_compressed frame_flags_NONE"
  by (simp_all add: frame_compressed_def frame_flags_COMPRESSED_def frame_flags_NONE_def)

lemma encode_message_eq:
  "message_encode m = Ok (ty, p) \<Longrightarrow>
     encode_message entropy zstd m rid = Ok (frame_bytes ty frame_flags_NONE rid p)"
  by (simp add: encode_message_def encode_message_compressed_def frame_message_eq)

lemma read_frame_plain:
  assumes "length p \<le> 1048576"
  shows "read_frame decoder rd (frame_bytes ty frame_flags_NONE rid p @ rest) =
           Ok (Some (\<lparr>frame_version = PROTOCOL_VERSION, frame_type_byte = ty, frame_flags = frame_flags_NONE,
                      frame_length = word_of_nat (length p), frame_request_id = rid, frame_payload = p\<rparr>, rest))"
  by (simp add: read_frame_bytes [OF assms])

text \<open>A sender's stream: the frames of its messages one after the other.\<close>

fun send_all ::
  "(bytes \<Rightarrow> real) \<Rightarrow> (bytes \<Rightarrow> int \<Rightarrow> bytes option) \<Rightarrow> (message \<times> u64) list \<Rightarrow> (protocol_error, bytes) res" where
  "send_all entropy zstd [] = Ok []"
| "send_all entropy zstd ((m, rid) # ms) =
     and_then (encode_message entropy zstd m rid) (\<lambda>b.
     and_then (send_all entropy zstd ms) (\<lambda>r. Ok (b @ r)))"

definition fits_frame :: "message \<Rightarrow> bool" where
  "fits_frame m \<longleftrightarrow> (case message_encode m of Ok (_, p) \<Rightarrow> length p \<le> 1048576 | _ \<Rightarrow> False)"

lemma send_all_read:
  assumes "\<forall>(m, rid) \<in> set ms. wf_message m \<and> fits_frame m"
  shows "\<exists>b. send_all entropy zstd ms = Ok b \<and>
           read_messages decoder rd (length ms) (b @ rest) = Ok (map (\<lambda>(m, rid). (on_the_wire m, rid)) ms)"
  using assms
proof (induction ms)
  case (Cons x ms)
  obtain m rid where x: "x = (m, rid)" by (cases x)
  obtain b where b: "send_all entropy zstd ms = Ok b"
      "read_messages decoder rd (length ms) (b @ rest) = Ok (map (\<lambda>(m, rid). (on_the_wire m, rid)) ms)"
    using Cons by auto
  obtain p where p: "message_encode m = Ok (type_byte m, p)" "message_decode (type_byte m) p = Ok (on_the_wire m)"
    using message_roundtrip [of m] Cons.prems x by auto
  then have "length p \<le> 1048576" using Cons.prems x by (simp add: fits_frame_def)
  note r = read_frame_plain [OF this, of decoder rd "type_byte m" rid "b @ rest"]
  show ?case using b p r by (simp add: x encode_message_eq [OF p(1)])
qed simp

lemma compressed_read:
  assumes z: "zstd_lossless zstd decoder rd"
    and m: "message_encode m = Ok (ty, p)"
    and c: "compress_if_beneficial entropy zstd p DEFAULT_MIN_SAVINGS = Some c"
    and l: "length c \<le> 1048576" "length p \<le> 16777216" "length p \<le> max 65536 (500 * length c)"
  shows "\<exists>b fr. encode_message_compressed entropy zstd m rid True = Ok b \<and>
           read_frame decoder rd (b @ rest) = Ok (Some (fr, rest)) \<and>
           frame_type_byte fr = ty \<and> frame_payload fr = p \<and> frame_request_id fr = rid"
proof -
  have "zstd p 3 = Some c" using c by (simp add: compress_if_beneficial_Some)
  then obtain s where s: "c \<noteq> []" "decoder c = Some s" "decoder_yields rd s p"
    using z unfolding zstd_lossless_def by blast
  have "decompress_payload_bounded decoder rd c MAX_BATCH_DECOMPRESSED_BYTES (Some 500) = Ok p"
    using decompress_loop_yields [OF s(3), of "[]" 16777216 "Some 500" "length c"] s l
    by (simp add: decompress_payload_bounded_def max_def mult.commute split: if_splits)
  then show ?thesis
    using m c l by (simp add: encode_message_compressed_def frame_message_eq read_frame_bytes)
qed

lemma compressed_rejected:
  assumes z: "zstd_lossless zstd decoder rd"
    and m: "message_encode m = Ok (ty, p)"
    and c: "compress_if_beneficial entropy zstd p DEFAULT_MIN_SAVINGS = Some c"
    and l: "length c \<le> 1048576" "length p > 65536" "length p > 500 * length c"
  shows "\<exists>b msg. encode_message_compressed entropy zstd m rid True = Ok b \<and>
           read_frame decoder rd (b @ rest) = Err (DecompressionBomb msg)"
proof -
  have "zstd p 3 = Some c" using c by (simp add: compress_if_beneficial_Some)
  then obtain s where s: "c \<noteq> []" "decoder c = Some s" "decoder_yields rd s p"
    using z unfolding zstd_lossless_def by blast
  have "\<exists>msg. decompress_payload_bounded decoder rd c MAX_BATCH_DECOMPRESSED_BYTES (Some 500) =
      Err (DecompressionBomb msg)"
    using decompress_loop_bomb [OF s(3), of "[]" 16777216 "length c" 500] s l
    by (simp add: decompress_payload_bounded_def max_def mult.commute split: if_splits)
  then show ?thesis
    using m c l by (auto simp: encode_message_compressed_def frame_message_eq read_frame_bytes)
qed

end
