(* ===== verification/Chunk_Aead.thy ===== *)
theory Chunk_Aead
  imports Frame Compression
begin

text \<open>
  Chunk encryption, \<open>crypto/chunk_aead.rs\<close>, and the data-frame encoders of
  \<open>protocol/frame.rs\<close> that compress and encrypt. The ring library is a parameter: \<open>seal\<close>
  gives a ciphertext and a tag, \<open>opn\<close> the plaintext or nothing, and the random nonce is an
  argument of the encryption (\<open>None\<close> when the generator fails). What the code relies on is
  stated by \<open>aead_correct\<close>: opening undoes sealing, and tags have 16 bytes. A moved chunk
  that still opens is shown to be a forgery of the cipher.
\<close>

section \<open>Definitions\<close>

definition NONCE_LEN :: nat where [simp]: "NONCE_LEN = 12"
definition TAG_LEN :: nat where [simp]: "TAG_LEN = 16"
definition ENVELOPE_OVERHEAD :: nat where [simp]: "ENVELOPE_OVERHEAD = NONCE_LEN + TAG_LEN"

datatype crypto_error =
    AuthenticationFailed
  | TruncatedCiphertext nat nat
  | InvalidKeyLength nat nat
  | Unspecified string

datatype cipher_suite = ChaCha20Poly1305 | Aes256Gcm

type_synonym seal_fn = "cipher_suite \<Rightarrow> bytes \<Rightarrow> bytes \<Rightarrow> bytes \<Rightarrow> bytes \<Rightarrow> (bytes \<times> bytes) option"
type_synonym open_fn = "cipher_suite \<Rightarrow> bytes \<Rightarrow> bytes \<Rightarrow> bytes \<Rightarrow> bytes \<Rightarrow> bytes option"

text \<open>An encryptor or decryptor holds the suite and the 32-byte key.\<close>

record chunk_cipher =
  cc_suite :: cipher_suite
  cc_key :: bytes

definition build_chunk_aad :: "transfer_id \<Rightarrow> u64 \<Rightarrow> u32 \<Rightarrow> ('e, bytes) res" where
  "build_chunk_aad tid chunk_offset chunk_index =
     and_then (copy_at (replicate 28 0) 0 (tid_bytes tid)) (\<lambda>aad.
     and_then (copy_at aad 16 (u64_to_le chunk_offset)) (\<lambda>aad.
     copy_at aad 24 (u32_to_le chunk_index)))"

definition nonce_try_assume_unique :: "bytes \<Rightarrow> (crypto_error, bytes) res" where
  "nonce_try_assume_unique n =
     (if length n = NONCE_LEN then Ok n else Err (Unspecified ''invalid nonce bytes for key''))"

definition encrypt_chunk ::
  "seal_fn \<Rightarrow> chunk_cipher \<Rightarrow> bytes option \<Rightarrow> transfer_id \<Rightarrow> u64 \<Rightarrow> u32 \<Rightarrow> bytes \<Rightarrow> (crypto_error, bytes) res" where
  "encrypt_chunk seal enc rng tid chunk_offset chunk_index plaintext =
     and_then (ok_or rng (Unspecified ''failed to generate random nonce'')) (\<lambda>nonce_bytes.
     and_then (nonce_try_assume_unique nonce_bytes) (\<lambda>nonce.
     and_then (build_chunk_aad tid chunk_offset chunk_index) (\<lambda>aad.
     and_then (ok_or (seal (cc_suite enc) (cc_key enc) nonce aad plaintext) (Unspecified ''sealing failed''))
       (\<lambda>(ciphertext, tag). Ok (nonce_bytes @ ciphertext @ tag)))))"

definition decrypt_chunk ::
  "open_fn \<Rightarrow> chunk_cipher \<Rightarrow> transfer_id \<Rightarrow> u64 \<Rightarrow> u32 \<Rightarrow> bytes \<Rightarrow> (crypto_error, bytes) res" where
  "decrypt_chunk opn dec tid chunk_offset chunk_index envelope =
     (if length envelope < ENVELOPE_OVERHEAD
      then Err (TruncatedCiphertext ENVELOPE_OVERHEAD (length envelope))
      else
        and_then (slice envelope 0 NONCE_LEN) (\<lambda>nonce_bytes.
        and_then (nonce_try_assume_unique nonce_bytes) (\<lambda>nonce.
        and_then (build_chunk_aad tid chunk_offset chunk_index) (\<lambda>aad.
        and_then (slice_from envelope NONCE_LEN) (\<lambda>in_out.
        ok_or (opn (cc_suite dec) (cc_key dec) nonce aad in_out) AuthenticationFailed)))))"

text \<open>The encoders of data frames.\<close>

definition encode_data_frame_maybe_compressed ::
  "(bytes \<Rightarrow> real) \<Rightarrow> (bytes \<Rightarrow> int \<Rightarrow> bytes option) \<Rightarrow> u64 \<Rightarrow> hash \<Rightarrow> bytes \<Rightarrow> bool \<Rightarrow> ('e, bytes \<times> bool) res" where
  "encode_data_frame_maybe_compressed entropy zstd chunk_offset chunk_hash payload enable_compression =
     (case (if enable_compression then compress_if_beneficial entropy zstd payload DEFAULT_MIN_SAVINGS else None) of
        Some compressed \<Rightarrow>
          and_then (encode_data_frame chunk_offset (word_of_nat (length compressed)) data_flags_COMPRESSED
                      chunk_hash compressed) (\<lambda>buf. Ok (buf, True))
      | None \<Rightarrow>
          and_then (encode_data_frame chunk_offset (word_of_nat (length payload)) data_flags_NONE
                      chunk_hash payload) (\<lambda>buf. Ok (buf, False)))"

definition encode_data_frame_adaptive ::
  "(bytes \<Rightarrow> real) \<Rightarrow> (bytes \<Rightarrow> int \<Rightarrow> bytes option) \<Rightarrow> u64 \<Rightarrow> hash \<Rightarrow> bytes \<Rightarrow> selector \<Rightarrow>
     ('e, selector \<times> bytes \<times> bool \<times> compression_decision) res" where
  "encode_data_frame_adaptive entropy zstd chunk_offset chunk_hash payload sel =
     (let (sel', maybe_compressed, decision) = process_payload entropy zstd sel payload in
      case maybe_compressed of
        Some compressed \<Rightarrow>
          and_then (encode_data_frame chunk_offset (word_of_nat (length compressed)) data_flags_COMPRESSED
                      chunk_hash compressed) (\<lambda>buf. Ok (sel', buf, True, decision))
      | None \<Rightarrow>
          and_then (encode_data_frame chunk_offset (word_of_nat (length payload)) data_flags_NONE
                      chunk_hash payload) (\<lambda>buf. Ok (sel', buf, False, decision)))"

definition data_flags_or :: "data_frame_flags \<Rightarrow> data_frame_flags \<Rightarrow> data_frame_flags" where
  "data_flags_or a b = data_flags_from_bits_truncate (or (data_flags_bits a) (data_flags_bits b))"

definition encode_data_frame_encrypted ::
  "(bytes \<Rightarrow> real) \<Rightarrow> (bytes \<Rightarrow> int \<Rightarrow> bytes option) \<Rightarrow> seal_fn \<Rightarrow> bytes option \<Rightarrow> u64 \<Rightarrow> u32 \<Rightarrow> transfer_id \<Rightarrow>
     hash \<Rightarrow> bytes \<Rightarrow> bool \<Rightarrow> chunk_cipher \<Rightarrow> (crypto_error, bytes) res" where
  "encode_data_frame_encrypted entropy zstd seal rng chunk_offset chunk_index tid chunk_hash payload
       enable_compression enc =
     (let (flags, body) =
        (case (if enable_compression then compress_if_beneficial entropy zstd payload DEFAULT_MIN_SAVINGS else None) of
           Some compressed \<Rightarrow> (data_flags_or data_flags_NONE data_flags_COMPRESSED, compressed)
         | None \<Rightarrow> (data_flags_NONE, payload))
      in
        and_then (encrypt_chunk seal enc rng tid chunk_offset chunk_index body) (\<lambda>envelope.
        let flags = data_flags_or flags data_flags_ENCRYPTED in
        encode_data_frame chunk_offset (word_of_nat (length envelope)) flags chunk_hash envelope))"

text \<open>\<open>bulk\<close> is \<open>zstd::bulk::decompress\<close>: the text of its error, or the data.\<close>

definition decode_data_frame_encrypted ::
  "open_fn \<Rightarrow> (bytes \<Rightarrow> nat \<Rightarrow> string + bytes) \<Rightarrow> data_frame_header \<Rightarrow> u32 \<Rightarrow> transfer_id \<Rightarrow> bytes \<Rightarrow>
     chunk_cipher \<Rightarrow> (crypto_error, bytes) res" where
  "decode_data_frame_encrypted opn bulk header chunk_index tid raw_payload dec =
     and_then (decrypt_chunk opn dec tid (dfh_chunk_offset header) chunk_index raw_payload) (\<lambda>plain.
     if data_compressed (dfh_flags header) then
       (case bulk plain (unat DATA_MAX_CHUNK_LEN) of
          Inl e \<Rightarrow> Err (Unspecified (''zstd decompression failed: '' @ e))
        | Inr decompressed \<Rightarrow> Ok decompressed)
     else Ok plain)"

section \<open>What the code relies on\<close>

definition aead_correct :: "seal_fn \<Rightarrow> open_fn \<Rightarrow> bool" where
  "aead_correct seal opn \<longleftrightarrow>
     (\<forall>suite key nonce aad pt ct tag. seal suite key nonce aad pt = Some (ct, tag) \<longrightarrow>
        length ct = length pt \<and> length tag = 16 \<and> opn suite key nonce aad (ct @ tag) = Some pt)"

text \<open>
  A forgery: a ciphertext that was sealed under some associated data opens under other
  associated data. An authenticated cipher makes forgeries infeasible to find; the
  development never assumes that there are none, since a 16-byte tag cannot rule them out.
\<close>

definition aead_forgery :: "seal_fn \<Rightarrow> open_fn \<Rightarrow> chunk_cipher \<Rightarrow> bytes \<Rightarrow> bool" where
  "aead_forgery seal opn c pt \<longleftrightarrow>
     (\<exists>nonce aad aad' ct tag x. seal (cc_suite c) (cc_key c) nonce aad pt = Some (ct, tag) \<and> aad' \<noteq> aad \<and>
        opn (cc_suite c) (cc_key c) nonce aad' (ct @ tag) = Some x)"

section \<open>Envelopes\<close>

lemma build_chunk_aad_eq:
  "wf_tid tid \<Longrightarrow> build_chunk_aad tid off idx = Ok (tid_bytes tid @ u64_to_le off @ u32_to_le idx)"
  by (simp add: build_chunk_aad_def wf_tid_def)

lemma build_chunk_aad_inj:
  assumes "wf_tid tid" and "wf_tid tid'"
    and "tid_bytes tid @ u64_to_le off @ u32_to_le idx = tid_bytes tid' @ u64_to_le off' @ u32_to_le idx'"
  shows "tid = tid' \<and> off = off' \<and> idx = idx'"
proof -
  have "tid_bytes tid = tid_bytes tid'" and r: "u64_to_le off @ u32_to_le idx = u64_to_le off' @ u32_to_le idx'"
    using assms by (simp_all add: wf_tid_def)
  moreover from r have "u64_to_le off = u64_to_le off'" "u32_to_le idx = u32_to_le idx'" by simp_all
  then have "off = off'" "idx = idx'" by (metis u64_of_to_le, metis u32_of_to_le)
  ultimately show ?thesis by (cases tid, cases tid') simp
qed

lemma encrypt_chunk_OkD:
  assumes "encrypt_chunk seal enc rng tid off idx pt = Ok env" and "wf_tid tid"
  obtains nonce ct tag where "rng = Some nonce" "length nonce = 12"
    "seal (cc_suite enc) (cc_key enc) nonce (tid_bytes tid @ u64_to_le off @ u32_to_le idx) pt = Some (ct, tag)"
    "env = nonce @ ct @ tag"
  using assms
  by (auto simp: encrypt_chunk_def build_chunk_aad_eq nonce_try_assume_unique_def res_simps split: if_splits)

lemma decrypt_chunk_eq:
  assumes "length nonce = 12" and "16 \<le> length body" and "wf_tid tid"
  shows "decrypt_chunk opn dec tid off idx (nonce @ body) =
           ok_or (opn (cc_suite dec) (cc_key dec) nonce (tid_bytes tid @ u64_to_le off @ u32_to_le idx) body)
             AuthenticationFailed"
  using assms by (simp add: decrypt_chunk_def nonce_try_assume_unique_def build_chunk_aad_eq)

lemma decrypt_encrypt:
  assumes "aead_correct seal opn" and "wf_tid tid" and "encrypt_chunk seal c rng tid off idx pt = Ok env"
  shows "decrypt_chunk opn c tid off idx env = Ok pt \<and> length env = length pt + ENVELOPE_OVERHEAD"
proof -
  obtain nonce ct tag where e: "length nonce = 12" "env = nonce @ ct @ tag"
    "seal (cc_suite c) (cc_key c) nonce (tid_bytes tid @ u64_to_le off @ u32_to_le idx) pt = Some (ct, tag)"
    using encrypt_chunk_OkD [OF assms(3,2)] by metis
  moreover from e(3) assms(1) have "length ct = length pt" "length tag = 16"
    "opn (cc_suite c) (cc_key c) nonce (tid_bytes tid @ u64_to_le off @ u32_to_le idx) (ct @ tag) = Some pt"
    unfolding aead_correct_def by blast+
  ultimately show ?thesis
    using assms(2) by (simp add: decrypt_chunk_eq)
qed

lemma decrypt_moved:
  assumes "aead_correct seal opn" and "wf_tid tid" and "wf_tid tid'"
    and "encrypt_chunk seal c rng tid off idx pt = Ok env" and "(tid', off', idx') \<noteq> (tid, off, idx)"
    and "\<not> aead_forgery seal opn c pt"
  shows "decrypt_chunk opn c tid' off' idx' env = Err AuthenticationFailed"
proof -
  obtain nonce ct tag where e: "length nonce = 12" "env = nonce @ ct @ tag"
    and s: "seal (cc_suite c) (cc_key c) nonce (tid_bytes tid @ u64_to_le off @ u32_to_le idx) pt = Some (ct, tag)"
    using encrypt_chunk_OkD [OF assms(4,2)] by metis
  have "length tag = 16" using s assms(1) unfolding aead_correct_def by blast
  moreover have "tid_bytes tid' @ u64_to_le off' @ u32_to_le idx' \<noteq> tid_bytes tid @ u64_to_le off @ u32_to_le idx"
    using build_chunk_aad_inj [OF assms(3,2)] assms(5) by blast
  then have "opn (cc_suite c) (cc_key c) nonce (tid_bytes tid' @ u64_to_le off' @ u32_to_le idx') (ct @ tag) = None"
    using s assms(6) unfolding aead_forgery_def by (meson not_None_eq)
  ultimately show ?thesis using e assms(3) by (simp add: decrypt_chunk_eq)
qed

section \<open>Encrypted frames\<close>

lemma data_flags_simps [simp]:
  "\<not> data_is_hole data_flags_NONE" "\<not> data_compressed data_flags_NONE"
  "\<not> data_is_hole data_flags_COMPRESSED" "data_compressed data_flags_COMPRESSED"
  "\<not> data_is_hole (data_flags_or data_flags_NONE data_flags_ENCRYPTED)"
  "\<not> data_compressed (data_flags_or data_flags_NONE data_flags_ENCRYPTED)"
  "\<not> data_is_hole (data_flags_or (data_flags_or data_flags_NONE data_flags_COMPRESSED) data_flags_ENCRYPTED)"
  "data_compressed (data_flags_or (data_flags_or data_flags_NONE data_flags_COMPRESSED) data_flags_ENCRYPTED)"
  by (simp_all add: data_is_hole_def data_compressed_def data_flags_NONE_def data_flags_COMPRESSED_def
      data_flags_ENCRYPTED_def data_flags_or_def data_flags_from_bits_truncate_def)

lemma encrypted_frame_bytes:
  assumes "aead_correct seal opn" and "wf_tid tid" and "wf_hash h"
    and "encode_data_frame_encrypted entropy zstd seal rng off idx tid h payload False c = Ok b"
  obtains env where
    "b = data_header_bytes off (word_of_nat (length env)) (data_flags_or data_flags_NONE data_flags_ENCRYPTED) h @ env"
    "decrypt_chunk opn c tid off idx env = Ok payload" "length env = length payload + 28"
proof -
  define fl where "fl = data_flags_or data_flags_NONE data_flags_ENCRYPTED"
  obtain env where env: "encrypt_chunk seal c rng tid off idx payload = Ok env"
    "(encode_data_frame off (word_of_nat (length env)) fl h env :: (crypto_error, bytes) res) = Ok b"
    using assms(4) by (auto simp: encode_data_frame_encrypted_def res_simps fl_def)
  have "b = data_header_bytes off (word_of_nat (length env)) fl h @ env"
    using env(2) assms(3) by (simp add: encode_data_frame_eq fl_def)
  then show ?thesis
    using that decrypt_encrypt [OF assms(1,2) env(1)] by (simp add: fl_def)
qed

lemma encrypted_frame_plain:
  assumes "aead_correct seal opn" and "wf_tid tid" and "wf_hash h"
    and "encode_data_frame_encrypted entropy zstd seal rng off idx tid h payload False c = Ok b"
    and "length payload \<le> 4194304 - 28"
  shows "\<exists>hdr raw. decode_data_frame_header b = Ok (hdr, raw) \<and> unat (dfh_chunk_len hdr) = length raw \<and>
           dfh_chunk_hash hdr = h \<and> decode_data_frame_encrypted opn bulk hdr idx tid raw c = Ok payload"
proof -
  obtain env where env:
    "b = data_header_bytes off (word_of_nat (length env)) (data_flags_or data_flags_NONE data_flags_ENCRYPTED) h @ env"
    "decrypt_chunk opn c tid off idx env = Ok payload" "length env = length payload + 28"
    by (rule encrypted_frame_bytes [OF assms(1-4)])
  have l: "length env \<le> 4194304" using env(3) assms(5) by linarith
  then have un: "unat (word_of_nat (length env) :: u32) = length env" by (simp add: unat_of_nat)
  then have "\<not> (word_of_nat (length env) :: u32) > DATA_MAX_CHUNK_LEN"
    using l by (simp add: word_less_nat_alt)
  then show ?thesis
    using env(2) un by (simp add: env(1) decode_data_header_bytes [OF assms(3)] decode_data_frame_encrypted_def)
qed

lemma encrypted_frame_overflow:
  assumes "aead_correct seal opn" and "wf_tid tid" and "wf_hash h"
    and "encode_data_frame_encrypted entropy zstd seal rng off idx tid h payload False c = Ok b"
    and "4194304 - 28 < length payload" and "length payload \<le> 4194304"
  shows "decode_data_frame_header b = Err (Malformed ''data frame: chunk_len > max'')"
proof -
  obtain env where env:
    "b = data_header_bytes off (word_of_nat (length env)) (data_flags_or data_flags_NONE data_flags_ENCRYPTED) h @ env"
    "decrypt_chunk opn c tid off idx env = Ok payload" "length env = length payload + 28"
    by (rule encrypted_frame_bytes [OF assms(1-4)])
  have l: "4194304 < length env" "length env \<le> 4194332" using env(3) assms(5,6) by linarith+
  then have "unat (word_of_nat (length env) :: u32) = length env" by (simp add: unat_of_nat)
  then have "(word_of_nat (length env) :: u32) > DATA_MAX_CHUNK_LEN"
    using l by (simp add: word_less_nat_alt)
  then show ?thesis by (simp add: env(1) decode_data_header_bytes [OF assms(3)])
qed

end
