(* ===== verification/Bitmap.thy ===== *)
theory Bitmap
  imports Msg_Resume
begin

text \<open>
  The progress bitmap of \<open>state/bitmap.rs\<close>. A \<open>BTreeSet<u64>\<close> is the ascending list of its
  elements, kept so by ordered insertion. The lemmas show the set operations against
  mathematical sets, that a duplicate chunk never counts its bytes twice, the round trip of
  the wire form, and what \<open>first_missing_from\<close> returns, its answer at the end of the index
  range included.
\<close>

section \<open>Definitions\<close>

record chunk_bitmap =
  bm_set :: "u64 list"
  bm_bytes_completed :: u64

definition bm_new :: chunk_bitmap where
  "bm_new = \<lparr>bm_set = [], bm_bytes_completed = 0\<rparr>"

definition bm_from_sorted_indices :: "u64 list \<Rightarrow> u64 \<Rightarrow> chunk_bitmap" where
  "bm_from_sorted_indices idx bytes_completed =
     \<lparr>bm_set = fold insort_insert idx [], bm_bytes_completed = bytes_completed\<rparr>"

definition bm_mark_complete :: "u64 \<Rightarrow> u64 \<Rightarrow> chunk_bitmap \<Rightarrow> chunk_bitmap \<times> bool" where
  "bm_mark_complete idx chunk_len bm =
     (if idx \<in> set (bm_set bm) then (bm, False)
      else (\<lparr>bm_set = insort_insert idx (bm_set bm),
             bm_bytes_completed = saturating_add (bm_bytes_completed bm) chunk_len\<rparr>, True))"

definition bm_contains :: "chunk_bitmap \<Rightarrow> u64 \<Rightarrow> bool" where
  "bm_contains bm idx \<longleftrightarrow> idx \<in> set (bm_set bm)"

definition bm_len :: "chunk_bitmap \<Rightarrow> nat" where
  "bm_len bm = length (bm_set bm)"

definition bm_is_empty :: "chunk_bitmap \<Rightarrow> bool" where
  "bm_is_empty bm \<longleftrightarrow> bm_set bm = []"

definition bm_missing_count :: "chunk_bitmap \<Rightarrow> u64 \<Rightarrow> u64" where
  "bm_missing_count bm total_chunks =
     (let completed = min (word_of_nat (length (bm_set bm))) total_chunks in
      saturating_sub total_chunks completed)"

lemma saturating_succ_less:
  "saturating_add i 1 \<noteq> (- 1 :: u64) \<Longrightarrow> unat (saturating_add i 1) = Suc (unat i)"
proof -
  assume a: "saturating_add i 1 \<noteq> (- 1 :: u64)"
  then have "unat i + 1 < 2 ^ 64" by (simp add: saturating_add_def split: if_splits)
  then show ?thesis by (simp add: unat_saturating_add)
qed

lemma saturating_succ_measure:
  "saturating_add i 1 \<noteq> (- 1 :: u64) \<Longrightarrow> (2 :: nat) ^ 64 - unat (saturating_add i 1) < 2 ^ 64 - unat i"
  using saturating_succ_less [of i] unat_less_2p [of i] by simp

function bm_first_missing_from :: "chunk_bitmap \<Rightarrow> u64 \<Rightarrow> u64 option" where
  "bm_first_missing_from bm i =
     (if i \<in> set (bm_set bm) then
        (if saturating_add i 1 = - 1 then None else bm_first_missing_from bm (saturating_add i 1))
      else Some i)"
  by pat_completeness auto
termination
  by (relation "measure (\<lambda>(bm, i). 2 ^ 64 - unat i)") 
    (simp, simp only: in_measure prod.case, erule saturating_succ_measure)

declare bm_first_missing_from.simps [simp del]

definition bm_encode :: "chunk_bitmap \<Rightarrow> u64 \<Rightarrow> (protocol_error, bytes) res" where
  "bm_encode bm max_entries =
     (let n = (word_of_nat (length (bm_set bm)) :: u64) in
      if n > max_entries \<or> n > MAX_WIRE_CHUNKS then Err (Malformed ''too many completed chunks'')
      else
        and_then (varint_bytes n) (\<lambda>v.
        and_then (encode_indices (bm_set bm)) (\<lambda>idx. Ok (v @ idx))))"

definition bm_decode :: "bytes \<Rightarrow> u64 \<Rightarrow> (protocol_error, chunk_bitmap) res" where
  "bm_decode buf bytes_completed =
     and_then (decode_varint buf) (\<lambda>(n, pos).
     if n > MAX_WIRE_CHUNKS then Err (Malformed ''too many completed chunks'')
     else
       and_then (decode_indices buf pos (unat n) None ''truncated chunk index''
                   ''non-monotonic chunk index list'') (\<lambda>idx.
       Ok \<lparr>bm_set = fold insort_insert idx [], bm_bytes_completed = bytes_completed\<rparr>))"

text \<open>The invariant of the ordered set.\<close>

definition bm_inv :: "chunk_bitmap \<Rightarrow> bool" where
  "bm_inv bm \<longleftrightarrow> sorted_wrt (<) (bm_set bm)"

section \<open>Ordered sets\<close>

lemma strict_sorted_insort: "sorted_wrt (<) xs \<Longrightarrow> sorted_wrt (<) (insort_insert (x :: u64) xs)"
  by (simp add: strict_sorted_iff distinct_insort_insert sorted_insort_insert)

lemma fold_insort_inv: "sorted_wrt (<) ys \<Longrightarrow> sorted_wrt (<) (fold insort_insert (xs :: u64 list) ys)"
  by (induction xs arbitrary: ys) (simp_all add: strict_sorted_insort)

lemma set_fold_insort: "set (fold insort_insert (xs :: u64 list) ys) = set xs \<union> set ys"
  by (induction xs arbitrary: ys) (auto simp: set_insort_insert)

lemma fold_insort_strict: "sorted_wrt (<) (xs :: u64 list) \<Longrightarrow> fold insort_insert xs [] = xs"
  by (intro strict_sorted_equal) (auto simp: fold_insort_inv set_fold_insort)

section \<open>Marking\<close>

lemma bm_inv_new: "bm_inv bm_new"
  by (simp add: bm_inv_def bm_new_def)

lemma bm_inv_mark: "bm_inv bm \<Longrightarrow> bm_inv (fst (bm_mark_complete i n bm))"
  by (simp add: bm_inv_def bm_mark_complete_def strict_sorted_insort)

lemma bm_set_mark: "set (bm_set (fst (bm_mark_complete i n bm))) = insert i (set (bm_set bm))"
  by (auto simp: bm_mark_complete_def set_insort_insert)

interpretation bm_grow: grow_set "\<lambda>(i, n) bm. fst (bm_mark_complete i n bm)" "\<lambda>bm (i, n). bm_contains bm i"
  bm_inv "\<lambda>_. True"
  by unfold_locales (auto simp: bm_inv_mark bm_contains_def bm_set_mark)

text \<open>
  The byte total after any sequence of marks: the sum over the first mark of each index,
  capped at the largest \<open>u64\<close>.
\<close>

fun first_marks :: "u64 list \<Rightarrow> (u64 \<times> u64) list \<Rightarrow> nat" where
  "first_marks seen [] = 0"
| "first_marks seen ((i, n) # ms) =
     (if i \<in> set seen then first_marks seen ms else unat n + first_marks (i # seen) ms)"

lemma first_marks_cong: "set s = set t \<Longrightarrow> first_marks s ms = first_marks t ms"
proof (induction ms arbitrary: s t)
  case (Cons m ms)
  obtain i n where "m = (i, n)" by (cases m)
  then show ?case using Cons.IH [of "i # s" "i # t"] Cons.IH [of s t] Cons.prems by auto
qed simp

lemma bm_bytes_marks:
  "unat (bm_bytes_completed (fold (\<lambda>(i, n) bm. fst (bm_mark_complete i n bm)) ms bm)) =
     min (unat (bm_bytes_completed bm) + first_marks (bm_set bm) ms) (2 ^ 64 - 1)"
proof (induction ms arbitrary: bm)
  case Nil
  then show ?case using unat_less_2p [of "bm_bytes_completed bm"] by (simp add: min_def)
next
  case (Cons m ms)
  obtain i n where m: "m = (i, n)" by (cases m)
  show ?case
  proof (cases "i \<in> set (bm_set bm)")
    case True
    then show ?thesis using Cons.IH [of bm] by (simp add: m bm_mark_complete_def)
  next
    case False
    define bm' where "bm' = fst (bm_mark_complete i n bm)"
    have b: "unat (bm_bytes_completed bm') = min (unat (bm_bytes_completed bm) + unat n) (2 ^ 64 - 1)"
      using False by (simp add: bm'_def bm_mark_complete_def unat_saturating_add)
    have "first_marks (bm_set bm') ms = first_marks (i # bm_set bm) ms"
      by (rule first_marks_cong) (simp add: bm'_def bm_set_mark)
    then show ?thesis
      using False Cons.IH [of bm'] b by (simp add: m bm'_def [symmetric] min_def)
  qed
qed

section \<open>Searching\<close>

lemma le_from_succ:
  assumes "saturating_add i 1 \<noteq> (- 1 :: u64)"
  shows "i \<le> k \<longleftrightarrow> k = i \<or> saturating_add i 1 \<le> k"
  using saturating_succ_less [OF assms]
  by (auto simp: word_le_nat_alt word_unat_eq_iff)

lemma bm_first_missing_Some:
  "bm_first_missing_from bm i = Some j \<Longrightarrow>
     i \<le> j \<and> \<not> bm_contains bm j \<and> (\<forall>k. i \<le> k \<and> k < j \<longrightarrow> bm_contains bm k)"
proof (induction bm i rule: bm_first_missing_from.induct)
  case (1 bm i)
  show ?case
  proof (cases "i \<in> set (bm_set bm)")
    case True
    then have s: "saturating_add i 1 \<noteq> - 1" "bm_first_missing_from bm (saturating_add i 1) = Some j"
      using 1(2) by (auto simp: bm_first_missing_from.simps [of bm i] split: if_splits)
    from 1(1) [OF True s] show ?thesis
      using True le_from_succ [OF s(1)] by (auto simp: bm_contains_def)
  next
    case False
    then show ?thesis
      using 1(2) by (auto simp: bm_first_missing_from.simps [of bm i] bm_contains_def)
  qed
qed

lemma bm_first_missing_None:
  "bm_first_missing_from bm i = None \<longleftrightarrow>
     bm_contains bm i \<and> (\<forall>k. i \<le> k \<and> k < - 1 \<longrightarrow> bm_contains bm k)"
proof (induction bm i rule: bm_first_missing_from.induct)
  case (1 bm i)
  show ?case
  proof (cases "i \<in> set (bm_set bm)")
    case True
    show ?thesis
    proof (cases "saturating_add i 1 = - 1")
      case max: True
      have "k = i" if "i \<le> k" "k < - 1" for k
      proof -
        have "unat (saturating_add i 1) = 2 ^ 64 - 1"
          using max by (simp add: unsigned_minus_1_eq_mask mask_eq_exp_minus_1)
        then have "2 ^ 64 - 1 \<le> unat i + 1" using unat_saturating_add [of i 1] by (simp add: min_def split: if_splits)
        moreover have "unat k < 2 ^ 64 - 1"
          using that(2) by (simp add: word_less_nat_alt unsigned_minus_1_eq_mask mask_eq_exp_minus_1)
        ultimately show ?thesis using that(1) by (simp add: word_le_nat_alt word_unat_eq_iff)
      qed
      then show ?thesis using True max by (auto simp: bm_first_missing_from.simps [of bm i] bm_contains_def)
    next
      case ne: False
      have "saturating_add i 1 < - 1" using ne by (simp add: word_order.not_eq_extremum)
      then show ?thesis
        using True ne 1(1) [OF True ne] le_from_succ [OF ne]
        by (auto simp: bm_first_missing_from.simps [of bm i] bm_contains_def)
    qed
  next
    case False
    then show ?thesis by (simp add: bm_first_missing_from.simps [of bm i] bm_contains_def)
  qed
qed

section \<open>Wire form\<close>

lemma bm_decode_encode:
  assumes "bm_inv bm" and "length (bm_set bm) \<le> 1000000" and "word_of_nat (length (bm_set bm)) \<le> max_entries"
  shows "\<exists>b. bm_encode bm max_entries = Ok b \<and> bm_decode b (bm_bytes_completed bm) = Ok bm"
proof -
  define xs where "xs = bm_set bm"
  define n :: u64 where "n = word_of_nat (length xs)"
  have wf: "sorted_wrt (<) xs" "length xs \<le> 1000000" "n \<le> max_entries"
    using assms by (simp_all add: bm_inv_def xs_def n_def)
  have un: "unat n = length xs" using wf by (simp add: n_def)
  then have nl: "\<not> n > MAX_WIRE_CHUNKS" using wf by (simp add: word_less_nat_alt)
  have "decode_indices (leb128 n @ concat (map leb128 xs)) (varint_len n) (length xs) None t nm = Ok xs" for t nm
    using wf by (intro decode_indices_concat [where rest = "[]"]) simp_all
  then show ?thesis
    using nl wf un
    by (simp add: bm_encode_def bm_decode_def Let_def xs_def [symmetric] n_def [symmetric] not_less fold_insort_strict)
qed

lemma bm_decode_inv: "bm_decode buf n = Ok bm \<Longrightarrow> bm_inv bm"
  by (auto simp: bm_decode_def res_simps bm_inv_def fold_insort_inv split: if_splits)

end
