(* ===== verification/Rle.thy ===== *)
theory Rle
  imports Wire_Fields
begin

text \<open>
  The run-length encoded have/need bitmap of \<open>sync/rle.rs\<close>. The lemmas show that runs and
  bits convert into each other without loss, that the counters agree with the bits, that
  lookup is indexing, and that the wire form decodes to the bitmap it came from. The decoder
  never panics, and every bitmap it returns satisfies the invariant.
\<close>

unbundle bit_operations_syntax

section \<open>Definitions\<close>

datatype sync_error =
    Rle string
  | Bloom string
  | Inventory string
  | Reconstruction string
  | HashMismatch string string

record rle_run =
  run_bit :: bool
  run_count :: u32

record rle_bitmap =
  rle_runs :: "rle_run list"
  rle_total_chunks :: u32
  rle_have_count :: u32

definition rle_default :: rle_bitmap where
  "rle_default = \<lparr>rle_runs = [], rle_total_chunks = 0, rle_have_count = 0\<rparr>"

text \<open>The loop of \<open>from_bits\<close>: finished runs, the current bit and count, and the have count.\<close>

fun from_bits_loop ::
  "bool list \<Rightarrow> rle_run list \<Rightarrow> bool \<Rightarrow> u32 \<Rightarrow> u32 \<Rightarrow> rle_run list \<times> bool \<times> u32 \<times> u32" where
  "from_bits_loop [] runs current_bit current_count have = (runs, current_bit, current_count, have)"
| "from_bits_loop (b # bs) runs current_bit current_count have =
     (let have = (if b then saturating_add have 1 else have) in
      if b = current_bit
      then from_bits_loop bs runs current_bit (saturating_add current_count 1) have
      else from_bits_loop bs (runs @ [\<lparr>run_bit = current_bit, run_count = current_count\<rparr>]) b 1 have)"

definition rle_from_bits :: "bool list \<Rightarrow> rle_bitmap" where
  "rle_from_bits bits =
     (if bits = [] then rle_default
      else
        (let (runs, current_bit, current_count, have) = from_bits_loop bits [] (hd bits) 0 0;
             runs = (if current_count > 0 then runs @ [\<lparr>run_bit = current_bit, run_count = current_count\<rparr>] else runs)
         in \<lparr>rle_runs = runs, rle_total_chunks = word_of_nat (length bits), rle_have_count = have\<rparr>))"

fun from_runs_loop :: "rle_run list \<Rightarrow> u32 \<Rightarrow> u32 \<Rightarrow> (sync_error, u32 \<times> u32) res" where
  "from_runs_loop [] tot have = Ok (tot, have)"
| "from_runs_loop (run # runs) tot have =
     (if run_count run = 0 then Err (Rle ''run count cannot be zero'')
      else
        and_then (ok_or (checked_add tot (run_count run)) (Rle ''total chunk count overflowed u32'')) (\<lambda>tot.
        and_then (if run_bit run
                  then ok_or (checked_add have (run_count run)) (Rle ''have count overflowed u32'')
                  else Ok have) (\<lambda>have.
        from_runs_loop runs tot have)))"

definition rle_from_runs :: "rle_run list \<Rightarrow> (sync_error, rle_bitmap) res" where
  "rle_from_runs runs =
     and_then (from_runs_loop runs 0 0) (\<lambda>(tot, have).
     Ok \<lparr>rle_runs = runs, rle_total_chunks = tot, rle_have_count = have\<rparr>)"

definition rle_need_count :: "rle_bitmap \<Rightarrow> u32" where
  "rle_need_count bm = saturating_sub (rle_total_chunks bm) (rle_have_count bm)"

fun rle_get_loop :: "rle_run list \<Rightarrow> nat \<Rightarrow> nat \<Rightarrow> bool option" where
  "rle_get_loop [] i cursor = None"
| "rle_get_loop (run # runs) i cursor =
     (let next = cursor + unat (run_count run) in
      if i < next then Some (run_bit run) else rle_get_loop runs i next)"

definition rle_get :: "rle_bitmap \<Rightarrow> nat \<Rightarrow> bool option" where
  "rle_get bm i = (if i \<ge> unat (rle_total_chunks bm) then None else rle_get_loop (rle_runs bm) i 0)"

fun run_bits :: "rle_run list \<Rightarrow> bool list" where
  "run_bits [] = []"
| "run_bits (run # runs) = replicate (unat (run_count run)) (run_bit run) @ run_bits runs"

definition rle_to_bits :: "rle_bitmap \<Rightarrow> bool list" where
  "rle_to_bits bm = run_bits (rle_runs bm)"

definition run_payload :: "rle_run \<Rightarrow> u64" where
  "run_payload run = push_bit 1 (ucast (run_count run)) OR (if run_bit run then 1 else 0)"

fun rle_encode_runs :: "rle_run list \<Rightarrow> (sync_error, bytes) res" where
  "rle_encode_runs [] = Ok []"
| "rle_encode_runs (run # runs) =
     and_then (varint_bytes (run_payload run)) (\<lambda>v.
     and_then (rle_encode_runs runs) (\<lambda>r. Ok (v @ r)))"

definition rle_encode :: "rle_bitmap \<Rightarrow> (sync_error, bytes) res" where
  "rle_encode bm = rle_encode_runs (rle_runs bm)"

text \<open>The \<open>Display\<close> text of the three errors of \<open>decode_varint\<close>.\<close>

definition varint_error_text :: "protocol_error \<Rightarrow> string" where
  "varint_error_text e =
     (if e = Empty then ''input is empty''
      else if e = NonCanonicalVarint then ''non-canonical varint encoding''
      else ''varint overflow (>10 bytes)'')"

function rle_decode_loop ::
  "bytes \<Rightarrow> nat \<Rightarrow> u32 \<Rightarrow> u32 \<Rightarrow> (sync_error, rle_run list \<times> u32 \<times> u32) res" where
  "rle_decode_loop buf offset tot have =
     (if offset < length buf then
        and_then (map_err (\<lambda>e. Rle (''varint decode failed: '' @ varint_error_text e))
                    (and_then (slice_from buf offset) decode_varint)) (\<lambda>(val, consumed).
        let bit = (val AND 1 = 1); count_u64 = drop_bit 1 val in
        if count_u64 = 0 then Err (Rle ''decoded zero run count'')
        else if count_u64 > 0xFFFFFFFF then Err (Rle ''run count exceeds u32::MAX'')
        else
          let count = (ucast count_u64 :: u32) in
          and_then (ok_or (checked_add tot count) (Rle ''total chunk count overflowed'')) (\<lambda>tot.
          and_then (if bit then ok_or (checked_add have count) (Rle ''have count overflowed'') else Ok have) (\<lambda>have.
          and_then (rle_decode_loop buf (offset + consumed) tot have) (\<lambda>(runs, tot, have).
          Ok (\<lparr>run_bit = bit, run_count = count\<rparr> # runs, tot, have)))))
      else Ok ([], tot, have))"
  by pat_completeness auto
termination
proof (relation "measure (\<lambda>(buf, offset, tot, have). length buf - offset)")
qed (auto simp: res_simps dest!: decode_varint_bounds)

declare rle_decode_loop.simps [simp del]

definition rle_decode :: "bytes \<Rightarrow> u32 \<Rightarrow> (sync_error, rle_bitmap) res" where
  "rle_decode buf expected_total_chunks =
     (if expected_total_chunks = 0 then
        (if buf \<noteq> [] then Err (Rle ''expected 0 chunks but buffer not empty'') else Ok rle_default)
      else
        and_then (rle_decode_loop buf 0 0 0) (\<lambda>(runs, total_chunks, have_count).
        if total_chunks \<noteq> expected_total_chunks
        then Err (Rle (''chunk count mismatch: expected '' @ show_nat (unat expected_total_chunks)
               @ '', decoded '' @ show_nat (unat total_chunks)))
        else Ok \<lparr>rle_runs = runs, rle_total_chunks = total_chunks, rle_have_count = have_count\<rparr>))"

text \<open>The invariant: no empty run, and counters that agree with the runs.\<close>

definition runs_total :: "rle_run list \<Rightarrow> nat" where
  "runs_total runs = sum_list (map (\<lambda>r. unat (run_count r)) runs)"

definition runs_have :: "rle_run list \<Rightarrow> nat" where
  "runs_have runs = sum_list (map (\<lambda>r. if run_bit r then unat (run_count r) else 0) runs)"

definition rle_inv :: "rle_bitmap \<Rightarrow> bool" where
  "rle_inv bm \<longleftrightarrow> (\<forall>r \<in> set (rle_runs bm). run_count r \<noteq> 0)
     \<and> unat (rle_total_chunks bm) = runs_total (rle_runs bm)
     \<and> unat (rle_have_count bm) = runs_have (rle_runs bm)"

section \<open>Bits and runs\<close>

lemma length_run_bits: "length (run_bits runs) = runs_total runs"
  by (induction runs) (simp_all add: runs_total_def)

lemma count_run_bits: "length (filter (\<lambda>b. b) (run_bits runs)) = runs_have runs"
  by (induction runs) (simp_all add: runs_have_def filter_replicate)

lemma runs_have_le: "runs_have runs \<le> runs_total runs"
  by (induction runs) (auto simp: runs_have_def runs_total_def)

lemma run_bits_append: "run_bits (xs @ ys) = run_bits xs @ run_bits ys"
  by (induction xs) simp_all

lemma unat_sat_succ: "unat c + n < 2 ^ 32 \<Longrightarrow> 0 < n \<Longrightarrow> unat (saturating_add c 1 :: u32) = Suc (unat c)"
  by (simp add: unat_saturating_add)

lemma from_bits_loop_spec:
  assumes "from_bits_loop bs runs cb cc hv = (runs', cb', cc', hv')"
    and "unat cc + length bs < 2 ^ 32" and "unat hv + length bs < 2 ^ 32"
    and "\<forall>r \<in> set runs. run_count r \<noteq> 0" and "runs \<noteq> [] \<longrightarrow> cc \<noteq> 0" and "bs \<noteq> [] \<longrightarrow> cc = 0 \<longrightarrow> hd bs = cb"
  shows "run_bits runs' @ replicate (unat cc') cb' = run_bits runs @ replicate (unat cc) cb @ bs
    \<and> unat hv' = unat hv + length (filter (\<lambda>b. b) bs)
    \<and> (\<forall>r \<in> set runs'. run_count r \<noteq> 0)"
  using assms
proof (induction bs arbitrary: runs cb cc hv)
  case (Cons b bs)
  define h where "h = (if b then saturating_add hv 1 else hv)"
  have h: "unat h = unat hv + (if b then 1 else 0)"
    using Cons.prems(3) unat_sat_succ [of hv "length (b # bs)"] by (simp add: h_def)
  show ?case
  proof (cases "b = cb")
    case True
    have c: "unat (saturating_add cc 1) = Suc (unat cc)"
      using Cons.prems(2) unat_sat_succ [of cc "length (b # bs)"] by simp
    then have ne: "saturating_add cc 1 \<noteq> 0" by auto
    have l: "from_bits_loop bs runs cb (saturating_add cc 1) h = (runs', cb', cc', hv')"
      using Cons.prems(1) True by (simp add: h_def Let_def)
    have "unat (saturating_add cc 1) + length bs < 2 ^ 32" "unat h + length bs < 2 ^ 32"
      using Cons.prems(2,3) c h by auto
    from Cons.IH [OF l this Cons.prems(4)] ne
    have "run_bits runs' @ replicate (unat cc') cb' = run_bits runs @ replicate (Suc (unat cc)) cb @ bs
      \<and> unat hv' = unat h + length (filter (\<lambda>b. b) bs) \<and> (\<forall>r \<in> set runs'. run_count r \<noteq> 0)"
      by (simp only: c) simp
    moreover have "replicate (Suc (unat cc)) cb @ bs = replicate (unat cc) cb @ b # bs"
      using True by (simp add: replicate_app_Cons_same)
    ultimately show ?thesis using h by simp
  next
    case False
    then have cc: "cc \<noteq> 0" using Cons.prems(6) by auto
    have l: "from_bits_loop bs (runs @ [\<lparr>run_bit = cb, run_count = cc\<rparr>]) b 1 h = (runs', cb', cc', hv')"
      using Cons.prems(1) False by (simp add: h_def Let_def)
    have "unat (1 :: u32) + length bs < 2 ^ 32" "unat h + length bs < 2 ^ 32"
      using Cons.prems(2,3) h by auto
    from Cons.IH [OF l this] Cons.prems(4) cc
    have "run_bits runs' @ replicate (unat cc') cb' = run_bits (runs @ [\<lparr>run_bit = cb, run_count = cc\<rparr>]) @ b # bs
      \<and> unat hv' = unat h + length (filter (\<lambda>b. b) bs) \<and> (\<forall>r \<in> set runs'. run_count r \<noteq> 0)"
      by simp
    then show ?thesis using h by (simp add: run_bits_append)
  qed
qed simp

lemma rle_from_bits_spec:
  assumes "length bits < 2 ^ 32"
  shows "rle_inv (rle_from_bits bits) \<and> rle_to_bits (rle_from_bits bits) = bits \<and>
         unat (rle_total_chunks (rle_from_bits bits)) = length bits \<and>
         unat (rle_have_count (rle_from_bits bits)) = length (filter (\<lambda>b. b) bits)"
proof (cases "bits = []")
  case True
  then show ?thesis
    by (simp add: rle_from_bits_def rle_default_def rle_inv_def rle_to_bits_def runs_total_def runs_have_def)
next
  case False
  obtain runs cb cc hv where l: "from_bits_loop bits [] (hd bits) 0 0 = (runs, cb, cc, hv)"
    by (metis prod_cases4)
  have sp: "run_bits runs @ replicate (unat cc) cb = bits" "unat hv = length (filter (\<lambda>b. b) bits)"
      "\<forall>r \<in> set runs. run_count r \<noteq> 0"
    using from_bits_loop_spec [OF l] assms by simp_all
  define rs where "rs = (if cc > 0 then runs @ [\<lparr>run_bit = cb, run_count = cc\<rparr>] else runs)"
  have rs: "run_bits rs = bits" "\<forall>r \<in> set rs. run_count r \<noteq> 0"
    using sp by (auto simp: rs_def run_bits_append word_gt_0)
  have bm: "rle_from_bits bits = \<lparr>rle_runs = rs, rle_total_chunks = word_of_nat (length bits), rle_have_count = hv\<rparr>"
    using False l by (simp add: rle_from_bits_def rs_def)
  have "unat (word_of_nat (length bits) :: u32) = length bits" using assms by simp
  then show ?thesis
    using rs sp length_run_bits [of rs] count_run_bits [of rs] by (simp add: bm rle_inv_def rle_to_bits_def)
qed

lemma rle_get_loop_nth:
  "cursor \<le> i \<Longrightarrow> i < cursor + runs_total runs \<Longrightarrow> rle_get_loop runs i cursor = Some (run_bits runs ! (i - cursor))"
proof (induction runs arbitrary: cursor)
  case (Cons r runs)
  then show ?case by (auto simp: Let_def runs_total_def nth_append)
qed (simp add: runs_total_def)

lemma rle_get_nth: "rle_inv bm \<Longrightarrow> i < unat (rle_total_chunks bm) \<Longrightarrow> rle_get bm i = Some (rle_to_bits bm ! i)"
  using rle_get_loop_nth [of 0 i "rle_runs bm"] by (simp add: rle_get_def rle_inv_def rle_to_bits_def)

section \<open>Wire form\<close>

lemma rle_encode_runs_eq: "rle_encode_runs runs = Ok (concat (map (\<lambda>r. leb128 (run_payload r)) runs))"
  by (induction runs) simp_all

lemma bit_run_payload:
  "bit (run_payload r) j \<longleftrightarrow> (if j = 0 then run_bit r else bit (run_count r) (j - 1))"
proof (cases j)
  case 0
  then show ?thesis by (simp add: run_payload_def bit_0 even_or_iff)
next
  case (Suc i)
  then show ?thesis
    using bit_imp_le_length [of "run_count r" i]
    unfolding run_payload_def bit_or_iff bit_push_bit_iff
    by (auto simp: bit_unsigned_iff bit_1_iff)
qed

lemma run_payload_parts:
  "drop_bit 1 (run_payload r) = ucast (run_count r)" "run_payload r AND 1 = 1 \<longleftrightarrow> run_bit r"
proof -
  show "drop_bit 1 (run_payload r) = ucast (run_count r)"
    by (rule bit_eqI) (auto simp: bit_drop_bit_eq bit_run_payload bit_unsigned_iff)
  have "run_payload r AND 1 = of_bool (odd (run_payload r))" by (simp add: and_one_eq mod_2_eq_odd)
  moreover have "odd (run_payload r) \<longleftrightarrow> run_bit r"
    using bit_run_payload [of r 0] by (simp add: bit_0)
  ultimately show "run_payload r AND 1 = 1 \<longleftrightarrow> run_bit r" by simp
qed

lemma ucast_count [simp]: "ucast (ucast (c :: u32) :: u64) = c"
  by (rule bit_eqI) (auto simp: bit_unsigned_iff)

lemma unat_ucast_count [simp]: "unat (ucast (c :: u32) :: u64) = unat c"
  using unat_less_2p [of c] by (simp add: unsigned_ucast_eq take_bit_nat_eq_self)

lemma ucast_count_eq_0 [simp]: "(ucast (c :: u32) :: u64) = 0 \<longleftrightarrow> c = 0"
  by (metis ucast_count unsigned_0)

lemma rle_decode_loop_encode:
  assumes "drop off buf = concat (map (\<lambda>r. leb128 (run_payload r)) runs)" and "off \<le> length buf"
    and "\<forall>r \<in> set runs. run_count r \<noteq> 0"
    and "unat tot + runs_total runs < 2 ^ 32" and "unat hv + runs_have runs < 2 ^ 32"
  shows "rle_decode_loop buf off tot hv =
           Ok (runs, word_of_nat (unat tot + runs_total runs), word_of_nat (unat hv + runs_have runs))"
  using assms
proof (induction runs arbitrary: off tot hv)
  case Nil
  then show ?case by (simp add: rle_decode_loop.simps [of buf off] runs_total_def runs_have_def)
next
  case (Cons r runs)
  define v where "v = run_payload r"
  have d: "drop off buf = leb128 v @ concat (map (\<lambda>r. leb128 (run_payload r)) runs)"
    using Cons.prems(1) by (simp add: v_def)
  have off: "off < length buf" using d by (metis append_is_Nil_conv drop_all leb128_nonempty not_le)
  have lb: "off + varint_len v \<le> length buf" using arg_cong [OF d, of length] off by simp
  have c0: "run_count r \<noteq> 0" using Cons.prems(3) by simp
  have val: "drop_bit 1 v = ucast (run_count r)" "(v AND 1 = 1) = run_bit r"
    unfolding v_def by (rule run_payload_parts)+
  have big: "\<not> (ucast (run_count r) :: u64) > 0xFFFFFFFF" "(ucast (run_count r) :: u64) \<noteq> 0"
    using unat_less_2p [of "run_count r"] c0 by (simp_all add: word_less_nat_alt)
  have t: "unat tot + unat (run_count r) < 2 ^ 32" using Cons.prems(4) by (simp add: runs_total_def)
  have h: "run_bit r \<Longrightarrow> unat hv + unat (run_count r) < 2 ^ 32" using Cons.prems(5) by (simp add: runs_have_def)
  define tot' where "tot' = tot + run_count r"
  define hv' where "hv' = (if run_bit r then hv + run_count r else hv)"
  have ut: "unat tot' = unat tot + unat (run_count r)" using t by (simp add: tot'_def unat_word_ariths)
  have uh: "unat hv' = unat hv + (if run_bit r then unat (run_count r) else 0)"
    using h by (simp add: hv'_def unat_word_ariths)
  have ca: "checked_add tot (run_count r) = Some tot'"
      "(if run_bit r then ok_or (checked_add hv (run_count r)) e else Ok hv) = Ok hv'" for e
    using t h by (simp_all add: checked_add_def tot'_def hv'_def)
  have "drop (off + varint_len v) buf = concat (map (\<lambda>r. leb128 (run_payload r)) runs)"
    using drop_after [OF d] by simp
  from Cons.IH [OF this lb] Cons.prems(3-5) ut uh
  have IH: "rle_decode_loop buf (off + varint_len v) tot' hv' =
      Ok (runs, word_of_nat (unat tot + runs_total (r # runs)), word_of_nat (unat hv + runs_have (r # runs)))"
    by (auto simp add: runs_total_def runs_have_def add.assoc tot'_def hv'_def)
  have dv: "and_then (slice_from buf off) decode_varint = Ok (v, varint_len v)" using off d by simp
  show ?case
    unfolding rle_decode_loop.simps [of buf off]
    using off big
    by (simp only: dv map_err.simps and_then.simps prod.case Let_def val ucast_count ca ok_or_simps IH
        if_True if_False simp_thms) simp
qed

lemma rle_decode_encode:
  assumes "rle_inv bm"
  shows "and_then (rle_encode bm) (\<lambda>b. rle_decode b (rle_total_chunks bm)) = Ok bm"
proof (cases "rle_total_chunks bm = 0")
  case True
  then have "rle_runs bm = []"
    using assms by (cases "rle_runs bm") (auto simp: rle_inv_def runs_total_def word_unat_eq_iff)
  then show ?thesis
    using True assms
    by (cases bm) (simp add: rle_encode_def rle_decode_def rle_default_def rle_inv_def runs_have_def word_unat_eq_iff)
next
  case False
  have "unat (rle_total_chunks bm) < 2 ^ 32" using unat_less_2p [of "rle_total_chunks bm"] by simp
  then have b: "runs_total (rle_runs bm) < 2 ^ 32" "runs_have (rle_runs bm) < 2 ^ 32"
    using assms runs_have_le [of "rle_runs bm"] by (auto simp: rle_inv_def)
  define buf where "buf = concat (map (\<lambda>r. leb128 (run_payload r)) (rle_runs bm))"
  have "rle_decode_loop buf 0 0 0 = Ok (rle_runs bm, word_of_nat (runs_total (rle_runs bm)), word_of_nat (runs_have (rle_runs bm)))"
    using rle_decode_loop_encode [of 0 buf "rle_runs bm" 0 0] assms b by (simp add: buf_def rle_inv_def)
  moreover have "runs_total (rle_runs bm) = unat (rle_total_chunks bm)"
      "runs_have (rle_runs bm) = unat (rle_have_count bm)"
    using assms by (simp_all add: rle_inv_def)
  ultimately show ?thesis
    using False by (simp add: rle_encode_def rle_encode_runs_eq rle_decode_def buf_def)
qed

section \<open>The decoder\<close>

lemma rle_decode_loop_no_panic [no_panic]: "rle_decode_loop buf off tot hv \<noteq> Panic"
proof (induction buf off tot hv rule: rle_decode_loop.induct)
  case (1 buf off tot hv)
  show ?case
    unfolding rle_decode_loop.simps [of buf off]
    by (intro no_panic 1) (auto simp: res_simps Let_def)
qed

lemma rle_decode_no_panic: "rle_decode buf n \<noteq> Panic"
  unfolding rle_decode_def by (intro no_panic)

lemma rle_decode_loop_OkD:
  assumes "rle_decode_loop buf off tot hv = Ok (runs, tot', hv')"
  shows "(\<forall>r \<in> set runs. run_count r \<noteq> 0) \<and> unat tot' = unat tot + runs_total runs
    \<and> unat hv' = unat hv + runs_have runs"
  using assms
proof (induction buf off tot hv arbitrary: runs tot' hv' rule: rle_decode_loop.induct)
  case (1 buf off tot hv)
  show ?case
  proof (cases "off < length buf")
    case True
    obtain v n where v: "decode_varint (drop off buf) = Ok (v, n)"
      using 1(2) True by (auto simp: rle_decode_loop.simps [of buf off] res_simps)
    define c where "c = (ucast (drop_bit 1 v) :: u32)"
    define b where "b = (v AND 1 = 1)"
    have step: "rle_decode_loop buf off tot hv =
       (if drop_bit 1 v = 0 then Err (Rle ''decoded zero run count'')
        else if drop_bit 1 v > 0xFFFFFFFF then Err (Rle ''run count exceeds u32::MAX'')
        else and_then (ok_or (checked_add tot c) (Rle ''total chunk count overflowed'')) (\<lambda>tot.
          and_then (if b then ok_or (checked_add hv c) (Rle ''have count overflowed'') else Ok hv) (\<lambda>hv.
          and_then (rle_decode_loop buf (off + n) tot hv) (\<lambda>(runs, tot, hv).
          Ok (\<lparr>run_bit = b, run_count = c\<rparr> # runs, tot, hv)))))"
      unfolding rle_decode_loop.simps [of buf off tot hv] c_def b_def Let_def using True v by simp
    have nz: "drop_bit 1 v \<noteq> 0" "\<not> drop_bit 1 v > 0xFFFFFFFF"
      using 1(2) unfolding step by (auto split: if_splits)
    obtain t1 h1 runs1 where
      t1: "checked_add tot c = Some t1"
      and h1: "(if b then ok_or (checked_add hv c) (Rle ''have count overflowed'') else Ok hv) = Ok h1"
      and r: "rle_decode_loop buf (off + n) t1 h1 = Ok (runs1, tot', hv')"
      and runs: "runs = \<lparr>run_bit = b, run_count = c\<rparr> # runs1"
      using 1(2) nz unfolding step by (auto simp: res_simps)
    have IH: "(\<forall>r \<in> set runs1. run_count r \<noteq> 0) \<and> unat tot' = unat t1 + runs_total runs1
        \<and> unat hv' = unat h1 + runs_have runs1"
      by (rule 1(1) [OF True, of "(v, n)" v n b "drop_bit 1 v" c t1 h1])
        (use True v nz t1 h1 r in \<open>simp_all add: b_def c_def\<close>)
    have "unat c = unat (drop_bit 1 v)"
      using nz(2) by (simp add: c_def word_less_nat_alt unsigned_ucast_eq take_bit_nat_eq_self not_less)
    then have "c \<noteq> 0" using nz(1) by (auto simp: word_unat_eq_iff)
    moreover have "unat t1 = unat tot + unat c"
      using t1 by (auto simp: unat_checked_add unat_word_ariths)
    moreover have "unat h1 = unat hv + (if b then unat c else 0)"
      using h1 by (auto simp: res_simps unat_checked_add unat_word_ariths split: if_splits)
    ultimately show ?thesis
      using IH by (simp add: runs runs_total_def runs_have_def)
  next
    case False
    then show ?thesis using 1(2) by (simp add: rle_decode_loop.simps [of buf off] runs_total_def runs_have_def)
  qed
qed

lemma rle_decode_inv: "rle_decode buf n = Ok bm \<Longrightarrow> rle_inv bm \<and> rle_total_chunks bm = n"
  by (auto simp: rle_decode_def rle_default_def rle_inv_def runs_total_def runs_have_def res_simps
      dest!: rle_decode_loop_OkD split: if_splits prod.splits)

end
