(* ===== verification/Bloom_Filter.thy ===== *)
theory Bloom_Filter
  imports Rle
begin

text \<open>
  The Bloom filter of \<open>sync/bloom.rs\<close> and the chunk inventory of \<open>sync/inventory.rs\<close> that fills
  it. Indexing of the bit set is checked, so an out-of-range probe is a panic of the model.
  The lemmas show that no operation on a well-formed filter panics, that every inserted hash
  is found again, also after more insertions and after a trip over the wire, and that an
  inventory keeps the first extent of each chunk. The sizing formula of \<open>BloomFilter::new\<close>
  uses \<open>f64\<close>; its two results are a parameter.
\<close>

unbundle bit_operations_syntax

section \<open>Definitions\<close>

definition MAX_BLOOM_BITS :: u32 where "MAX_BLOOM_BITS = 16 * 1024 * 1024 * 8"

definition MIN_BLOOM_BITS :: u32 where "MIN_BLOOM_BITS = 64"

record bloom_filter =
  bf_num_bits :: u32
  bf_num_hashes :: u8
  bf_bitset :: bytes

definition clamp :: "'a::linorder \<Rightarrow> 'a \<Rightarrow> 'a \<Rightarrow> 'a" where
  "clamp lo hi x = (if x < lo then lo else if x > hi then hi else x)"

definition bf_with_dimensions :: "u32 \<Rightarrow> u8 \<Rightarrow> bloom_filter" where
  "bf_with_dimensions num_bits num_hashes =
     (let num_bits = clamp MIN_BLOOM_BITS MAX_BLOOM_BITS num_bits;
          num_hashes = clamp 1 16 num_hashes;
          byte_len = (unat num_bits + 7) div 8
      in \<lparr>bf_num_bits = num_bits, bf_num_hashes = num_hashes, bf_bitset = replicate byte_len 0\<rparr>)"

text \<open>\<open>BloomFilter::new\<close>: \<open>sizing\<close> stands for the two \<open>f64\<close> formulas, before their clamps.\<close>

definition bf_new :: "(nat \<Rightarrow> 'f \<Rightarrow> u32 \<times> u8) \<Rightarrow> nat \<Rightarrow> 'f \<Rightarrow> bloom_filter" where
  "bf_new sizing expected_items fp_rate =
     (let (m_bits, k) = sizing (max expected_items 1) fp_rate;
          num_bits = clamp MIN_BLOOM_BITS MAX_BLOOM_BITS m_bits;
          num_hashes = clamp 1 16 k
      in bf_with_dimensions num_bits num_hashes)"

definition bf_from_bytes :: "bytes \<Rightarrow> u32 \<Rightarrow> u8 \<Rightarrow> (sync_error, bloom_filter) res" where
  "bf_from_bytes bitset num_bits num_hashes =
     (if num_bits < MIN_BLOOM_BITS \<or> num_bits > MAX_BLOOM_BITS
      then Err (Bloom (''invalid bit count '' @ show_nat (unat num_bits)))
      else if num_hashes = 0 \<or> num_hashes > 16
      then Err (Bloom (''invalid hash count '' @ show_nat (unat num_hashes)))
      else
        let expected_bytes = (unat num_bits + 7) div 8 in
        if length bitset \<noteq> expected_bytes
        then Err (Bloom (''bitset length mismatch: expected '' @ show_nat expected_bytes @ '' bytes, got ''
                         @ show_nat (length bitset)))
        else Ok \<lparr>bf_num_bits = num_bits, bf_num_hashes = num_hashes, bf_bitset = bitset\<rparr>)"

definition bf_to_bytes :: "bloom_filter \<Rightarrow> bytes" where
  "bf_to_bytes f = bf_bitset f"

definition hash_pair :: "hash \<Rightarrow> (sync_error, u64 \<times> u64) res" where
  "hash_pair h =
     and_then (slice (hash_bytes h) 0 8) (\<lambda>b1.
     and_then (slice (hash_bytes h) 8 16) (\<lambda>b2.
     Ok (u64_of_le b1, u64_of_le b2 OR 1)))"

definition bit_idx :: "bloom_filter \<Rightarrow> u64 \<Rightarrow> u64 \<Rightarrow> nat \<Rightarrow> u64" where
  "bit_idx f h1 h2 i = (h1 + word_of_nat i * h2) mod ucast (bf_num_bits f)"

fun bf_insert_loop :: "bloom_filter \<Rightarrow> u64 \<Rightarrow> u64 \<Rightarrow> nat list \<Rightarrow> (sync_error, bloom_filter) res" where
  "bf_insert_loop f h1 h2 [] = Ok f"
| "bf_insert_loop f h1 h2 (i # is) =
     (let idx = bit_idx f h1 h2 i; byte_idx = unat (idx div 8); bit_pos = unat (idx mod 8) in
      and_then (index (bf_bitset f) byte_idx) (\<lambda>b.
      bf_insert_loop (f\<lparr>bf_bitset := (bf_bitset f)[byte_idx := b OR push_bit bit_pos 1]\<rparr>) h1 h2 is))"

definition bf_insert :: "bloom_filter \<Rightarrow> hash \<Rightarrow> (sync_error, bloom_filter) res" where
  "bf_insert f h =
     and_then (hash_pair h) (\<lambda>(h1, h2). bf_insert_loop f h1 h2 [0..<unat (bf_num_hashes f)])"

fun bf_contains_loop :: "bloom_filter \<Rightarrow> u64 \<Rightarrow> u64 \<Rightarrow> nat list \<Rightarrow> (sync_error, bool) res" where
  "bf_contains_loop f h1 h2 [] = Ok True"
| "bf_contains_loop f h1 h2 (i # is) =
     (let idx = bit_idx f h1 h2 i; byte_idx = unat (idx div 8); bit_pos = unat (idx mod 8) in
      and_then (index (bf_bitset f) byte_idx) (\<lambda>b.
      if b AND push_bit bit_pos 1 = 0 then Ok False else bf_contains_loop f h1 h2 is))"

definition bf_contains :: "bloom_filter \<Rightarrow> hash \<Rightarrow> (sync_error, bool) res" where
  "bf_contains f h =
     and_then (hash_pair h) (\<lambda>(h1, h2). bf_contains_loop f h1 h2 [0..<unat (bf_num_hashes f)])"

text \<open>The loop of \<open>LocalInventory::create_bloom_filter\<close>.\<close>

fun bf_insert_all :: "bloom_filter \<Rightarrow> hash list \<Rightarrow> (sync_error, bloom_filter) res" where
  "bf_insert_all f [] = Ok f"
| "bf_insert_all f (h # hs) = and_then (bf_insert f h) (\<lambda>f. bf_insert_all f hs)"

text \<open>
  The inventory. The hash map is the association list of its entries in insertion order, so
  \<open>keys\<close> has an order; nothing below depends on which.
\<close>

record chunk_extent =
  ext_offset :: u64
  ext_length :: u64

record local_inventory =
  inv_chunks :: "(hash \<times> chunk_extent) list"
  inv_total_bytes :: u64
  inv_total_chunks :: nat
  inv_whole_hash :: "hash option"

definition inv_from_extents ::
  "(hash \<times> chunk_extent) list \<Rightarrow> u64 \<Rightarrow> nat \<Rightarrow> hash option \<Rightarrow> local_inventory" where
  "inv_from_extents chunks total_bytes total_chunks whole_hash =
     \<lparr>inv_chunks = chunks, inv_total_bytes = total_bytes, inv_total_chunks = total_chunks,
      inv_whole_hash = whole_hash\<rparr>"

definition inv_contains :: "local_inventory \<Rightarrow> hash \<Rightarrow> bool" where
  "inv_contains li h \<longleftrightarrow> map_of (inv_chunks li) h \<noteq> None"

definition inv_lookup :: "local_inventory \<Rightarrow> hash \<Rightarrow> chunk_extent option" where
  "inv_lookup li h = map_of (inv_chunks li) h"

definition inv_unique_chunks :: "local_inventory \<Rightarrow> nat" where
  "inv_unique_chunks li = length (inv_chunks li)"

definition create_bloom_filter ::
  "(nat \<Rightarrow> 'f \<Rightarrow> u32 \<times> u8) \<Rightarrow> local_inventory \<Rightarrow> 'f \<Rightarrow> (sync_error, bloom_filter) res" where
  "create_bloom_filter sizing li fp_rate =
     bf_insert_all (bf_new sizing (length (inv_chunks li)) fp_rate) (map fst (inv_chunks li))"

text \<open>The invariant of a filter.\<close>

definition bf_inv :: "bloom_filter \<Rightarrow> bool" where
  "bf_inv f \<longleftrightarrow> MIN_BLOOM_BITS \<le> bf_num_bits f \<and> bf_num_bits f \<le> MAX_BLOOM_BITS
     \<and> 1 \<le> bf_num_hashes f \<and> bf_num_hashes f \<le> 16
     \<and> length (bf_bitset f) = (unat (bf_num_bits f) + 7) div 8"

fun ok_or_old :: "('e, 'a) res \<Rightarrow> 'a \<Rightarrow> 'a" where
  "ok_or_old (Ok x) _ = x"
| "ok_or_old _ y = y"

section \<open>Construction\<close>

lemma bf_inv_with_dimensions: "bf_inv (bf_with_dimensions m k)"
  by (auto simp: bf_inv_def bf_with_dimensions_def Let_def clamp_def MIN_BLOOM_BITS_def MAX_BLOOM_BITS_def not_less
      word_le_nat_alt unat_gt_0 Suc_le_eq)

lemma bf_inv_new: "bf_inv (bf_new sizing n fp)"
  by (simp add: bf_new_def bf_inv_with_dimensions split: prod.splits)

lemma bf_from_bytes_inv: "bf_from_bytes b m k = Ok f \<Longrightarrow> bf_inv f"
  by (auto simp: bf_from_bytes_def bf_inv_def Let_def not_less word_le_nat_alt split: if_splits)
    (metis One_nat_def Suc_leI unat_gt_0)

lemma bf_from_to_bytes:
  "bf_inv f \<Longrightarrow> bf_from_bytes (bf_to_bytes f) (bf_num_bits f) (bf_num_hashes f) = Ok f"
  by (auto simp: bf_from_bytes_def bf_inv_def bf_to_bytes_def Let_def not_less)

section \<open>Probing\<close>

definition hash_words :: "hash \<Rightarrow> u64 \<times> u64" where
  "hash_words h = (u64_of_le (take 8 (hash_bytes h)), u64_of_le (take 8 (drop 8 (hash_bytes h))) OR 1)"

lemma hash_pair_eq: "hash_pair h = (if length (hash_bytes h) < 16 then Panic else Ok (hash_words h))"
  by (auto simp: hash_pair_def hash_words_def slice_def)

lemma unat_bit_idx: "bf_inv f \<Longrightarrow> unat (bit_idx f h1 h2 i) < unat (bf_num_bits f)"
proof -
  assume "bf_inv f"
  then have "0 < unat (bf_num_bits f)" by (auto simp: bf_inv_def MIN_BLOOM_BITS_def word_le_nat_alt)
  then show ?thesis by (simp add: bit_idx_def unat_mod)
qed

lemma bit_idx_in_range: "bf_inv f \<Longrightarrow> unat (bit_idx f h1 h2 i div 8) < length (bf_bitset f)"
  using unat_bit_idx [of f h1 h2 i] by (simp add: bf_inv_def unat_div)

lemma bit_pos_lt: "unat (w mod 8 :: u64) < 8"
  by (simp add: unat_mod)

lemma test_bit: "n < 8 \<Longrightarrow> (b :: byte) AND 2 ^ n = 0 \<longleftrightarrow> \<not> bit b n"
  by (auto simp: bit_eq_iff [where 'a = "8 word"] bit_and_iff bit_exp_iff)

text \<open>The bit a probe reads, and a filter with one more bit.\<close>

definition bf_bit :: "bloom_filter \<Rightarrow> u64 \<Rightarrow> bool" where
  "bf_bit f idx \<longleftrightarrow> bit (bf_bitset f ! unat (idx div 8)) (unat (idx mod 8))"

definition bf_set_bit :: "bloom_filter \<Rightarrow> u64 \<Rightarrow> bloom_filter" where
  "bf_set_bit f idx =
     f\<lparr>bf_bitset := (bf_bitset f)[unat (idx div 8) := bf_bitset f ! unat (idx div 8) OR 2 ^ unat (idx mod 8)]\<rparr>"

lemma bf_contains_loop_eq:
  "bf_inv f \<Longrightarrow> bf_contains_loop f h1 h2 is = Ok (\<forall>i \<in> set is. bf_bit f (bit_idx f h1 h2 i))"
  by (induction "is") (auto simp: Let_def bit_idx_in_range bit_pos_lt test_bit bf_bit_def)

lemma bf_contains_eq:
  "bf_inv f \<Longrightarrow> bf_contains f h = (if length (hash_bytes h) < 16 then Panic else
     Ok (\<forall>i < unat (bf_num_hashes f). bf_bit f (bit_idx f (fst (hash_words h)) (snd (hash_words h)) i)))"
  by (auto simp: bf_contains_def bf_contains_loop_eq hash_pair_eq split: prod.splits)

lemma bf_set_bit_dims [simp]:
  "bf_num_bits (bf_set_bit f idx) = bf_num_bits f" "bf_num_hashes (bf_set_bit f idx) = bf_num_hashes f"
  by (simp_all add: bf_set_bit_def)

lemma bf_set_bit_inv [simp]: "bf_inv (bf_set_bit f idx) \<longleftrightarrow> bf_inv f"
  by (simp add: bf_set_bit_def bf_inv_def)

lemma bit_idx_set_bit [simp]: "bit_idx (bf_set_bit f idx) = bit_idx f"
  by (intro ext) (simp add: bit_idx_def)

lemma bf_bit_set_bit:
  assumes "bf_inv f" and "unat (idx div 8) < length (bf_bitset f)"
  shows "bf_bit (bf_set_bit f idx) j \<longleftrightarrow> j = idx \<or> bf_bit f j"
proof -
  have j: "j = idx \<longleftrightarrow> unat (j div 8) = unat (idx div 8) \<and> unat (j mod 8) = unat (idx mod 8)"
    by (simp add: word_unat_eq_iff unat_div unat_mod) (metis mult_div_mod_eq)
  show ?thesis
    using assms(2) bit_pos_lt [of j] 
    by (auto simp: j bf_bit_def bf_set_bit_def nth_list_update bit_or_iff bit_exp_iff)
qed

lemma bf_insert_loop_spec:
  assumes "bf_inv f"
  shows "\<exists>f'. bf_insert_loop f h1 h2 is = Ok f' \<and> bf_inv f' \<and> bf_num_bits f' = bf_num_bits f
    \<and> bf_num_hashes f' = bf_num_hashes f
    \<and> (\<forall>j. bf_bit f' j \<longleftrightarrow> bf_bit f j \<or> (\<exists>i \<in> set is. j = bit_idx f h1 h2 i))"
  using assms
proof (induction "is" arbitrary: f)
  case (Cons i "is")
  let ?f = "bf_set_bit f (bit_idx f h1 h2 i)"
  have r: "unat (bit_idx f h1 h2 i div 8) < length (bf_bitset f)" by (rule bit_idx_in_range [OF Cons.prems])
  have "bf_insert_loop f h1 h2 (i # is) = bf_insert_loop ?f h1 h2 is"
    using r by (simp add: Let_def bf_set_bit_def)
  moreover have "bf_inv ?f" using Cons.prems by simp
  from Cons.IH [OF this] obtain f' where "bf_insert_loop ?f h1 h2 is = Ok f'" "bf_inv f'"
    "bf_num_bits f' = bf_num_bits f" "bf_num_hashes f' = bf_num_hashes f"
    "\<forall>j. bf_bit f' j \<longleftrightarrow> bf_bit ?f j \<or> (\<exists>i \<in> set is. j = bit_idx f h1 h2 i)" by auto
  ultimately show ?case using bf_bit_set_bit [OF Cons.prems r] by auto
qed simp

lemma bf_insert_spec:
  assumes "bf_inv f" and "wf_hash h"
  shows "\<exists>f'. bf_insert f h = Ok f' \<and> bf_inv f' \<and> bf_num_bits f' = bf_num_bits f
    \<and> bf_num_hashes f' = bf_num_hashes f
    \<and> (\<forall>j. bf_bit f' j \<longleftrightarrow> bf_bit f j \<or>
          (\<exists>i < unat (bf_num_hashes f). j = bit_idx f (fst (hash_words h)) (snd (hash_words h)) i))"
  using bf_insert_loop_spec [OF assms(1), of "fst (hash_words h)" "snd (hash_words h)" "[0..<unat (bf_num_hashes f)]"] assms(2)
  by (simp add: bf_insert_def hash_pair_eq wf_hash_def Bex_def split_beta)

lemma bf_insert_step:
  assumes "bf_inv f" and "wf_hash x"
  shows "\<exists>f'. bf_insert f x = Ok f' \<and> bf_inv f' \<and> bf_contains f' x = Ok True
    \<and> (\<forall>y. bf_contains f y = Ok True \<longrightarrow> bf_contains f' y = Ok True)"
proof -
  obtain f' where f': "bf_insert f x = Ok f'" "bf_inv f'" "bf_num_bits f' = bf_num_bits f"
    "bf_num_hashes f' = bf_num_hashes f"
    "\<forall>j. bf_bit f' j \<longleftrightarrow> bf_bit f j \<or>
          (\<exists>i < unat (bf_num_hashes f). j = bit_idx f (fst (hash_words x)) (snd (hash_words x)) i)"
    using bf_insert_spec [OF assms] by blast
  have b: "bit_idx f' = bit_idx f" using f'(3) by (intro ext) (simp add: bit_idx_def)
  show ?thesis
    using f' assms by (auto simp: bf_contains_eq b wf_hash_def split: if_splits)
qed

section \<open>No false negatives\<close>

interpretation bf_grow: grow_set "\<lambda>x f. ok_or_old (bf_insert f x) f" "\<lambda>f x. bf_contains f x = Ok True" bf_inv wf_hash
proof unfold_locales
  fix f x y
  assume a: "bf_inv f" "wf_hash x"
  show "bf_inv (ok_or_old (bf_insert f x) f)" using bf_insert_step [OF a] by fastforce
  show "bf_contains (ok_or_old (bf_insert f x) f) x = Ok True" using bf_insert_step [OF a] by fastforce
  assume "bf_contains f y = Ok True"
  then show "bf_contains (ok_or_old (bf_insert f x) f) y = Ok True" using bf_insert_step [OF a] by fastforce
qed

lemma bf_insert_all_fold:
  "bf_inv f \<Longrightarrow> \<forall>x \<in> set xs. wf_hash x \<Longrightarrow> bf_insert_all f xs = Ok (fold (\<lambda>x f. ok_or_old (bf_insert f x) f) xs f)"
proof (induction xs arbitrary: f)
  case (Cons x xs)
  then obtain f' where "bf_insert f x = Ok f'" "bf_inv f'" using bf_insert_step [of f x] by auto
  then show ?case using Cons by simp
qed simp

lemma bf_no_false_negatives:
  assumes "bf_inv f" and "\<forall>x \<in> set xs. wf_hash x"
  shows "\<exists>f'. bf_insert_all f xs = Ok f' \<and> bf_inv f' \<and> (\<forall>x \<in> set xs. bf_contains f' x = Ok True)"
  using bf_insert_all_fold [OF assms] bf_grow.fold_inv [OF assms] bf_grow.no_false_negative [OF assms]
  by blast

lemma bf_empty_contains_nothing: "wf_hash h \<Longrightarrow> bf_contains (bf_with_dimensions m k) h = Ok False"
proof -
  assume h: "wf_hash h"
  let ?f = "bf_with_dimensions m k"
  have inv: "bf_inv ?f" by (rule bf_inv_with_dimensions)
  have "\<not> bf_bit ?f (bit_idx ?f h1 h2 0)" for h1 h2
  proof -
    have "bf_bitset ?f = replicate (length (bf_bitset ?f)) 0" by (simp add: bf_with_dimensions_def Let_def)
    then have "bf_bitset ?f ! unat (bit_idx ?f h1 h2 0 div 8) = 0"
      using bit_idx_in_range [OF inv] by (metis nth_replicate)
    then show ?thesis by (simp add: bf_bit_def)
  qed
  moreover have "0 < unat (bf_num_hashes ?f)" using inv by (auto simp: bf_inv_def word_le_nat_alt)
  ultimately show ?thesis using h by (auto simp: bf_contains_eq [OF inv] wf_hash_def)
qed

end
