(* ===== verification/Virtual_Path.thy ===== *)
theory Virtual_Path
  imports Wire_Errors "HOL-Library.Sublist"
begin

text \<open>
  Virtual paths, \<open>VPath\<close> of \<open>storage/mod.rs\<close>: validation of a raw path, parents, and the
  lexical check of symlink targets. A path is the UTF-8 byte string of the source. The lemmas
  show that a path is accepted unchanged or not at all, that no component of an accepted path
  is empty, \<open>.\<close> or \<open>..\<close>, that parents of accepted paths are accepted, and that a symlink
  target that passes the check, read with \<open>/\<close> as the separator, never climbs above the
  virtual root, provided it has no backslash; with one it can.
\<close>

section \<open>Strings\<close>

text \<open>\<open>str::split\<close> on an ASCII separator, and joining.\<close>

fun split_by :: "(byte \<Rightarrow> bool) \<Rightarrow> bytes \<Rightarrow> bytes list" where
  "split_by P [] = [[]]"
| "split_by P (b # s) =
     (if P b then [] # split_by P s
      else (case split_by P s of c # cs \<Rightarrow> (b # c) # cs | [] \<Rightarrow> [[b]]))"

fun join_by :: "byte \<Rightarrow> bytes list \<Rightarrow> bytes" where
  "join_by sep [] = []"
| "join_by sep [c] = c"
| "join_by sep (c # cs) = c @ sep # join_by sep cs"

text \<open>\<open>str::replace\<close> for a non-empty pattern, \<open>contains\<close>, and the ASCII case maps.\<close>

function str_replace :: "bytes \<Rightarrow> bytes \<Rightarrow> bytes \<Rightarrow> bytes" where
  "str_replace pat new [] = []"
| "str_replace pat new (b # s) =
     (if prefix pat (b # s) then new @ str_replace pat new (drop (length pat - 1) s)
      else b # str_replace pat new s)"
  by pat_completeness auto
termination
  by (relation "measure (\<lambda>(pat, new, s). length s)") auto

fun str_contains :: "bytes \<Rightarrow> bytes \<Rightarrow> bool" where
  "str_contains pat [] \<longleftrightarrow> pat = []"
| "str_contains pat (b # s) \<longleftrightarrow> prefix pat (b # s) \<or> str_contains pat s"

definition to_ascii_lowercase :: "bytes \<Rightarrow> bytes" where
  "to_ascii_lowercase s = map (\<lambda>b. if 0x41 \<le> b \<and> b \<le> 0x5A then b + 0x20 else b) s"

definition to_ascii_uppercase :: "bytes \<Rightarrow> bytes" where
  "to_ascii_uppercase s = map (\<lambda>b. if 0x61 \<le> b \<and> b \<le> 0x7A then b - 0x20 else b) s"

text \<open>
  \<open>chars().any(is_control)\<close>: the control characters are U+0000 to U+001F, U+007F, and U+0080
  to U+009F, the latter encoded as \<open>C2 80\<close> to \<open>C2 9F\<close>.
\<close>

fun has_control :: "bytes \<Rightarrow> bool" where
  "has_control [] \<longleftrightarrow> False"
| "has_control (b # s) \<longleftrightarrow>
     b < 0x20 \<or> b = 0x7F
     \<or> (b = 0xC2 \<and> (case s of c # _ \<Rightarrow> 0x80 \<le> c \<and> c \<le> 0x9F | [] \<Rightarrow> False))
     \<or> has_control s"

text \<open>\<open>str::trim\<close>: the Unicode white space characters by their encodings.\<close>

definition white_space :: "bytes list" where
  "white_space =
     map (\<lambda>b. [b]) [0x09, 0x0A, 0x0B, 0x0C, 0x0D, 0x20]
     @ [[0xC2, 0x85], [0xC2, 0xA0], [0xE1, 0x9A, 0x80]]
     @ map (\<lambda>b. [0xE2, 0x80, b])
         [0x80, 0x81, 0x82, 0x83, 0x84, 0x85, 0x86, 0x87, 0x88, 0x89, 0x8A, 0xA8, 0xA9, 0xAF]
     @ [[0xE2, 0x81, 0x9F], [0xE3, 0x80, 0x80]]"

definition ws_prefix :: "bytes \<Rightarrow> nat" where
  "ws_prefix s = (case List.find (\<lambda>w. prefix w s) white_space of Some w \<Rightarrow> length w | None \<Rightarrow> 0)"

definition ws_suffix :: "bytes \<Rightarrow> nat" where
  "ws_suffix s = (case List.find (\<lambda>w. suffix w s) white_space of Some w \<Rightarrow> length w | None \<Rightarrow> 0)"

function trim_start :: "bytes \<Rightarrow> bytes" where
  "trim_start s = (if ws_prefix s = 0 \<or> s = [] then s else trim_start (drop (ws_prefix s) s))"
  by pat_completeness auto
termination
  by (relation "measure length") auto

function trim_end :: "bytes \<Rightarrow> bytes" where
  "trim_end s = (if ws_suffix s = 0 \<or> s = [] then s else trim_end (take (length s - ws_suffix s) s))"
  by pat_completeness auto
termination
  by (relation "measure length") auto

declare trim_start.simps [simp del] trim_end.simps [simp del]

definition trim :: "bytes \<Rightarrow> bytes" where
  "trim s = trim_end (trim_start s)"

abbreviation slash :: byte where "slash \<equiv> 0x2F"
abbreviation backslash :: byte where "backslash \<equiv> 0x5C"
abbreviation dot :: byte where "dot \<equiv> 0x2E"

section \<open>Definitions\<close>

datatype vpath_error =
    Empty
  | ForbiddenChar
  | ComponentTooLong nat nat
  | TooLong nat nat
  | Absolute
  | Traversal
  | EscapesRoot
  | SymlinkEscape

datatype vpath = VPath (vpath_str: bytes)

definition reserved_stems :: "bytes list" where
  "reserved_stems = map lit
     [''CON'', ''PRN'', ''AUX'', ''NUL'',
      ''COM1'', ''COM2'', ''COM3'', ''COM4'', ''COM5'', ''COM6'', ''COM7'', ''COM8'', ''COM9'',
      ''LPT1'', ''LPT2'', ''LPT3'', ''LPT4'', ''LPT5'', ''LPT6'', ''LPT7'', ''LPT8'', ''LPT9'']"

text \<open>The checks of one component, in the order of the loop body.\<close>

definition vpath_component :: "bytes \<Rightarrow> (vpath_error, unit) res" where
  "vpath_component c =
     (if c = [] then Err Traversal
      else if c = lit ''.'' \<or> c = lit ''..'' then Err Traversal
      else
        let decoded_dots = str_replace (lit ''%2E'') (lit ''.'') (str_replace (lit ''%2e'') (lit ''.'') c) in
        if decoded_dots = lit ''.'' \<or> decoded_dots = lit ''..''
           \<or> prefix (lit ''..'') decoded_dots \<or> suffix (lit ''..'') decoded_dots
           \<or> str_contains (lit ''/..'') decoded_dots \<or> str_contains (lit ''../'') decoded_dots
        then Err Traversal
        else if str_contains (lit ''%2f'') (to_ascii_lowercase c) then Err Traversal
        else if last c = dot \<or> last c = 0x20 then Err Traversal
        else if hd (split_by (\<lambda>b. b = dot) (to_ascii_uppercase c)) \<in> set reserved_stems then Err ForbiddenChar
        else if length c > MAX_PATH_COMPONENT then Err (ComponentTooLong (length c) MAX_PATH_COMPONENT)
        else Ok ())"

fun vpath_loop :: "bytes list \<Rightarrow> bytes \<Rightarrow> bool \<Rightarrow> nat \<Rightarrow> (vpath_error, bytes) res" where
  "vpath_loop [] normalised first depth = Ok normalised"
| "vpath_loop (component # cs) normalised first depth =
     (if depth + 1 > MAX_PATH_DEPTH then Err (TooLong (depth + 1) MAX_PATH_DEPTH)
      else
        and_then (vpath_component component) (\<lambda>_.
        vpath_loop cs ((if first then normalised else normalised @ [slash]) @ component) False (depth + 1)))"

definition vpath_validate :: "bytes \<Rightarrow> (vpath_error, vpath) res" where
  "vpath_validate raw =
     (if raw = [] then Err vpath_error.Empty
      else if length raw > MAX_PATH_TOTAL then Err (TooLong (length raw) MAX_PATH_TOTAL)
      else if hd raw = slash then Err Absolute
      else if backslash \<in> set raw \<or> 0x3A \<in> set raw then Err Traversal
      else if has_control raw then Err ForbiddenChar
      else
        and_then (vpath_loop (split_by (\<lambda>b. b = slash) raw) [] True 0) (\<lambda>normalised.
        if normalised = [] \<or> last raw = slash then Err Traversal
        else Ok (VPath normalised)))"

definition vpath_root :: vpath where
  "vpath_root = VPath []"

definition vpath_is_root :: "vpath \<Rightarrow> bool" where
  "vpath_is_root p \<longleftrightarrow> vpath_str p = []"

text \<open>
  \<open>std::path::Path::parent\<close> on the strings a \<open>VPath\<close> holds, which start with no separator and
  have no empty and no \<open>.\<close> component: the path without its last component.
\<close>

definition path_parent :: "bytes \<Rightarrow> bytes option" where
  "path_parent s = (if s = [] then None else Some (join_by slash (butlast (split_by (\<lambda>b. b = slash) s))))"

definition vpath_parent :: "vpath \<Rightarrow> vpath option" where
  "vpath_parent p =
     (case path_parent (vpath_str p) of
        None \<Rightarrow> None
      | Some s \<Rightarrow> if s = [] then None else Some (VPath s))"

fun symlink_push :: "bytes list \<Rightarrow> bytes list \<Rightarrow> bytes list" where
  "symlink_push [] stack = stack"
| "symlink_push (c # cs) stack =
     (let comp = trim c in
      symlink_push cs (if comp \<noteq> [] \<and> comp \<noteq> lit ''.'' then stack @ [comp] else stack))"

fun symlink_walk :: "bytes list \<Rightarrow> bytes list \<Rightarrow> (vpath_error, bytes list) res" where
  "symlink_walk [] stack = Ok stack"
| "symlink_walk (c # cs) stack =
     (let comp = trim c in
      if comp = [] \<or> comp = lit ''.'' then symlink_walk cs stack
      else if comp = lit ''..'' then
        (if stack = [] then Err SymlinkEscape else symlink_walk cs (butlast stack))
      else if length comp > MAX_PATH_COMPONENT then Err (ComponentTooLong (length comp) MAX_PATH_COMPONENT)
      else symlink_walk cs (stack @ [comp]))"

definition validate_symlink_target :: "vpath \<Rightarrow> bytes \<Rightarrow> (vpath_error, vpath) res" where
  "validate_symlink_target link_path raw_target =
     (if raw_target = [] then Err vpath_error.Empty
      else if 0 \<in> set raw_target then Err ForbiddenChar
      else if list_ex (\<lambda>b. b < 0x20 \<or> b = 0x7F) raw_target then Err ForbiddenChar
      else if hd raw_target = slash \<or> hd raw_target = backslash then Err SymlinkEscape
      else if length raw_target \<ge> 2 \<and> raw_target ! 1 = 0x3A then Err SymlinkEscape
      else
        let parent_str = (case path_parent (vpath_str link_path) of Some p \<Rightarrow> p | None \<Rightarrow> []);
            stack = symlink_push (split_by (\<lambda>b. b = slash) parent_str) []
        in
        and_then (symlink_walk (split_by (\<lambda>b. b = slash \<or> b = backslash) raw_target) stack) (\<lambda>stack.
        if stack = [] then Ok vpath_root
        else
          let resolved = join_by slash stack in
          if length resolved > MAX_PATH_TOTAL then Err (TooLong (length resolved) MAX_PATH_TOTAL)
          else Ok (VPath resolved)))"

text \<open>
  What the kernel of a POSIX system does with a relative target, lexically: the names between
  slashes, \<open>.\<close> and empty names skipped, \<open>..\<close> one level up. \<open>None\<close> is a step above the root.
\<close>

fun posix_walk :: "bytes list \<Rightarrow> bytes list \<Rightarrow> bytes list option" where
  "posix_walk [] stack = Some stack"
| "posix_walk (c # cs) stack =
     (if c = [] \<or> c = lit ''.'' then posix_walk cs stack
      else if c = lit ''..'' then (if stack = [] then None else posix_walk cs (butlast stack))
      else posix_walk cs (stack @ [c]))"

definition components :: "bytes \<Rightarrow> bytes list" where
  "components s = split_by (\<lambda>b. b = slash) s"

definition vpath_ok :: "bytes \<Rightarrow> bool" where
  "vpath_ok s \<longleftrightarrow> s \<noteq> [] \<and> length s \<le> MAX_PATH_TOTAL \<and> backslash \<notin> set s \<and> 0x3A \<notin> set s \<and> \<not> has_control s
     \<and> length (components s) \<le> MAX_PATH_DEPTH \<and> (\<forall>c \<in> set (components s). vpath_component c = Ok ())"

text \<open>The directory a link lives in, as a stack of names.\<close>

definition link_dir :: "vpath \<Rightarrow> bytes list" where
  "link_dir p = filter (\<lambda>c. c \<noteq> []) (butlast (components (vpath_str p)))"

section \<open>Splitting and joining\<close>

lemma split_by_ne [simp]: "split_by P s \<noteq> []"
  by (induction s) (auto split: list.splits)

lemma join_split: "join_by sep (split_by (\<lambda>b. b = sep) s) = s"
proof (induction s)
  case (Cons b s)
  obtain c cs where "split_by (\<lambda>b. b = sep) s = c # cs" using split_by_ne by (meson neq_Nil_conv)
  then show ?case using Cons by (cases cs) auto
qed simp

lemma split_by_sep_free: "\<forall>b \<in> set s. \<not> P b \<Longrightarrow> split_by P s = [s]"
  by (induction s) auto

lemma split_by_append: "P sep \<Longrightarrow> \<forall>b \<in> set s. \<not> P b \<Longrightarrow> split_by P (s @ sep # t) = s # split_by P t"
  by (induction s) auto

lemma split_join:
  "cs \<noteq> [] \<Longrightarrow> \<forall>c \<in> set cs. sep \<notin> set c \<Longrightarrow> split_by (\<lambda>b. b = sep) (join_by sep cs) = cs"
proof (induction sep cs rule: join_by.induct)
  case (2 sep c)
  then show ?case by (auto intro: split_by_sep_free)
next
  case (3 sep c d cs)
  then have "split_by (\<lambda>b. b = sep) (c @ sep # join_by sep (d # cs)) = c # split_by (\<lambda>b. b = sep) (join_by sep (d # cs))"
    by (intro split_by_append) auto
  then show ?case using 3 by simp
qed simp

lemma split_parts: "c \<in> set (split_by P s) \<Longrightarrow> b \<in> set c \<Longrightarrow> b \<in> set s \<and> \<not> P b"
proof (induction s arbitrary: c)
  case (Cons a s)
  obtain d ds where d: "split_by P s = d # ds" using split_by_ne by (meson neq_Nil_conv)
  then show ?case using Cons.prems Cons.IH [of d] Cons.IH [of c] by (auto split: if_splits)
qed simp

lemma split_by_cong: "\<forall>b \<in> set s. P b = Q b \<Longrightarrow> split_by P s = split_by Q s"
  by (induction s) auto

lemma join_by_Cons: "cs \<noteq> [] \<Longrightarrow> join_by sep (c # cs) = c @ sep # join_by sep cs"
  by (cases cs) auto

lemma join_by_eq_Nil: "\<forall>c \<in> set cs. c \<noteq> [] \<Longrightarrow> join_by sep cs = [] \<longleftrightarrow> cs = []"
  by (cases cs; cases "tl cs") (auto simp: join_by_Cons)

lemma join_by_snoc: "cs \<noteq> [] \<Longrightarrow> join_by sep (cs @ [c]) = join_by sep cs @ sep # c"
proof (induction cs)
  case (Cons d cs)
  then show ?case by (cases "cs = []") (auto simp: join_by_Cons)
qed simp

lemma components_join: "join_by slash (components s) = s"
  by (simp add: components_def join_split)

lemma components_ne [simp]: "components s \<noteq> []"
  by (simp add: components_def)

lemma components_sep_free: "c \<in> set (components s) \<Longrightarrow> slash \<notin> set c"
  using split_parts [of c "\<lambda>b. b = slash" s slash] by (auto simp: components_def)

section \<open>Validation\<close>

lemma vpath_component_Ok:
  "vpath_component c = Ok () \<Longrightarrow>
     c \<noteq> [] \<and> c \<noteq> lit ''.'' \<and> c \<noteq> lit ''..'' \<and> length c \<le> MAX_PATH_COMPONENT"
  by (auto simp: vpath_component_def Let_def split: if_splits)

lemma vpath_component_no_panic [no_panic]: "vpath_component c \<noteq> Panic"
  by (auto simp: vpath_component_def Let_def)

lemma vpath_loop_eq_Ok:
  "vpath_loop cs norm first d = Ok n \<longleftrightarrow>
     (\<forall>c \<in> set cs. vpath_component c = Ok ()) \<and> (cs = [] \<or> d + length cs \<le> MAX_PATH_DEPTH)
     \<and> n = (if first \<and> cs \<noteq> [] then norm @ hd cs @ concat (map (\<lambda>c. slash # c) (tl cs))
            else norm @ concat (map (\<lambda>c. slash # c) cs))"
proof (induction cs arbitrary: norm first d)
  case (Cons c cs)
  show ?case by (auto simp: res_simps Cons.IH)
qed auto

lemma join_by_concat: "cs \<noteq> [] \<Longrightarrow> join_by sep cs = hd cs @ concat (map (\<lambda>c. sep # c) (tl cs))"
proof (induction cs)
  case (Cons d cs)
  then show ?case by (cases cs) auto
qed simp

lemma vpath_loop_components:
  "vpath_loop (components s) [] True 0 = Ok n \<longleftrightarrow>
     (\<forall>c \<in> set (components s). vpath_component c = Ok ()) \<and> length (components s) \<le> MAX_PATH_DEPTH \<and> n = s"
  using join_by_concat [of "components s" slash] by (auto simp: vpath_loop_eq_Ok components_join)

lemma hd_components: "s \<noteq> [] \<Longrightarrow> hd s = slash \<Longrightarrow> [] \<in> set (components s)"
  by (cases s) (auto simp: components_def)

lemma last_components: "s \<noteq> [] \<Longrightarrow> last s = slash \<Longrightarrow> [] \<in> set (components s)"
proof (induction s rule: rev_induct)
  case (snoc b s)
  have "split_by (\<lambda>b. b = slash) (t @ [slash]) = split_by (\<lambda>b. b = slash) t @ [[]]" for t
    by (induction t) (auto split: list.splits)
  with snoc show ?case by (simp add: components_def)
qed simp

lemma vpath_validate_iff: "vpath_validate raw = Ok p \<longleftrightarrow> p = VPath raw \<and> vpath_ok raw"
  using hd_components [of raw] last_components [of raw] vpath_component_Ok [of "[]"]
  by (auto simp: vpath_validate_def vpath_ok_def res_simps vpath_loop_components
      simp flip: components_def split: if_splits)

lemma vpath_loop_no_panic [no_panic]: "vpath_loop cs norm first d \<noteq> Panic"
proof (induction cs arbitrary: norm first d)
  case (Cons c cs)
  then show ?case using vpath_component_no_panic by (auto simp: res_simps)
qed simp

lemma vpath_validate_no_panic: "vpath_validate raw \<noteq> Panic"
  unfolding vpath_validate_def by (intro no_panic)

lemma vpath_ok_components:
  "vpath_ok s \<Longrightarrow> c \<in> set (components s) \<Longrightarrow> c \<noteq> [] \<and> c \<noteq> lit ''.'' \<and> c \<noteq> lit ''..'' \<and> slash \<notin> set c \<and> backslash \<notin> set c"
  using vpath_component_Ok components_sep_free split_parts [of c "\<lambda>b. b = slash" s backslash]
  unfolding vpath_ok_def components_def by blast

text \<open>A validated path, walked from any directory, only goes down.\<close>

lemma posix_walk_down:
  "\<forall>c \<in> set cs. c \<noteq> [] \<and> c \<noteq> lit ''.'' \<and> c \<noteq> lit ''..'' \<Longrightarrow> posix_walk cs stack = Some (stack @ cs)"
  by (induction cs arbitrary: stack) auto

lemma vpath_walk: "vpath_ok s \<Longrightarrow> posix_walk (components s) root = Some (root @ components s)"
  using vpath_ok_components by (intro posix_walk_down) blast

section \<open>Parents\<close>

lemma has_control_append: "has_control s \<Longrightarrow> has_control (s @ t)"
proof (induction s)
  case (Cons b s)
  then show ?case by (cases s) auto
qed simp

lemma components_butlast_join:
  "butlast (components s) \<noteq> [] \<Longrightarrow> components (join_by slash (butlast (components s))) = butlast (components s)"
  unfolding components_def [of "join_by _ _"] using components_sep_free by (intro split_join) (auto dest: in_set_butlastD)

lemma parent_prefix:
  assumes "butlast (components s) \<noteq> []"
  shows "\<exists>t. s = join_by slash (butlast (components s)) @ t"
proof -
  have "components s = butlast (components s) @ [last (components s)]" by simp
  then have "s = join_by slash (butlast (components s) @ [last (components s)])" using components_join by metis
  then show ?thesis using join_by_snoc [OF assms] by metis
qed

lemma vpath_parent_ok:
  assumes "vpath_ok (vpath_str p)" and "vpath_parent p = Some q"
  shows "vpath_ok (vpath_str q) \<and> components (vpath_str q) = butlast (components (vpath_str p))"
proof -
  let ?s = "vpath_str p" and ?q = "join_by slash (butlast (components (vpath_str p)))"
  have q: "q = VPath ?q" and ne: "?q \<noteq> []"
    using assms(2) by (auto simp: vpath_parent_def path_parent_def components_def [symmetric] split: if_splits)
  then have bl: "butlast (components ?s) \<noteq> []" by auto
  obtain t where t: "?s = ?q @ t" using parent_prefix [OF bl] by blast
  have ok: "length (?q @ t) \<le> MAX_PATH_TOTAL" "backslash \<notin> set (?q @ t)" "0x3A \<notin> set (?q @ t)" "\<not> has_control (?q @ t)"
    using assms(1) unfolding vpath_ok_def by (metis t)+
  have c: "components ?q = butlast (components ?s)" by (rule components_butlast_join [OF bl])
  have "length (butlast (components ?s)) \<le> MAX_PATH_DEPTH"
       "\<forall>c \<in> set (butlast (components ?s)). vpath_component c = Ok ()"
    using assms(1) by (auto simp: vpath_ok_def dest: in_set_butlastD)
  then show ?thesis using ok ne has_control_append [of ?q t] by (auto simp: q vpath_ok_def c)
qed

section \<open>Symlink targets\<close>

lemma trim_dots [simp]: "trim [] = []" "trim (lit ''.'') = lit ''.''" "trim (lit ''..'') = lit ''..''"
  by (simp_all add: trim_def trim_start.simps trim_end.simps ws_prefix_def ws_suffix_def white_space_def lit_def
      suffix_def prefix_def)

lemma dots_distinct [simp]: "lit ''..'' \<noteq> []" "lit ''.'' \<noteq> []" "[] \<noteq> lit ''..''" "[] \<noteq> lit ''.''" "lit ''.'' \<noteq> lit ''..''" "lit ''..'' \<noteq> lit ''.''"
  by (simp_all add: lit_def)

lemma symlink_walk_contained:
  "symlink_walk cs vs = Ok vs' \<Longrightarrow> length vs \<le> length os \<Longrightarrow>
     \<exists>os'. posix_walk cs os = Some os' \<and> length vs' \<le> length os'"
proof (induction cs arbitrary: vs os)
  case (Cons c cs)
  consider "c = [] \<or> c = lit ''.''" | "c = lit ''..''" | "c \<noteq> []" "c \<noteq> lit ''.''" "c \<noteq> lit ''..''" by blast
  then show ?case
  proof cases
    case 1
    then show ?thesis using Cons by auto
  next
    case 2
    then have "symlink_walk cs (butlast vs) = Ok vs'" "vs \<noteq> []" "c \<noteq> []" "c \<noteq> lit ''.''"
      using Cons.prems(1) by (auto split: if_splits)
    moreover have "length (butlast vs) \<le> length (butlast os)" "os \<noteq> []" using Cons.prems(2) \<open>vs \<noteq> []\<close> by auto
    ultimately show ?thesis using 2 Cons.IH by auto
  next
    case 3
    obtain ws where "symlink_walk cs ws = Ok vs'" "length ws \<le> Suc (length vs)"
      using Cons.prems(1) by (auto simp: Let_def split: if_splits intro: that)
    then show ?thesis using 3 Cons.IH [of ws "os @ [c]"] Cons.prems(2) by auto
  qed
qed simp

lemma symlink_walk_exact:
  "symlink_walk cs st = Ok st' \<Longrightarrow> \<forall>c \<in> set cs. trim c = c \<Longrightarrow> posix_walk cs st = Some st'"
  by (induction cs arbitrary: st) (auto split: if_splits)

lemma symlink_push_length: "length (symlink_push cs st) \<le> length st + length (filter (\<lambda>c. c \<noteq> []) cs)"
proof (induction cs arbitrary: st)
  case (Cons c cs)
  show ?case using Cons [of st] Cons [of "st @ [trim c]"] by (auto simp: Let_def)
qed simp

lemma symlink_target_walk:
  assumes "validate_symlink_target link t = Ok p" and "backslash \<notin> set t"
  shows "\<exists>os. posix_walk (components t) (link_dir link) = Some os"
proof -
  let ?parent = "case path_parent (vpath_str link) of Some p \<Rightarrow> p | None \<Rightarrow> []"
  let ?stack = "symlink_push (components ?parent) []"
  have sp: "split_by (\<lambda>b. b = slash \<or> b = backslash) t = components t"
    unfolding components_def using assms(2) by (intro split_by_cong) auto
  have "\<exists>vs. symlink_walk (components t) ?stack = Ok vs"
    using assms(1) by (auto simp: validate_symlink_target_def Let_def sp res_simps simp flip: components_def
        split: if_splits)
  then obtain vs where vs: "symlink_walk (components t) ?stack = Ok vs" by blast
  have "filter (\<lambda>c. c \<noteq> []) (components ?parent) = link_dir link"
  proof (cases "butlast (components (vpath_str link)) = []")
    case True
    then show ?thesis
      by (simp add: path_parent_def link_dir_def components_def [symmetric]) (simp add: components_def)
  next
    case False
    then have "vpath_str link \<noteq> []" by (auto simp: components_def)
    then show ?thesis
      using components_butlast_join [OF False] by (simp add: path_parent_def link_dir_def components_def [symmetric])
  qed
  then have "length ?stack \<le> length (link_dir link)" using symlink_push_length [of "components ?parent" "[]"] by simp
  from symlink_walk_contained [OF vs this] show ?thesis by blast
qed

text \<open>
  A backslash is a separator of the check but not of a POSIX path: this target passes for a
  link at the top level and climbs above the root.
\<close>

lemma symlink_target_backslash:
  "validate_symlink_target (VPath (lit ''link'')) (lit [CHR ''x'', CHR 0x5C, CHR ''y''] @ lit ''/../..'') = Ok vpath_root
   \<and> posix_walk (components (lit [CHR ''x'', CHR 0x5C, CHR ''y''] @ lit ''/../..'')) (link_dir (VPath (lit ''link''))) = None"
  by code_simp

end
