(* ===== verification/Lock_Manager.thy ===== *)
theory Lock_Manager
  imports Virtual_Path "HOL-Library.AList"
begin

text \<open>
  The lock manager of \<open>sync/lock.rs\<close>: leases on named resources with expiry times and fencing
  tokens. The clock and the random part of a lock id are arguments; a persisted report is the
  value that was written, and whether a write succeeds is an argument too, since the code
  ignores its failure. The map of resources is an association list. The lemmas show that an
  exclusive lease is alone on its resource, that fencing tokens increase along every run, that
  no lease outlives its limit without renewal, that an expired lease stops nobody, and that
  a restart keeps all of this if the last write succeeded, and only then.
\<close>

section \<open>Definitions\<close>

datatype lock_mode = Exclusive | Shared

definition lock_mode_from_str :: "bytes \<Rightarrow> lock_mode option" where
  "lock_mode_from_str s =
     (let t = to_ascii_lowercase s in
      if t \<in> {lit ''exclusive'', lit ''write'', lit ''ex'', lit ''w''} then Some Exclusive
      else if t \<in> {lit ''shared'', lit ''read'', lit ''sh'', lit ''r''} then Some Shared
      else None)"

record lease_lock =
  ll_lock_id :: bytes
  ll_resource :: bytes
  ll_holder_id :: bytes
  ll_mode :: lock_mode
  ll_fencing_token :: u64
  ll_granted_at :: u64
  ll_expires_at :: u64
  ll_ttl :: u64

definition is_expired :: "lease_lock \<Rightarrow> u64 \<Rightarrow> bool" where
  "is_expired l now \<longleftrightarrow> now \<ge> ll_expires_at l"

definition remaining_ttl :: "lease_lock \<Rightarrow> u64 \<Rightarrow> u64" where
  "remaining_ttl l now = saturating_sub (ll_expires_at l) now"

datatype lock_error =
    ResourceBusy bytes bytes lock_mode u64
  | LockNotFound bytes
  | HolderMismatch bytes bytes bytes
  | LockExpired bytes
  | InvalidResource string

record lock_report =
  rp_total_active :: nat
  rp_total_exclusive :: nat
  rp_total_shared :: nat
  rp_highest_token :: u64
  rp_active_locks :: "lease_lock list"

text \<open>\<open>lm_file\<close> is the persisted report, \<open>None\<close> if there is none; \<open>lm_persist\<close> is whether a path is set.\<close>

record lock_manager =
  lm_locks :: "(bytes \<times> lease_lock list) list"
  lm_token_counter :: u64
  lm_default_ttl :: u64
  lm_max_ttl :: u64
  lm_persist :: bool
  lm_file :: "lock_report option"

definition lm_new :: lock_manager where
  "lm_new = \<lparr>lm_locks = [], lm_token_counter = 100, lm_default_ttl = 60, lm_max_ttl = 3600,
             lm_persist = False, lm_file = None\<rparr>"

definition lm_with_ttl :: "u64 \<Rightarrow> u64 \<Rightarrow> lock_manager \<Rightarrow> lock_manager" where
  "lm_with_ttl default_ttl max_ttl m =
     (let d = max default_ttl 5 in m\<lparr>lm_default_ttl := d, lm_max_ttl := max max_ttl d\<rparr>)"

definition canonicalize_resource :: "bytes \<Rightarrow> (lock_error, bytes) res" where
  "canonicalize_resource resource =
     (let trimmed = trim resource in
      if trimmed = [] then Err (InvalidResource ''resource name cannot be empty'')
      else
        let cleaned = dropWhile (\<lambda>b. b = slash) (map (\<lambda>b. if b = backslash then slash else b) trimmed) in
        if cleaned = [] then Ok [slash] else Ok (slash # cleaned))"

text \<open>\<open>Ord::clamp\<close> panics if the bounds are out of order.\<close>

definition clamp_ttl :: "u64 \<Rightarrow> u64 \<Rightarrow> (lock_error, u64) res" where
  "clamp_ttl max_ttl v = (if (5 :: u64) > max_ttl then Panic else Ok (if v < 5 then 5 else if v > max_ttl then max_ttl else v))"

definition leases_of :: "bytes \<Rightarrow> lock_manager \<Rightarrow> lease_lock list" where
  "leases_of r m = (case map_of (lm_locks m) r of Some ls \<Rightarrow> ls | None \<Rightarrow> [])"

definition all_leases :: "lock_manager \<Rightarrow> lease_lock list" where
  "all_leases m = concat (map snd (lm_locks m))"

definition make_report :: "lock_manager \<Rightarrow> lease_lock list \<Rightarrow> lock_report" where
  "make_report m ls =
     \<lparr>rp_total_active = length ls, rp_total_exclusive = length (filter (\<lambda>l. ll_mode l = Exclusive) ls),
      rp_total_shared = length (filter (\<lambda>l. ll_mode l = Shared) ls),
      rp_highest_token = lm_token_counter m, rp_active_locks = sort_key ll_fencing_token ls\<rparr>"

definition generate_report :: "u64 \<Rightarrow> lock_manager \<Rightarrow> lock_report" where
  "generate_report now m = make_report m (filter (\<lambda>l. \<not> is_expired l now) (all_leases m))"

definition save_to_persistence :: "bool \<Rightarrow> lock_manager \<Rightarrow> lock_manager" where
  "save_to_persistence disk_ok m =
     (if lm_persist m \<and> disk_ok then m\<lparr>lm_file := Some (make_report m (all_leases m))\<rparr> else m)"

fun group_leases :: "lease_lock list \<Rightarrow> (bytes \<times> lease_lock list) list \<Rightarrow> (bytes \<times> lease_lock list) list" where
  "group_leases [] m = m"
| "group_leases (l # ls) m =
     group_leases ls (AList.update (ll_resource l)
       ((case map_of m (ll_resource l) of Some xs \<Rightarrow> xs | None \<Rightarrow> []) @ [l]) m)"

definition load_from_persistence :: "lock_manager \<Rightarrow> lock_manager" where
  "load_from_persistence m =
     (case (lm_persist m, lm_file m) of
        (True, Some r) \<Rightarrow> m\<lparr>lm_token_counter := rp_highest_token r, lm_locks := group_leases (rp_active_locks r) []\<rparr>
      | _ \<Rightarrow> m)"

text \<open>\<open>with_persistence\<close> on a new manager: what a restart does with the file it finds.\<close>

definition with_persistence :: "lock_report option \<Rightarrow> lock_manager \<Rightarrow> lock_manager" where
  "with_persistence file m = load_from_persistence (m\<lparr>lm_persist := True, lm_file := file\<rparr>)"

definition lock_id_of :: "u64 \<Rightarrow> u16 \<Rightarrow> bytes" where
  "lock_id_of token rnd = lit (''lck-'' @ show_nat (unat token) @ ''-'' @ show_nat (unat rnd))"

definition acquire ::
  "bool \<Rightarrow> u16 \<Rightarrow> bytes \<Rightarrow> bytes \<Rightarrow> lock_mode \<Rightarrow> u64 option \<Rightarrow> u64 \<Rightarrow> lock_manager
     \<Rightarrow> lock_manager \<times> (lock_error, lease_lock) res" where
  "acquire disk_ok rnd resource holder mode ttl now m =
     (case canonicalize_resource resource of
        Err e \<Rightarrow> (m, Err e)
      | Panic \<Rightarrow> (m, Panic)
      | Ok r \<Rightarrow>
          if trim holder = [] then (m, Err (InvalidResource ''holder_id cannot be empty''))
          else
            (case clamp_ttl (lm_max_ttl m) (case ttl of Some t \<Rightarrow> t | None \<Rightarrow> lm_default_ttl m) of
               Err e \<Rightarrow> (m, Err e)
             | Panic \<Rightarrow> (m, Panic)
             | Ok effective_ttl \<Rightarrow>
                 let m = (case map_of (lm_locks m) r of
                            Some ls \<Rightarrow> m\<lparr>lm_locks := AList.update r (filter (\<lambda>l. \<not> is_expired l now) ls) (lm_locks m)\<rparr>
                          | None \<Rightarrow> m);
                     leases = leases_of r m;
                     busy = (case mode of
                               Exclusive \<Rightarrow> (case leases of [] \<Rightarrow> None | l # _ \<Rightarrow> Some l)
                             | Shared \<Rightarrow> List.find (\<lambda>l. ll_mode l = Exclusive) leases)
                 in
                 case busy of
                   Some l \<Rightarrow> (m, Err (ResourceBusy r (ll_holder_id l) (ll_mode l) (remaining_ttl l now)))
                 | None \<Rightarrow>
                     let token = lm_token_counter m + 1;
                         lease = \<lparr>ll_lock_id = lock_id_of token rnd, ll_resource = r, ll_holder_id = holder,
                                  ll_mode = mode, ll_fencing_token = token, ll_granted_at = now,
                                  ll_expires_at = now + effective_ttl, ll_ttl = effective_ttl\<rparr>;
                         m = m\<lparr>lm_token_counter := token, lm_locks := AList.update r (leases @ [lease]) (lm_locks m)\<rparr>
                     in (save_to_persistence disk_ok m, Ok lease)))"

text \<open>The first list that holds the lock id, and the lease in it.\<close>

definition find_lock :: "bytes \<Rightarrow> lock_manager \<Rightarrow> (bytes \<times> lease_lock) option" where
  "find_lock lock_id m =
     (case List.find (\<lambda>(r, ls). \<exists>l \<in> set ls. ll_lock_id l = lock_id) (lm_locks m) of
        None \<Rightarrow> None
      | Some (r, ls) \<Rightarrow> map_option (\<lambda>l. (r, l)) (List.find (\<lambda>l. ll_lock_id l = lock_id) ls))"

fun replace_first :: "('a \<Rightarrow> bool) \<Rightarrow> 'a \<Rightarrow> 'a list \<Rightarrow> 'a list" where
  "replace_first P y [] = []"
| "replace_first P y (x # xs) = (if P x then y # xs else x # replace_first P y xs)"

fun remove_first :: "('a \<Rightarrow> bool) \<Rightarrow> 'a list \<Rightarrow> 'a list" where
  "remove_first P [] = []"
| "remove_first P (x # xs) = (if P x then xs else x # remove_first P xs)"

definition renew ::
  "bool \<Rightarrow> bytes \<Rightarrow> bytes \<Rightarrow> u64 option \<Rightarrow> u64 \<Rightarrow> lock_manager \<Rightarrow> lock_manager \<times> (lock_error, lease_lock) res" where
  "renew disk_ok lock_id holder extension now m =
     (case find_lock lock_id m of
        None \<Rightarrow> (m, Err (LockNotFound lock_id))
      | Some (r, l) \<Rightarrow>
          if ll_holder_id l \<noteq> holder then (m, Err (HolderMismatch lock_id (ll_holder_id l) holder))
          else if is_expired l now then (m, Err (LockExpired lock_id))
          else
            (case clamp_ttl (lm_max_ttl m) (case extension of Some t \<Rightarrow> t | None \<Rightarrow> ll_ttl l) of
               Err e \<Rightarrow> (m, Err e)
             | Panic \<Rightarrow> (m, Panic)
             | Ok ext \<Rightarrow>
                 let l' = l\<lparr>ll_expires_at := now + ext, ll_ttl := ext\<rparr>;
                     m = m\<lparr>lm_locks := AList.update r
                             (replace_first (\<lambda>x. ll_lock_id x = lock_id) l' (leases_of r m)) (lm_locks m)\<rparr>
                 in (save_to_persistence disk_ok m, Ok l')))"

definition release :: "bool \<Rightarrow> bytes \<Rightarrow> bytes \<Rightarrow> lock_manager \<Rightarrow> lock_manager \<times> (lock_error, bool) res" where
  "release disk_ok lock_id holder m =
     (case find_lock lock_id m of
        None \<Rightarrow> (m, Err (LockNotFound lock_id))
      | Some (r, l) \<Rightarrow>
          if ll_holder_id l \<noteq> holder then (m, Err (HolderMismatch lock_id (ll_holder_id l) holder))
          else
            let ls = remove_first (\<lambda>x. ll_lock_id x = lock_id) (leases_of r m);
                m = m\<lparr>lm_locks := (if ls = [] then AList.delete r (lm_locks m) else AList.update r ls (lm_locks m))\<rparr>
            in (save_to_persistence disk_ok m, Ok True))"

definition inspect :: "bytes \<Rightarrow> u64 \<Rightarrow> lock_manager \<Rightarrow> lease_lock list" where
  "inspect resource now m =
     (case canonicalize_resource resource of
        Ok r \<Rightarrow> filter (\<lambda>l. \<not> is_expired l now) (leases_of r m)
      | _ \<Rightarrow> [])"

definition verify_fencing :: "bytes \<Rightarrow> u64 \<Rightarrow> u64 \<Rightarrow> lock_manager \<Rightarrow> bool" where
  "verify_fencing resource token now m =
     (case canonicalize_resource resource of
        Ok r \<Rightarrow> (\<exists>l \<in> set (leases_of r m). ll_fencing_token l = token \<and> \<not> is_expired l now)
      | _ \<Rightarrow> False)"

definition purge_expired :: "bool \<Rightarrow> u64 \<Rightarrow> lock_manager \<Rightarrow> lock_manager \<times> nat" where
  "purge_expired disk_ok now m =
     (let kept = filter (\<lambda>(r, ls). ls \<noteq> []) (map (\<lambda>(r, ls). (r, filter (\<lambda>l. \<not> is_expired l now) ls)) (lm_locks m));
          purged = length (filter (\<lambda>l. is_expired l now) (all_leases m));
          m = m\<lparr>lm_locks := kept\<rparr>
      in (if purged > 0 then save_to_persistence disk_ok m else m, purged))"

section \<open>Runs\<close>

text \<open>
  The operations as data; the booleans are the fate of the write. A restart builds a new
  manager and gives it the file.
\<close>

datatype lock_op =
    Acquire bool u16 bytes bytes lock_mode "u64 option" u64
  | Renew bool bytes bytes "u64 option" u64
  | Release bool bytes bytes
  | Purge bool u64
  | Restart u64 u64

fun lm_exec :: "lock_op \<Rightarrow> lock_manager \<Rightarrow> lock_manager \<times> lease_lock option" where
  "lm_exec (Acquire ok rnd r h mode ttl now) m =
     (let (m', res) = acquire ok rnd r h mode ttl now m in (m', case res of Ok l \<Rightarrow> Some l | _ \<Rightarrow> None))"
| "lm_exec (Renew ok i h ext now) m = (fst (renew ok i h ext now m), None)"
| "lm_exec (Release ok i h) m = (fst (release ok i h m), None)"
| "lm_exec (Purge ok now) m = (fst (purge_expired ok now m), None)"
| "lm_exec (Restart d x) m = (with_persistence (lm_file m) (lm_with_ttl d x lm_new), None)"

fun lm_run :: "lock_op list \<Rightarrow> lock_manager \<Rightarrow> lock_manager \<times> lease_lock list" where
  "lm_run [] m = (m, [])"
| "lm_run (p # ps) m =
     (let (m1, g) = lm_exec p m; (m2, gs) = lm_run ps m1 in (m2, (case g of Some l \<Rightarrow> [l] | None \<Rightarrow> []) @ gs))"

text \<open>Whether an acquisition's write succeeded.\<close>

fun reliable :: "lock_op \<Rightarrow> bool" where
  "reliable (Acquire ok _ _ _ _ _ _) = ok"
| "reliable _ = True"

section \<open>Exclusion\<close>

definition alone :: "lease_lock list \<Rightarrow> bool" where
  "alone ls \<longleftrightarrow> (\<forall>l \<in> set ls. ll_mode l = Exclusive \<longrightarrow> ls = [l])"

text \<open>A persisted list may mix resources.\<close>

definition file_alone :: "lease_lock list \<Rightarrow> bool" where
  "file_alone ls \<longleftrightarrow> (\<forall>r. alone (filter (\<lambda>l. ll_resource l = r) ls))"

definition lm_inv :: "lock_manager \<Rightarrow> bool" where
  "lm_inv m \<longleftrightarrow>
     distinct (map fst (lm_locks m)) \<and> 5 \<le> lm_max_ttl m
   \<and> (\<forall>r. alone (leases_of r m) \<and> (\<forall>l \<in> set (leases_of r m). ll_resource l = r))
   \<and> (\<forall>rep. lm_file m = Some rep \<longrightarrow> file_alone (rp_active_locks rep))"

lemma alone_simps [simp]: "alone []" "alone [l]"
  by (simp_all add: alone_def)

lemma alone_filter: "alone ls \<Longrightarrow> alone (filter P ls)"
  by (auto simp: alone_def)

lemma alone_shared_snoc:
  "(\<forall>x \<in> set ls. ll_mode x \<noteq> Exclusive) \<Longrightarrow> ll_mode l \<noteq> Exclusive \<Longrightarrow> alone (ls @ [l])"
  by (auto simp: alone_def)

lemma leases_of_update [simp]:
  "leases_of r (m\<lparr>lm_locks := AList.update q ls (lm_locks m')\<rparr>) =
     (if r = q then ls else leases_of r (m\<lparr>lm_locks := lm_locks m'\<rparr>))"
  by (auto simp: leases_of_def update_conv')

lemma leases_of_same [simp]:
  "leases_of r (m\<lparr>lm_locks := lm_locks m\<rparr>) = leases_of r m" "leases_of r (m\<lparr>lm_token_counter := t\<rparr>) = leases_of r m"
  "leases_of r (m\<lparr>lm_file := f\<rparr>) = leases_of r m"
  by (simp_all add: leases_of_def)

lemma leases_of_delete [simp]:
  "leases_of r (m\<lparr>lm_locks := AList.delete q (lm_locks m')\<rparr>) =
     (if r = q then [] else leases_of r (m\<lparr>lm_locks := lm_locks m'\<rparr>))"
  by (auto simp: leases_of_def delete_conv')

lemma filter_all_leases:
  assumes "distinct (map fst kvs)" and "\<forall>(k, ls) \<in> set kvs. \<forall>l \<in> set ls. ll_resource l = k"
  shows "filter (\<lambda>l. ll_resource l = r) (concat (map snd kvs)) = (case map_of kvs r of Some ls \<Rightarrow> ls | None \<Rightarrow> [])"
  using assms
proof (induction kvs)
  case (Cons kv kvs)
  obtain k ls where kv: "kv = (k, ls)" by (cases kv)
  have own: "\<forall>l \<in> set ls. ll_resource l = k" using Cons.prems by (simp add: kv)
  have rest: "map_of kvs k = None" using Cons.prems by (simp add: kv map_of_eq_None_iff)
  show ?case
  proof (cases "k = r")
    case True
    then have "filter (\<lambda>l. ll_resource l = r) ls = ls" using own by (simp add: filter_id_conv)
    then show ?thesis using Cons rest True by (simp add: kv)
  next
    case False
    then have "filter (\<lambda>l. ll_resource l = r) ls = []" using own by (simp add: filter_empty_conv)
    then show ?thesis using Cons False by (simp add: kv)
  qed
qed simp

lemma all_leases_of:
  assumes "lm_inv m"
  shows "filter (\<lambda>l. ll_resource l = r) (all_leases m) = leases_of r m"
proof -
  have "\<forall>(k, ls) \<in> set (lm_locks m). \<forall>l \<in> set ls. ll_resource l = k"
  proof clarify
    fix k ls l assume "(k, ls) \<in> set (lm_locks m)" and l: "l \<in> set ls"
    then have "map_of (lm_locks m) k = Some ls" using assms by (simp add: lm_inv_def)
    then have "leases_of k m = ls" by (simp add: leases_of_def)
    then show "ll_resource l = k" using assms l by (auto simp: lm_inv_def)
  qed
  moreover have "distinct (map fst (lm_locks m))" using assms by (simp add: lm_inv_def)
  ultimately show ?thesis unfolding all_leases_def leases_of_def by (intro filter_all_leases)
qed

lemma saved_alone:
  assumes "lm_inv m"
  shows "file_alone (rp_active_locks (make_report m (all_leases m)))"
  unfolding file_alone_def
proof
  fix r
  have "filter (\<lambda>l. ll_resource l = r) (sort_key ll_fencing_token (all_leases m)) = sort_key ll_fencing_token (leases_of r m)"
    using all_leases_of [OF assms] by (simp add: filter_sort)
  moreover have "alone (leases_of r m)" using assms by (simp add: lm_inv_def)
  then have "alone (sort_key ll_fencing_token (leases_of r m))"
    by (auto simp: alone_def)
  ultimately show "alone (filter (\<lambda>l. ll_resource l = r) (rp_active_locks (make_report m (all_leases m))))"
    by (simp add: make_report_def)
qed

lemma save_inv: "lm_inv m \<Longrightarrow> lm_inv (save_to_persistence ok m)"
  using saved_alone by (auto simp: save_to_persistence_def lm_inv_def)

text \<open>Changing the list of one resource, or dropping it.\<close>

lemma update_inv:
  assumes "lm_inv m" "alone ls" "\<forall>l \<in> set ls. ll_resource l = r"
  shows "lm_inv (m\<lparr>lm_locks := AList.update r ls (lm_locks m)\<rparr>)"
  using assms by (simp add: lm_inv_def distinct_update)

lemma delete_inv: "lm_inv m \<Longrightarrow> lm_inv (m\<lparr>lm_locks := AList.delete r (lm_locks m)\<rparr>)"
  by (simp add: lm_inv_def distinct_delete)

lemma counter_inv: "lm_inv m \<Longrightarrow> lm_inv (m\<lparr>lm_token_counter := t\<rparr>)"
  by (simp add: lm_inv_def)

lemma lm_invD:
  assumes "lm_inv m"
  shows "alone (leases_of r m)" "\<And>l. l \<in> set (leases_of r m) \<Longrightarrow> ll_resource l = r"
  using assms by (auto simp: lm_inv_def)

text \<open>The acquisition after its checks: the purge, the conflict test, the grant.\<close>

definition purged :: "bytes \<Rightarrow> u64 \<Rightarrow> lock_manager \<Rightarrow> lock_manager" where
  "purged r now m =
     (case map_of (lm_locks m) r of
        Some ls \<Rightarrow> m\<lparr>lm_locks := AList.update r (filter (\<lambda>l. \<not> is_expired l now) ls) (lm_locks m)\<rparr>
      | None \<Rightarrow> m)"

definition blocker :: "lock_mode \<Rightarrow> lease_lock list \<Rightarrow> lease_lock option" where
  "blocker mode leases =
     (case mode of
        Exclusive \<Rightarrow> (case leases of [] \<Rightarrow> None | l # _ \<Rightarrow> Some l)
      | Shared \<Rightarrow> List.find (\<lambda>l. ll_mode l = Exclusive) leases)"

definition granted :: "bytes \<Rightarrow> bytes \<Rightarrow> lock_mode \<Rightarrow> u64 \<Rightarrow> u64 \<Rightarrow> u16 \<Rightarrow> u64 \<Rightarrow> lease_lock" where
  "granted r holder mode ttl now rnd token =
     \<lparr>ll_lock_id = lock_id_of token rnd, ll_resource = r, ll_holder_id = holder, ll_mode = mode,
      ll_fencing_token = token, ll_granted_at = now, ll_expires_at = now + ttl, ll_ttl = ttl\<rparr>"

lemma purged_leases: "leases_of r (purged r now m) = filter (\<lambda>l. \<not> is_expired l now) (leases_of r m)"
  by (simp add: purged_def leases_of_def update_conv' split: option.splits)

lemma purged_inv:
  assumes "lm_inv m"
  shows "lm_inv (purged r now m)"
proof (cases "map_of (lm_locks m) r")
  case (Some ls)
  then have ls: "leases_of r m = ls" by (simp add: leases_of_def)
  have "lm_inv (m\<lparr>lm_locks := AList.update r (filter (\<lambda>l. \<not> is_expired l now) ls) (lm_locks m)\<rparr>)"
    by (rule update_inv [OF assms]) (use lm_invD(1) [OF assms, of r] lm_invD(2) [OF assms] ls in \<open>auto intro: alone_filter\<close>)
  then show ?thesis by (simp add: purged_def Some)
qed (simp add: purged_def assms)

lemma purged_fields [simp]:
  "lm_token_counter (purged r now m) = lm_token_counter m" "lm_max_ttl (purged r now m) = lm_max_ttl m"
  "lm_file (purged r now m) = lm_file m" "lm_persist (purged r now m) = lm_persist m"
  by (simp_all add: purged_def split: option.splits)

lemma acquire_cases:
  obtains (refused) e where "acquire ok rnd resource holder mode ttl now m = (m, Err e)"
  | (panics) "acquire ok rnd resource holder mode ttl now m = (m, Panic)" "lm_max_ttl m < 5"
  | (busy) r l where "canonicalize_resource resource = Ok r"
      "blocker mode (leases_of r (purged r now m)) = Some l"
      "acquire ok rnd resource holder mode ttl now m =
         (purged r now m, Err (ResourceBusy r (ll_holder_id l) (ll_mode l) (remaining_ttl l now)))"
  | (grants) r t where "canonicalize_resource resource = Ok r" "5 \<le> t" "t \<le> lm_max_ttl m"
      "blocker mode (leases_of r (purged r now m)) = None"
      "acquire ok rnd resource holder mode ttl now m =
         (save_to_persistence ok ((purged r now m)\<lparr>lm_token_counter := lm_token_counter m + 1,
            lm_locks := AList.update r (leases_of r (purged r now m) @ [granted r holder mode t now rnd (lm_token_counter m + 1)])
              (lm_locks (purged r now m))\<rparr>),
          Ok (granted r holder mode t now rnd (lm_token_counter m + 1)))"
proof -
  have no_panic: "canonicalize_resource resource \<noteq> Panic" by (simp add: canonicalize_resource_def Let_def)
  show thesis
  proof (cases "canonicalize_resource resource")
    case (Err e)
    show thesis by (rule refused [of e]) (simp add: acquire_def Err)
  next
    case Panic
    then show thesis using no_panic by simp
  next
    case (Ok r)
    show thesis
    proof (cases "trim holder = []")
      case True
      show thesis by (rule refused) (simp add: acquire_def Ok True)
    next
      case False
      define v where "v = (case ttl of Some t \<Rightarrow> t | None \<Rightarrow> lm_default_ttl m)"
      show thesis
      proof (cases "lm_max_ttl m < 5")
        case True
        show thesis by (rule panics) (use True in \<open>simp_all add: acquire_def Ok False clamp_ttl_def\<close>)
      next
        case max: False
        define t where "t = (if v < 5 then 5 else if v > lm_max_ttl m then lm_max_ttl m else v)"
        have c: "clamp_ttl (lm_max_ttl m) v = Ok t" and t: "5 \<le> t" "t \<le> lm_max_ttl m"
          using max by (auto simp: clamp_ttl_def t_def)
        have eq: "acquire ok rnd resource holder mode ttl now m =
            (case blocker mode (leases_of r (purged r now m)) of
               Some l \<Rightarrow> (purged r now m, Err (ResourceBusy r (ll_holder_id l) (ll_mode l) (remaining_ttl l now)))
             | None \<Rightarrow>
                 (save_to_persistence ok ((purged r now m)\<lparr>lm_token_counter := lm_token_counter m + 1,
                    lm_locks := AList.update r (leases_of r (purged r now m) @ [granted r holder mode t now rnd (lm_token_counter m + 1)])
                      (lm_locks (purged r now m))\<rparr>),
                  Ok (granted r holder mode t now rnd (lm_token_counter m + 1))))"
          using Ok False c
          by (simp add: acquire_def v_def Let_def blocker_def granted_def purged_def [symmetric] cong: option.case_cong)
        show thesis
        proof (cases "blocker mode (leases_of r (purged r now m))")
          case None
          show thesis by (rule grants [OF Ok t None]) (simp add: eq None)
        next
          case (Some l)
          show thesis by (rule busy [OF Ok Some]) (simp add: eq Some)
        qed
      qed
    qed
  qed
qed

lemma blocker_None:
  "blocker Exclusive ls = None \<longleftrightarrow> ls = []" "blocker Shared ls = None \<longleftrightarrow> (\<forall>l \<in> set ls. ll_mode l \<noteq> Exclusive)"
  by (auto simp: blocker_def find_None_iff split: list.splits)

lemma acquire_inv:
  assumes "lm_inv m"
  shows "lm_inv (fst (acquire ok rnd resource holder mode ttl now m))"
proof (cases rule: acquire_cases [of ok rnd resource holder mode ttl now m])
  case (grants r t)
  let ?p = "purged r now m" and ?l = "granted r holder mode t now rnd (lm_token_counter m + 1)"
  have p: "lm_inv ?p" by (rule purged_inv [OF assms])
  have "alone (leases_of r ?p @ [?l])"
    using grants(4) by (cases mode) (auto simp: blocker_None granted_def intro: alone_shared_snoc)
  moreover have "\<forall>l \<in> set (leases_of r ?p @ [?l]). ll_resource l = r"
    using lm_invD(2) [OF p] by (auto simp: granted_def)
  ultimately have "lm_inv (?p\<lparr>lm_token_counter := lm_token_counter m + 1,
      lm_locks := AList.update r (leases_of r ?p @ [?l]) (lm_locks ?p)\<rparr>)"
    using update_inv [OF counter_inv [OF p], of "leases_of r ?p @ [?l]" r "lm_token_counter m + 1"] by simp
  then show ?thesis unfolding grants(5) by (simp add: save_inv)
qed (auto simp: assms purged_inv)

lemma find_in_leases:
  assumes "lm_inv m" "find_lock i m = Some (r, l)"
  shows "List.find (\<lambda>x. ll_lock_id x = i) (leases_of r m) = Some l"
proof -
  obtain ls where f: "List.find (\<lambda>(r, ls). \<exists>l \<in> set ls. ll_lock_id l = i) (lm_locks m) = Some (r, ls)"
    and l: "List.find (\<lambda>l. ll_lock_id l = i) ls = Some l"
    using assms(2) by (auto simp: find_lock_def split: option.splits)
  obtain n where "n < length (lm_locks m)" "lm_locks m ! n = (r, ls)" using f by (auto simp: find_Some_iff)
  then have "(r, ls) \<in> set (lm_locks m)" by (metis nth_mem)
  then have "leases_of r m = ls" using assms(1) by (simp add: leases_of_def lm_inv_def)
  with l show ?thesis by simp
qed

lemma find_lock_Some:
  "\<lbrakk>lm_inv m; find_lock i m = Some (r, l)\<rbrakk> \<Longrightarrow> l \<in> set (leases_of r m) \<and> ll_lock_id l = i"
  using find_in_leases [of m i r l] by (auto simp: find_Some_iff)

lemma replace_first_alone:
  assumes "alone ls" "List.find P ls = Some l" "ll_mode l' = ll_mode l"
  shows "alone (replace_first P l' ls)"
proof (cases "\<exists>x \<in> set ls. ll_mode x = Exclusive")
  case True
  then obtain x where "ls = [x]" using assms(1) by (auto simp: alone_def)
  then show ?thesis by simp
next
  case False
  have "set (replace_first P l' ls) \<subseteq> insert l' (set ls)" by (induction ls) auto
  moreover have "l \<in> set ls" using assms(2) by (auto simp: find_Some_iff)
  ultimately show ?thesis using False assms(3) unfolding alone_def by (metis insertE subsetD)
qed

lemma set_replace_first: "set (replace_first P y xs) \<subseteq> insert y (set xs)"
  by (induction xs) auto

lemma remove_first_alone: "alone ls \<Longrightarrow> alone (remove_first P ls)"
proof (cases "\<exists>x \<in> set ls. ll_mode x = Exclusive")
  case True
  assume "alone ls"
  with True obtain x where "ls = [x]" by (auto simp: alone_def)
  then show ?thesis by simp
next
  case False
  have "set (remove_first P ls) \<subseteq> set ls" by (induction ls) auto
  with False show ?thesis by (auto simp: alone_def)
qed

lemma set_remove_first: "set (remove_first P xs) \<subseteq> set xs"
  by (induction xs) auto

lemma renew_inv:
  assumes "lm_inv m"
  shows "lm_inv (fst (renew ok i h ext now m))"
proof (cases "find_lock i m")
  case (Some rl)
  obtain r l where rl: "rl = (r, l)" by (cases rl)
  note found = find_in_leases [OF assms Some [unfolded rl]] and here = find_lock_Some [OF assms Some [unfolded rl]]
  have upd: "lm_inv (m\<lparr>lm_locks := AList.update r (replace_first (\<lambda>x. ll_lock_id x = i) l' (leases_of r m)) (lm_locks m)\<rparr>)"
    if "ll_mode l' = ll_mode l" "ll_resource l' = ll_resource l" for l'
    by (rule update_inv [OF assms replace_first_alone [OF lm_invD(1) [OF assms] found that(1)]])
      (use set_replace_first [of "\<lambda>x. ll_lock_id x = i" l' "leases_of r m"] lm_invD(2) [OF assms] that here in auto)
  show ?thesis using assms
    by (auto simp: renew_def Some rl Let_def intro!: save_inv upd split: res.splits)
qed (simp add: renew_def assms)

lemma release_inv:
  assumes "lm_inv m"
  shows "lm_inv (fst (release ok i h m))"
proof (cases "find_lock i m")
  case (Some rl)
  obtain r l where rl: "rl = (r, l)" by (cases rl)
  have "lm_inv (m\<lparr>lm_locks := AList.update r (remove_first (\<lambda>x. ll_lock_id x = i) (leases_of r m)) (lm_locks m)\<rparr>)"
    by (rule update_inv [OF assms remove_first_alone [OF lm_invD(1) [OF assms]]])
      (use set_remove_first [of "\<lambda>x. ll_lock_id x = i" "leases_of r m"] lm_invD(2) [OF assms] in auto)
  then show ?thesis using assms delete_inv [OF assms, of r]
    by (auto simp: release_def Some rl Let_def intro!: save_inv)
qed (simp add: release_def assms)

lemma map_of_mapped_values: "map_of (map (\<lambda>(k, v). (k, f v)) xs) k = map_option f (map_of xs k)"
  by (induction xs) auto

lemma map_of_filter_values:
  "distinct (map fst xs) \<Longrightarrow>
     map_of (filter (\<lambda>(k, v). P v) xs) k = (case map_of xs k of Some v \<Rightarrow> if P v then Some v else None | None \<Rightarrow> None)"
  by (induction xs) (auto split: option.splits simp: map_of_eq_None_iff)

lemma purge_leases:
  assumes "lm_inv m"
  shows "leases_of r (fst (purge_expired ok now m)) = filter (\<lambda>l. \<not> is_expired l now) (leases_of r m)"
proof -
  have "distinct (map fst (map (\<lambda>(r, ls). (r, filter (\<lambda>l. \<not> is_expired l now) ls)) (lm_locks m)))"
    using assms by (simp add: lm_inv_def comp_def case_prod_unfold)
  then show ?thesis
    by (simp add: purge_expired_def save_to_persistence_def leases_of_def Let_def map_of_filter_values map_of_mapped_values
        split: option.splits)
qed

lemma purge_inv:
  assumes "lm_inv m"
  shows "lm_inv (fst (purge_expired ok now m))"
proof -
  let ?kept = "filter (\<lambda>(r, ls). ls \<noteq> []) (map (\<lambda>(r, ls). (r, filter (\<lambda>l. \<not> is_expired l now) ls)) (lm_locks m))"
  have d: "distinct (map fst (map (\<lambda>(r, ls). (r, filter (\<lambda>l. \<not> is_expired l now) ls)) (lm_locks m)))"
    using assms by (simp add: lm_inv_def comp_def case_prod_unfold)
  then have k: "distinct (map fst ?kept)" by (rule distinct_map_filter)
  have "leases_of r (m\<lparr>lm_locks := ?kept\<rparr>) = filter (\<lambda>l. \<not> is_expired l now) (leases_of r m)" for r
    using d by (simp add: leases_of_def map_of_filter_values map_of_mapped_values split: option.splits)
  then have "lm_inv (m\<lparr>lm_locks := ?kept\<rparr>)"
    using assms k by (auto simp: lm_inv_def intro: alone_filter)
  then show ?thesis by (auto simp: purge_expired_def Let_def intro: save_inv)
qed

lemma group_leases_of:
  assumes "distinct (map fst m)"
  shows "distinct (map fst (group_leases ls m))
    \<and> (case map_of (group_leases ls m) r of Some xs \<Rightarrow> xs | None \<Rightarrow> []) =
        (case map_of m r of Some xs \<Rightarrow> xs | None \<Rightarrow> []) @ filter (\<lambda>l. ll_resource l = r) ls"
  using assms
proof (induction ls arbitrary: m)
  case (Cons l ls)
  show ?case using Cons.IH [of "AList.update (ll_resource l)
      ((case map_of m (ll_resource l) of Some xs \<Rightarrow> xs | None \<Rightarrow> []) @ [l]) m"] Cons.prems
    by (auto simp: distinct_update update_conv' split: option.splits)
qed simp

lemma restart_leases:
  "leases_of r (with_persistence file (lm_with_ttl d x lm_new)) =
     (case file of Some rep \<Rightarrow> filter (\<lambda>l. ll_resource l = r) (rp_active_locks rep) | None \<Rightarrow> [])"
  using group_leases_of [of "[]" _ r]
  by (simp add: with_persistence_def load_from_persistence_def lm_with_ttl_def lm_new_def leases_of_def Let_def split: option.splits)

lemma restart_inv:
  assumes "\<forall>rep. file = Some rep \<longrightarrow> file_alone (rp_active_locks rep)"
  shows "lm_inv (with_persistence file (lm_with_ttl d x lm_new))"
  using assms group_leases_of [of "[]"]
  by (auto simp: lm_inv_def restart_leases file_alone_def split: option.splits)
    (auto simp: with_persistence_def load_from_persistence_def lm_with_ttl_def lm_new_def Let_def max_def split: option.splits)

lemma lm_exec_inv:
  assumes "lm_inv m"
  shows "lm_inv (fst (lm_exec p m))"
proof (cases p)
  case (Acquire ok rnd r h mode ttl now)
  then show ?thesis using acquire_inv [OF assms] by (simp add: case_prod_unfold Let_def)
next
  case (Restart d x)
  have "\<forall>rep. lm_file m = Some rep \<longrightarrow> file_alone (rp_active_locks rep)" using assms by (simp add: lm_inv_def)
  then show ?thesis unfolding Restart by (simp add: restart_inv)
qed (simp_all add: assms renew_inv release_inv purge_inv)

lemma lm_run_inv: "lm_inv m \<Longrightarrow> lm_inv (fst (lm_run ps m))"
  by (induction ps arbitrary: m) (auto simp: case_prod_unfold Let_def lm_exec_inv)

lemma lm_new_inv: "lm_inv (lm_with_ttl d x lm_new)" "lm_inv lm_new"
  by (simp_all add: lm_inv_def lm_with_ttl_def lm_new_def leases_of_def Let_def le_max_iff_disj)

text \<open>What the holders see: one exclusive lease, or only shared ones; and its token is the only valid one.\<close>

lemma inspect_alone:
  assumes "lm_inv m" "l \<in> set (inspect r now m)" "ll_mode l = Exclusive"
  shows "inspect r now m = [l] \<and> (verify_fencing r t now m \<longleftrightarrow> t = ll_fencing_token l)"
proof -
  obtain q where q: "canonicalize_resource r = Ok q"
    and l: "l \<in> set (leases_of q m)" "\<not> is_expired l now"
    using assms(2) by (cases "canonicalize_resource r") (auto simp: inspect_def)
  have "leases_of q m = [l]" using lm_invD(1) [OF assms(1), of q] l(1) assms(3) by (auto simp: alone_def)
  then show ?thesis using q l by (auto simp: inspect_def verify_fencing_def)
qed

section \<open>Fencing tokens\<close>

text \<open>The file records the counter.\<close>

definition token_inv :: "lock_manager \<Rightarrow> bool" where
  "token_inv m \<longleftrightarrow> lm_persist m
     \<and> lm_token_counter m = (case lm_file m of Some rep \<Rightarrow> rp_highest_token rep | None \<Rightarrow> 100)"

lemma save_counter [simp]:
  "lm_token_counter (save_to_persistence ok m) = lm_token_counter m" "lm_persist (save_to_persistence ok m) = lm_persist m"
  by (simp_all add: save_to_persistence_def)

lemma save_token_inv:
  "lm_persist m \<Longrightarrow> token_inv m \<or> ok \<Longrightarrow> token_inv (save_to_persistence ok m)"
  by (auto simp: token_inv_def save_to_persistence_def make_report_def)

lemma exec_token:
  assumes "lm_inv m" "token_inv m" "reliable p"
  shows "token_inv (fst (lm_exec p m))
    \<and> (case snd (lm_exec p m) of
         None \<Rightarrow> lm_token_counter (fst (lm_exec p m)) = lm_token_counter m
       | Some l \<Rightarrow> ll_fencing_token l = lm_token_counter m + 1 \<and> lm_token_counter (fst (lm_exec p m)) = lm_token_counter m + 1)"
proof (cases p)
  case (Acquire ok rnd resource h mode ttl now)
  have ok: "ok" using assms(3) Acquire by simp
  have p: "token_inv (purged r now m)" for r using assms(2) by (simp add: token_inv_def)
  show ?thesis
  proof (cases rule: acquire_cases [of ok rnd resource h mode ttl now m])
    case (grants r t)
    have "token_inv (save_to_persistence ok m')" if "lm_persist m'" for m'
      using that ok by (intro save_token_inv) auto
    moreover have "lm_persist m" using assms(2) by (simp add: token_inv_def)
    ultimately show ?thesis unfolding Acquire by (simp add: grants(5) granted_def)
  qed (use assms p in \<open>simp_all add: Acquire\<close>)
next
  case (Renew ok i h ext now)
  show ?thesis using assms(2) unfolding Renew
    by (auto simp: renew_def Let_def token_inv_def save_to_persistence_def make_report_def split: option.splits res.splits)
next
  case (Release ok i h)
  show ?thesis using assms(2) unfolding Release
    by (auto simp: release_def Let_def token_inv_def save_to_persistence_def make_report_def split: option.splits)
next
  case (Purge ok now)
  show ?thesis using assms(2) unfolding Purge
    by (auto simp: purge_expired_def Let_def token_inv_def save_to_persistence_def make_report_def split: option.splits)
next
  case (Restart d x)
  show ?thesis using assms(2) unfolding Restart
    by (auto simp: with_persistence_def load_from_persistence_def token_inv_def lm_with_ttl_def lm_new_def Let_def
        split: option.splits)
qed

lemma run_tokens:
  assumes "lm_inv m" "token_inv m" "\<forall>p \<in> set ps. reliable p" "unat (lm_token_counter m) + length ps < 2 ^ 64"
  shows "sorted_wrt (<) (map ll_fencing_token (snd (lm_run ps m)))
    \<and> (\<forall>l \<in> set (snd (lm_run ps m)). lm_token_counter m < ll_fencing_token l)"
  using assms
proof (induction ps arbitrary: m)
  case (Cons p ps)
  let ?m = "fst (lm_exec p m)"
  have inv: "lm_inv ?m" by (rule lm_exec_inv [OF Cons.prems(1)])
  have step: "token_inv ?m"
    "case snd (lm_exec p m) of None \<Rightarrow> lm_token_counter ?m = lm_token_counter m
     | Some l \<Rightarrow> ll_fencing_token l = lm_token_counter m + 1 \<and> lm_token_counter ?m = lm_token_counter m + 1"
    using exec_token [OF Cons.prems(1,2)] Cons.prems(3) by auto
  have succ: "unat (lm_token_counter m + 1) = Suc (unat (lm_token_counter m))"
    using Cons.prems(4) by (simp add: unat_word_ariths)
  show ?case
  proof (cases "snd (lm_exec p m)")
    case None
    then show ?thesis using Cons.IH [OF inv step(1)] Cons.prems(3,4) step(2)
      by (simp add: case_prod_unfold Let_def)
  next
    case (Some l)
    then have l: "ll_fencing_token l = lm_token_counter m + 1" "lm_token_counter ?m = lm_token_counter m + 1"
      using step(2) by simp_all
    have ih: "sorted_wrt (<) (map ll_fencing_token (snd (lm_run ps ?m)))
      \<and> (\<forall>x \<in> set (snd (lm_run ps ?m)). lm_token_counter ?m < ll_fencing_token x)"
      by (rule Cons.IH [OF inv step(1)]) (use Cons.prems(3,4) l succ in auto)
    have lt: "lm_token_counter m < lm_token_counter m + 1" using succ by (simp add: word_less_nat_alt)
    have "\<forall>x \<in> set (snd (lm_run ps ?m)). lm_token_counter m + 1 < ll_fencing_token x" using ih l by simp
    then have "\<forall>x \<in> set (snd (lm_run ps ?m)). lm_token_counter m < ll_fencing_token x" using lt less_trans by blast
    then show ?thesis using ih l lt Some by (auto simp: case_prod_unfold Let_def)
  qed
qed simp

lemma fresh_run_tokens:
  assumes "\<forall>p \<in> set ps. reliable p" and "length ps < 2 ^ 64 - 100"
  shows "sorted_wrt (<) (map ll_fencing_token (snd (lm_run ps (with_persistence None (lm_with_ttl d x lm_new)))))"
proof -
  let ?m = "with_persistence None (lm_with_ttl d x lm_new)"
  have "lm_inv ?m" by (rule restart_inv) simp
  moreover have "token_inv ?m"
    by (simp add: token_inv_def with_persistence_def load_from_persistence_def lm_with_ttl_def lm_new_def Let_def)
  moreover have "lm_token_counter ?m = 100"
    by (simp add: with_persistence_def load_from_persistence_def lm_with_ttl_def lm_new_def Let_def)
  ultimately show ?thesis using run_tokens [of ?m ps] assms by simp
qed

section \<open>Expiry and restarts\<close>

text \<open>A resource whose leases have expired can be taken in either mode, for a time within the limits.\<close>

lemma acquire_after_expiry:
  assumes "lm_inv m" "canonicalize_resource resource = Ok r" "trim holder \<noteq> []"
    and "\<forall>l \<in> set (leases_of r m). is_expired l now"
  shows "\<exists>m' l. acquire ok rnd resource holder mode ttl now m = (m', Ok l)
    \<and> ll_resource l = r \<and> ll_holder_id l = holder \<and> ll_mode l = mode \<and> leases_of r m' = [l]
    \<and> 5 \<le> ll_ttl l \<and> ll_ttl l \<le> lm_max_ttl m \<and> ll_expires_at l = now + ll_ttl l"
proof -
  have gone: "leases_of r (purged r now m) = []" using assms(4) by (simp add: purged_leases)
  have max: "\<not> lm_max_ttl m < 5" using assms(1) by (simp add: lm_inv_def not_less)
  show ?thesis
  proof (cases rule: acquire_cases [of ok rnd resource holder mode ttl now m])
    case (refused e)
    have "acquire ok rnd resource holder mode ttl now m \<noteq> (m, Err e)"
      using assms(2,3) gone max
      by (auto simp: acquire_def clamp_ttl_def purged_def [symmetric] Let_def split: lock_mode.splits)
    with refused show ?thesis by simp
  next
    case (busy q l)
    then show ?thesis using assms(2) gone by (cases mode) (simp_all add: blocker_def)
  next
    case (grants q t)
    have "q = r" using grants(1) assms(2) by simp
    have "leases_of r (save_to_persistence ok m') = leases_of r m'" for m'
      by (simp add: save_to_persistence_def)
    then show ?thesis using grants gone by (simp add: \<open>q = r\<close> granted_def)
  qed (use max in simp)
qed

text \<open>A restart after a successful write gives every resource its leases back, in the order of their tokens.\<close>

lemma restart_keeps_leases:
  assumes "lm_inv m" "lm_persist m"
  shows "leases_of r (fst (lm_exec (Restart d x) (save_to_persistence True m))) = sort_key ll_fencing_token (leases_of r m)"
  using assms all_leases_of [OF assms(1), of r]
  by (simp add: restart_leases save_to_persistence_def make_report_def filter_sort)

text \<open>
  After a write that failed, a restart forgets the lease and reissues its token: the first
  holder's token then passes the check that should fence it off.
\<close>

lemma lost_write_reissues_token:
  assumes "m = with_persistence None (lm_with_ttl 60 3600 lm_new)"
    and "canonicalize_resource resource = Ok r" and "trim a \<noteq> []" and "trim b \<noteq> []" and "now < - 61"
  shows "\<exists>l1 l2. snd (lm_run [Acquire False x resource a Exclusive (Some 60) now, Restart 60 3600,
        Acquire True y resource b Exclusive (Some 60) now] m) = [l1, l2]
      \<and> ll_fencing_token l1 = ll_fencing_token l2
      \<and> verify_fencing resource (ll_fencing_token l1) now
          (fst (lm_run [Acquire False x resource a Exclusive (Some 60) now, Restart 60 3600,
             Acquire True y resource b Exclusive (Some 60) now] m))"
proof -
  have m: "m = \<lparr>lm_locks = [], lm_token_counter = 100, lm_default_ttl = 60, lm_max_ttl = 3600, lm_persist = True, lm_file = None\<rparr>"
    using assms(1) by (simp add: with_persistence_def load_from_persistence_def lm_with_ttl_def lm_new_def Let_def max_def)
  have "\<not> now + 60 \<le> now"
  proof -
    have "unat (now + 60) = unat now + 60"
      using assms(5) by (simp add: word_less_nat_alt unat_word_ariths)
    then show ?thesis by (simp add: word_le_nat_alt)
  qed
  then show ?thesis
    using assms(2-4)
    by (simp add: m acquire_def clamp_ttl_def leases_of_def Let_def save_to_persistence_def with_persistence_def
        load_from_persistence_def lm_with_ttl_def lm_new_def verify_fencing_def is_expired_def max_def)
qed

end
