(* ===== verification/Raft_Node.thy ===== *)
theory Raft_Node
  imports Rust_Str "HOL-Library.AList"
begin

text \<open>
  One node of the consensus cluster of \<open>consensus/mod.rs\<close>: its log, its role and term, the
  handlers of the two RPCs, elections, proposals, replication progress, and the metadata state
  machine that committed entries are applied to. A handler runs to its end before the next one
  starts on the same node. Unix time and instants are arguments; maps are association lists. A
  slice or index out of range is \<open>Panic\<close>.

  The lemmas describe what each handler does to the log, the vote and the commit index of
  its node, with 64-bit indices read as positions of a log shorter than \<open>2 ^ 64\<close>.
\<close>

section \<open>Data\<close>

datatype raft_role = Follower | Candidate | Leader

fun raft_role_str :: "raft_role \<Rightarrow> bytes" where
  "raft_role_str Follower = lit ''follower''"
| "raft_role_str Candidate = lit ''candidate''"
| "raft_role_str Leader = lit ''leader''"

datatype raft_command =
    RegisterNode bytes bytes bytes
  | DecommissionNode bytes
  | AcquireLease bytes bytes u64 u64
  | ReleaseLease bytes bytes
  | UpdateMetadata bytes bytes u64
  | FenceEpoch bytes u64
  | Noop

record raft_log_entry =
  en_index :: u64
  en_term :: u64
  en_command :: raft_command
  en_timestamp :: u64

record cluster_lease =
  le_resource :: bytes
  le_holder :: bytes
  le_granted_at :: u64
  le_expires_at :: u64
  le_epoch :: u64

definition lease_is_active :: "cluster_lease \<Rightarrow> u64 \<Rightarrow> bool" where
  "lease_is_active l now \<longleftrightarrow> now < le_expires_at l"

record vote_request =
  vq_term :: u64
  vq_candidate_id :: bytes
  vq_last_log_index :: u64
  vq_last_log_term :: u64

record vote_response =
  vr_term :: u64
  vr_vote_granted :: bool
  vr_voter_id :: bytes

record append_request =
  aq_term :: u64
  aq_leader_id :: bytes
  aq_prev_log_index :: u64
  aq_prev_log_term :: u64
  aq_entries :: "raft_log_entry list"
  aq_leader_commit :: u64

record append_response =
  ar_term :: u64
  ar_success :: bool
  ar_match_index :: u64
  ar_responder_id :: bytes

record cluster_sm =
  sm_nodes :: "(bytes \<times> bytes \<times> bytes) list"
  sm_leases :: "(bytes \<times> cluster_lease) list"
  sm_metadata :: "(bytes \<times> bytes \<times> u64) list"
  sm_fenced_epochs :: "(bytes \<times> u64) list"

definition sm_default :: cluster_sm where
  "sm_default = \<lparr>sm_nodes = [], sm_leases = [], sm_metadata = [], sm_fenced_epochs = []\<rparr>"

definition ttl_secs_of :: "u64 \<Rightarrow> u64" where
  "ttl_secs_of ttl_ms = max (ttl_ms div 1000) 1"

fun sm_apply :: "raft_command \<Rightarrow> u64 \<Rightarrow> cluster_sm \<Rightarrow> cluster_sm" where
  "sm_apply (RegisterNode node_id address role) now sm =
     sm\<lparr>sm_nodes := AList.update node_id (address, role) (sm_nodes sm)\<rparr>"
| "sm_apply (DecommissionNode node_id) now sm = sm\<lparr>sm_nodes := AList.delete node_id (sm_nodes sm)\<rparr>"
| "sm_apply (AcquireLease resource holder ttl_ms epoch) now sm =
     (if (case map_of (sm_fenced_epochs sm) holder of Some min_epoch \<Rightarrow> epoch < min_epoch | None \<Rightarrow> False) then sm
      else
        sm\<lparr>sm_leases := AList.update resource
             \<lparr>le_resource = resource, le_holder = holder, le_granted_at = now,
              le_expires_at = now + ttl_secs_of ttl_ms, le_epoch = epoch\<rparr> (sm_leases sm)\<rparr>)"
| "sm_apply (ReleaseLease resource holder) now sm =
     (case map_of (sm_leases sm) resource of
        Some existing \<Rightarrow>
          if le_holder existing = holder then sm\<lparr>sm_leases := AList.delete resource (sm_leases sm)\<rparr> else sm
      | None \<Rightarrow> sm)"
| "sm_apply (UpdateMetadata key v version) now sm =
     sm\<lparr>sm_metadata := AList.update key (v, version) (sm_metadata sm)\<rparr>"
| "sm_apply (FenceEpoch node_id min_valid_epoch) now sm =
     sm\<lparr>sm_fenced_epochs := AList.update node_id min_valid_epoch (sm_fenced_epochs sm)\<rparr>"
| "sm_apply Noop now sm = sm"

record peer_progress =
  pp_next_index :: u64
  pp_match_index :: u64
  pp_last_heartbeat :: u64

record raft_stats =
  rs_elections_started :: u64
  rs_terms_advanced :: u64
  rs_proposals_submitted :: u64
  rs_entries_committed :: u64
  rs_rpc_votes_sent :: u64
  rs_rpc_appends_sent :: u64

definition raft_stats_default :: raft_stats where
  "raft_stats_default = \<lparr>rs_elections_started = 0, rs_terms_advanced = 0, rs_proposals_submitted = 0,
     rs_entries_committed = 0, rs_rpc_votes_sent = 0, rs_rpc_appends_sent = 0\<rparr>"

record raft_coordinator =
  rc_node_id :: bytes
  rc_current_term :: u64
  rc_voted_for :: "bytes option"
  rc_role :: raft_role
  rc_leader_id :: "bytes option"
  rc_log :: "raft_log_entry list"
  rc_commit_index :: u64
  rc_last_applied :: u64
  rc_peers :: "(bytes \<times> peer_progress) list"
  rc_votes_received :: "bytes set"
  rc_state_machine :: cluster_sm
  rc_stats :: raft_stats
  rc_lease_epoch_counter :: u64

fun new_peers :: "bytes \<Rightarrow> u64 \<Rightarrow> bytes list \<Rightarrow> (bytes \<times> peer_progress) list \<Rightarrow> (bytes \<times> peer_progress) list" where
  "new_peers node_id inst [] peers = peers"
| "new_peers node_id inst (peer # ps) peers =
     new_peers node_id inst ps
       (if peer \<noteq> node_id
        then AList.update peer \<lparr>pp_next_index = 1, pp_match_index = 0, pp_last_heartbeat = inst\<rparr> peers
        else peers)"

definition rc_new :: "bytes \<Rightarrow> bytes list \<Rightarrow> u64 \<Rightarrow> raft_coordinator" where
  "rc_new node_id peer_ids inst =
     \<lparr>rc_node_id = node_id, rc_current_term = 0, rc_voted_for = None, rc_role = Follower, rc_leader_id = None,
      rc_log = [], rc_commit_index = 0, rc_last_applied = 0, rc_peers = new_peers node_id inst peer_ids [],
      rc_votes_received = {}, rc_state_machine = sm_default, rc_stats = raft_stats_default,
      rc_lease_epoch_counter = 1\<rparr>"

section \<open>Votes\<close>

definition log_len :: "raft_log_entry list \<Rightarrow> u64" where
  "log_len l = word_of_nat (length l)"

definition last_log_term :: "raft_log_entry list \<Rightarrow> u64" where
  "last_log_term l = (if l = [] then 0 else en_term (last l))"

definition handle_request_vote :: "vote_request \<Rightarrow> raft_coordinator \<Rightarrow> raft_coordinator \<times> vote_response" where
  "handle_request_vote req r =
     (let r = (if vq_term req > rc_current_term r
               then r\<lparr>rc_current_term := vq_term req, rc_role := Follower, rc_voted_for := None, rc_leader_id := None,
                      rc_stats := (rc_stats r)\<lparr>rs_terms_advanced := rs_terms_advanced (rc_stats r) + 1\<rparr>\<rparr>
               else r);
          current_term = rc_current_term r;
          refused = \<lparr>vr_term = current_term, vr_vote_granted = False, vr_voter_id = rc_node_id r\<rparr>
      in
      if vq_term req < current_term then (r, refused)
      else
        let my_last_index = log_len (rc_log r);
            my_last_term = last_log_term (rc_log r);
            candidate_log_ok = (vq_last_log_term req > my_last_term
              \<or> vq_last_log_term req = my_last_term \<and> vq_last_log_index req \<ge> my_last_index);
            can_vote = (case rc_voted_for r of None \<Rightarrow> True | Some voted \<Rightarrow> voted = vq_candidate_id req)
        in
        if can_vote \<and> candidate_log_ok
        then (r\<lparr>rc_voted_for := Some (vq_candidate_id req),
                rc_stats := (rc_stats r)\<lparr>rs_rpc_votes_sent := rs_rpc_votes_sent (rc_stats r) + 1\<rparr>\<rparr>,
              \<lparr>vr_term = current_term, vr_vote_granted = True, vr_voter_id = rc_node_id r\<rparr>)
        else (r, refused))"

definition start_election :: "raft_coordinator \<Rightarrow> raft_coordinator \<times> vote_request" where
  "start_election r =
     (let new_term = rc_current_term r + 1;
          r = r\<lparr>rc_stats := (rc_stats r)\<lparr>rs_elections_started := rs_elections_started (rc_stats r) + 1\<rparr>,
                rc_current_term := new_term, rc_role := Candidate, rc_voted_for := Some (rc_node_id r),
                rc_leader_id := None, rc_votes_received := {rc_node_id r}\<rparr>
      in (r, \<lparr>vq_term = new_term, vq_candidate_id = rc_node_id r, vq_last_log_index = log_len (rc_log r),
              vq_last_log_term = last_log_term (rc_log r)\<rparr>))"

section \<open>Applying and proposing\<close>

lemma word_below_succ: "(i :: u64) < w \<Longrightarrow> unat (i + 1) = Suc (unat i)"
  using word_less_nat_alt [of i w] unat_less_2p [of w] by (simp add: unat_word_ariths)

lemma word_less_succ:
  assumes "(i :: u64) \<noteq> - 1"
  shows "i < i + 1"
proof -
  have "i < - 1" using assms word_order.not_eq_extremum by blast
  then show ?thesis using word_below_succ by (simp add: word_less_nat_alt)
qed

lemma below_log_len: "i < log_len l \<Longrightarrow> unat i < length l"
proof -
  assume "i < log_len l"
  moreover have "unat (log_len l) \<le> length l" by (simp add: log_len_def unat_of_nat)
  ultimately show ?thesis by (simp add: word_less_nat_alt)
qed

text \<open>The \<open>while\<close> loop of \<open>apply_committed_entries\<close>; the last component counts the applied entries.\<close>

function apply_loop ::
  "u64 \<Rightarrow> raft_log_entry list \<Rightarrow> u64 \<Rightarrow> u64 \<Rightarrow> cluster_sm \<Rightarrow> u64 \<Rightarrow> u64 \<times> cluster_sm \<times> u64" where
  "apply_loop now log commit_target last_applied sm n =
     (if last_applied < commit_target \<and> last_applied < log_len log
      then apply_loop now log commit_target (last_applied + 1)
             (sm_apply (en_command (log ! unat last_applied)) now sm) (n + 1)
      else (last_applied, sm, n))"
  by pat_completeness auto
termination
  by (relation "measure (\<lambda>(now, log, commit_target, last_applied, sm, n). length log - unat last_applied)")
    (auto simp: word_below_succ dest!: below_log_len)

declare apply_loop.simps [simp del]

definition apply_committed_entries ::
  "u64 \<Rightarrow> raft_log_entry list \<Rightarrow> u64 \<Rightarrow> raft_coordinator \<Rightarrow> raft_coordinator" where
  "apply_committed_entries now log commit_target r =
     (if commit_target > rc_last_applied r then
        let (last_applied, sm, n) =
              apply_loop now log commit_target (rc_last_applied r) (rc_state_machine r) (rs_entries_committed (rc_stats r))
        in r\<lparr>rc_state_machine := sm, rc_last_applied := last_applied,
             rc_stats := (rc_stats r)\<lparr>rs_entries_committed := n\<rparr>\<rparr>
      else r)"

datatype raft_error = RedirectToLeader bytes

definition propose :: "raft_command \<Rightarrow> u64 \<Rightarrow> raft_coordinator \<Rightarrow> raft_coordinator \<times> (raft_error, u64) res" where
  "propose command now r =
     (if rc_role r \<noteq> Leader
      then (r, Err (RedirectToLeader (case rc_leader_id r of Some l \<Rightarrow> l | None \<Rightarrow> lit ''unknown'')))
      else
        let r = r\<lparr>rc_stats := (rc_stats r)\<lparr>rs_proposals_submitted := rs_proposals_submitted (rc_stats r) + 1\<rparr>\<rparr>;
            i = log_len (rc_log r) + 1;
            entry = \<lparr>en_index = i, en_term = rc_current_term r, en_command = command, en_timestamp = now\<rparr>;
            r = r\<lparr>rc_log := rc_log r @ [entry]\<rparr>;
            r = (if rc_peers r = []
                 then apply_committed_entries now (rc_log r) i (r\<lparr>rc_commit_index := i\<rparr>)
                 else r)
        in (r, Ok i))"

text \<open>The caller ignores what \<open>propose\<close> returns.\<close>

definition record_vote :: "bytes \<Rightarrow> bool \<Rightarrow> u64 \<Rightarrow> u64 \<Rightarrow> raft_coordinator \<Rightarrow> raft_coordinator \<times> bool" where
  "record_vote voter_id granted term now r =
     (if term > rc_current_term r
      then (r\<lparr>rc_current_term := term, rc_role := Follower, rc_voted_for := None\<rparr>, False)
      else if rc_role r \<noteq> Candidate \<or> term \<noteq> rc_current_term r \<or> \<not> granted then (r, False)
      else
        let total_nodes = length (rc_peers r) + 1;
            quorum_needed = total_nodes div 2 + 1;
            r = r\<lparr>rc_votes_received := insert voter_id (rc_votes_received r)\<rparr>
        in
        if card (rc_votes_received r) \<ge> quorum_needed then
          let r = r\<lparr>rc_role := Leader, rc_leader_id := Some (rc_node_id r),
                    rc_peers := map (\<lambda>(p, pp). (p, pp\<lparr>pp_next_index := log_len (rc_log r) + 1, pp_match_index := 0\<rparr>)) (rc_peers r)\<rparr>
          in (fst (propose Noop now r), True)
        else (r, False))"

section \<open>Replication\<close>

text \<open>Step 5 of \<open>handle_append_entries\<close>.\<close>

fun append_loop :: "raft_log_entry list \<Rightarrow> raft_log_entry list \<Rightarrow> (unit, raft_log_entry list) res" where
  "append_loop [] log = Ok log"
| "append_loop (entry # entries) log =
     (if en_index entry \<le> log_len log then
        and_then (index log (unat (en_index entry - 1))) (\<lambda>existing.
        append_loop entries
          (if en_term existing \<noteq> en_term entry
           then take (unat (en_index entry - 1)) log @ [entry] else log))
      else append_loop entries (log @ [entry]))"

definition handle_append_entries ::
  "u64 \<Rightarrow> append_request \<Rightarrow> raft_coordinator \<Rightarrow> (unit, raft_coordinator \<times> append_response) res" where
  "handle_append_entries now req r =
     (let r = (if aq_term req > rc_current_term r
               then r\<lparr>rc_current_term := aq_term req, rc_role := Follower, rc_voted_for := None,
                      rc_stats := (rc_stats r)\<lparr>rs_terms_advanced := rs_terms_advanced (rc_stats r) + 1\<rparr>\<rparr>
               else r);
          current_term = rc_current_term r;
          reply = (\<lambda>ok r. (r, \<lparr>ar_term = current_term, ar_success = ok, ar_match_index = log_len (rc_log r),
                               ar_responder_id = rc_node_id r\<rparr>))
      in
      if aq_term req < current_term then Ok (reply False r)
      else
        let r = r\<lparr>rc_role := Follower, rc_leader_id := Some (aq_leader_id req)\<rparr>;
            prev = aq_prev_log_index req
        in
        if prev > 0 \<and> prev > log_len (rc_log r) then Ok (reply False r)
        else
          and_then (if prev > 0 then and_then (index (rc_log r) (unat (prev - 1))) (\<lambda>e. Ok (en_term e \<noteq> aq_prev_log_term req))
                    else Ok False) (\<lambda>mismatch.
          if mismatch then Ok (reply False (r\<lparr>rc_log := take (unat (prev - 1)) (rc_log r)\<rparr>))
          else
            and_then (append_loop (aq_entries req) (rc_log r)) (\<lambda>log.
            let r = r\<lparr>rc_log := log\<rparr>;
                last_log_index = log_len log;
                r = (if aq_leader_commit req > rc_commit_index r
                     then let new_commit = min (aq_leader_commit req) last_log_index
                          in apply_committed_entries now log new_commit (r\<lparr>rc_commit_index := new_commit\<rparr>)
                     else r)
            in Ok (reply True r))))"

definition create_append_entries_for_peer ::
  "bytes \<Rightarrow> raft_coordinator \<Rightarrow> (unit, raft_coordinator \<times> append_request option) res" where
  "create_append_entries_for_peer peer_id r =
     (if rc_role r \<noteq> Leader then Ok (r, None)
      else
        let r = r\<lparr>rc_stats := (rc_stats r)\<lparr>rs_rpc_appends_sent := rs_rpc_appends_sent (rc_stats r) + 1\<rparr>\<rparr> in
        case map_of (rc_peers r) peer_id of
          None \<Rightarrow> Ok (r, None)
        | Some progress \<Rightarrow>
            let log = rc_log r;
                prev_log_index = saturating_sub (pp_next_index progress) 1
            in
            and_then (if prev_log_index > 0 \<and> prev_log_index \<le> log_len log
                      then and_then (index log (unat (prev_log_index - 1))) (\<lambda>e. Ok (en_term e))
                      else Ok 0) (\<lambda>prev_log_term.
            and_then (if pp_next_index progress \<le> log_len log
                      then slice_from log (unat (pp_next_index progress - 1))
                      else Ok []) (\<lambda>entries.
            Ok (r, Some \<lparr>aq_term = rc_current_term r, aq_leader_id = rc_node_id r, aq_prev_log_index = prev_log_index,
                         aq_prev_log_term = prev_log_term, aq_entries = entries,
                         aq_leader_commit = rc_commit_index r\<rparr>))))"

text \<open>The search for the highest index to commit: \<open>((commit + 1)..=len).rev()\<close>.\<close>

definition count_matches :: "(bytes \<times> peer_progress) list \<Rightarrow> u64 \<Rightarrow> nat" where
  "count_matches peers n = 1 + length (filter (\<lambda>(p, pp). pp_match_index pp \<ge> n) peers)"

fun commit_loop ::
  "raft_log_entry list \<Rightarrow> u64 \<Rightarrow> nat \<Rightarrow> (bytes \<times> peer_progress) list \<Rightarrow> u64 list \<Rightarrow> (unit, u64 option) res" where
  "commit_loop log term quorum peers [] = Ok None"
| "commit_loop log term quorum peers (n # ns) =
     and_then (index log (unat (n - 1))) (\<lambda>e.
     if en_term e = term \<and> count_matches peers n \<ge> quorum then Ok (Some n)
     else commit_loop log term quorum peers ns)"

definition range_rev :: "u64 \<Rightarrow> u64 \<Rightarrow> u64 list" where
  "range_rev lo hi = rev (map word_of_nat [unat lo..<Suc (unat hi)])"

definition handle_append_response ::
  "u64 \<Rightarrow> u64 \<Rightarrow> bytes \<Rightarrow> append_response \<Rightarrow> raft_coordinator \<Rightarrow> (unit, raft_coordinator) res" where
  "handle_append_response now inst peer_id resp r =
     (if ar_term resp > rc_current_term r
      then Ok (r\<lparr>rc_current_term := ar_term resp, rc_role := Follower, rc_voted_for := None\<rparr>)
      else if rc_role r \<noteq> Leader \<or> ar_term resp \<noteq> rc_current_term r then Ok r
      else
        let r = (case map_of (rc_peers r) peer_id of
                   Some progress \<Rightarrow>
                     r\<lparr>rc_peers := AList.update peer_id
                         (if ar_success resp
                          then progress\<lparr>pp_match_index := ar_match_index resp, pp_next_index := ar_match_index resp + 1,
                                        pp_last_heartbeat := inst\<rparr>
                          else progress\<lparr>pp_next_index := max (saturating_sub (pp_next_index progress) 1) 1\<rparr>)
                         (rc_peers r)\<rparr>
                 | None \<Rightarrow> r);
            quorum = (length (rc_peers r) + 1) div 2 + 1
        in
        and_then (commit_loop (rc_log r) (rc_current_term r) quorum (rc_peers r)
                    (range_rev (rc_commit_index r + 1) (log_len (rc_log r)))) (\<lambda>found.
        Ok (case found of
              Some n \<Rightarrow> apply_committed_entries now (rc_log r) n (r\<lparr>rc_commit_index := n\<rparr>)
            | None \<Rightarrow> r)))"

section \<open>Clients of the log\<close>

definition commit_index_to :: "u64 \<Rightarrow> u64 \<Rightarrow> raft_coordinator \<Rightarrow> raft_coordinator" where
  "commit_index_to now target_index r =
     (let target = min target_index (log_len (rc_log r))
      in apply_committed_entries now (rc_log r) target (r\<lparr>rc_commit_index := target\<rparr>))"

text \<open>The second reading of the clock, after the proposal, is \<open>now'\<close>.\<close>

definition acquire_lease ::
  "bytes \<Rightarrow> bytes \<Rightarrow> u64 \<Rightarrow> u64 \<Rightarrow> u64 \<Rightarrow> raft_coordinator \<Rightarrow> raft_coordinator \<times> (raft_error, cluster_lease) res" where
  "acquire_lease resource holder ttl_ms now now' r =
     (let epoch = rc_lease_epoch_counter r;
          (r, res) = propose (AcquireLease resource holder ttl_ms epoch) now (r\<lparr>rc_lease_epoch_counter := epoch + 1\<rparr>)
      in (r, and_then res (\<lambda>_. Ok \<lparr>le_resource = resource, le_holder = holder, le_granted_at = now',
                                  le_expires_at = now' + ttl_secs_of ttl_ms, le_epoch = epoch\<rparr>)))"

definition release_lease :: "bytes \<Rightarrow> bytes \<Rightarrow> u64 \<Rightarrow> raft_coordinator \<Rightarrow> raft_coordinator \<times> (raft_error, bool) res" where
  "release_lease resource holder now r =
     (let (r, res) = propose (ReleaseLease resource holder) now r in (r, and_then res (\<lambda>_. Ok True)))"

definition get_lease :: "bytes \<Rightarrow> u64 \<Rightarrow> raft_coordinator \<Rightarrow> cluster_lease option" where
  "get_lease resource now r =
     (case map_of (sm_leases (rc_state_machine r)) resource of
        Some l \<Rightarrow> if lease_is_active l now then Some l else None
      | None \<Rightarrow> None)"

definition list_active_leases :: "u64 \<Rightarrow> raft_coordinator \<Rightarrow> cluster_lease list" where
  "list_active_leases now r = filter (\<lambda>l. lease_is_active l now) (map snd (sm_leases (rc_state_machine r)))"

definition register_node :: "bytes \<Rightarrow> bytes \<Rightarrow> bytes \<Rightarrow> u64 \<Rightarrow> raft_coordinator \<Rightarrow> raft_coordinator \<times> (raft_error, unit) res" where
  "register_node node_id address role now r =
     (let (r, res) = propose (RegisterNode node_id address role) now r in (r, and_then res (\<lambda>_. Ok ())))"

definition decommission_node :: "bytes \<Rightarrow> u64 \<Rightarrow> raft_coordinator \<Rightarrow> raft_coordinator \<times> (raft_error, unit) res" where
  "decommission_node node_id now r =
     (let (r, res) = propose (DecommissionNode node_id) now r in (r, and_then res (\<lambda>_. Ok ())))"

definition fence_epoch :: "bytes \<Rightarrow> u64 \<Rightarrow> u64 \<Rightarrow> raft_coordinator \<Rightarrow> raft_coordinator \<times> (raft_error, unit) res" where
  "fence_epoch node_id min_valid_epoch now r =
     (let (r, res) = propose (FenceEpoch node_id min_valid_epoch) now r in (r, and_then res (\<lambda>_. Ok ())))"

definition get_metadata :: "bytes \<Rightarrow> raft_coordinator \<Rightarrow> (bytes \<times> u64) option" where
  "get_metadata key r = map_of (sm_metadata (rc_state_machine r)) key"

record raft_cluster_status =
  rst_node_id :: bytes
  rst_role :: raft_role
  rst_term :: u64
  rst_leader_id :: "bytes option"
  rst_commit_index :: u64
  rst_log_length :: nat
  rst_peer_count :: nat
  rst_active_leases :: nat
  rst_registered_nodes :: nat
  rst_is_leader :: bool
  rst_votes_granted_in_term :: "bytes option"

definition raft_status :: "u64 \<Rightarrow> raft_coordinator \<Rightarrow> raft_cluster_status" where
  "raft_status now r =
     \<lparr>rst_node_id = rc_node_id r, rst_role = rc_role r, rst_term = rc_current_term r, rst_leader_id = rc_leader_id r,
      rst_commit_index = rc_commit_index r, rst_log_length = length (rc_log r), rst_peer_count = length (rc_peers r),
      rst_active_leases = length (list_active_leases now r), rst_registered_nodes = length (sm_nodes (rc_state_machine r)),
      rst_is_leader = (rc_role r = Leader), rst_votes_granted_in_term = rc_voted_for r\<rparr>"

section \<open>What the handlers do\<close>

text \<open>A lease is not exclusive: a holder that is not fenced takes it over while it is active.\<close>

lemma lease_taken_over:
  assumes "map_of (sm_fenced_epochs sm) holder = None" "now + ttl_secs_of ttl > now"
  shows "\<exists>l. map_of (sm_leases (sm_apply (AcquireLease resource holder ttl epoch) now sm)) resource = Some l
    \<and> le_holder l = holder \<and> lease_is_active l now"
  using assms by (auto simp: lease_is_active_def update_conv')

lemma unat_log_len [simp]: "length l < 2 ^ 64 \<Longrightarrow> unat (log_len l) = length l"
  by (simp add: log_len_def unsigned_of_nat take_bit_nat_eq_self)

lemma log_len_append: "log_len l + 1 = word_of_nat (Suc (length l))"
  by (simp add: log_len_def)

lemma log_len_snoc: "log_len (l @ [e]) = log_len l + 1"
  by (simp add: log_len_def add.commute)

lemma Suc_le_log_len:
  "Suc p < 2 ^ 64 \<Longrightarrow> length l < 2 ^ 64 \<Longrightarrow> (word_of_nat (Suc p) :: u64) \<le> log_len l \<longleftrightarrow> p < length l"
proof -
  assume "Suc p < 2 ^ 64" "length l < 2 ^ 64"
  then have "unat (word_of_nat (Suc p) :: u64) = Suc p" "unat (log_len l) = length l"
    by (simp_all add: unsigned_of_nat take_bit_nat_eq_self del: of_nat_Suc)
  then show ?thesis by (simp add: word_le_nat_alt Suc_le_eq del: of_nat_Suc)
qed

lemma unat_Suc_minus_1: "Suc i < 2 ^ 64 \<Longrightarrow> unat ((word_of_nat (Suc i) :: u64) - 1) = i"
  by (simp add: unsigned_of_nat take_bit_nat_eq_self)

lemma unat_minus_1: "(i :: u64) > 0 \<Longrightarrow> unat (i - 1) = unat i - 1"
  by (metis unat_minus_one word_neq_0_conv)

text \<open>The entries from \<open>a\<close> up to \<open>b\<close> (exclusive), and the state after applying a list of entries at one time.\<close>

definition sm_run :: "(raft_command \<times> u64) list \<Rightarrow> cluster_sm" where
  "sm_run cs = fold (\<lambda>(c, now). sm_apply c now) cs sm_default"

lemma apply_loop_spec:
  assumes "length log < 2 ^ 64" "apply_loop now log t i sm n = (i', sm', n')"
  shows "unat i' = max (unat i) (min (unat t) (length log)) \<and>
    sm' = fold (\<lambda>e. sm_apply (en_command e) now) (take (unat i' - unat i) (drop (unat i) log)) sm"
  using assms
proof (induction now log t i sm n rule: apply_loop.induct)
  case (1 now log t i sm n)
  show ?case
  proof (cases "i < t \<and> i < log_len log")
    case True
    then have i: "unat (i + 1) = Suc (unat i)" "unat i < unat t" "unat i < length log"
      using word_below_succ below_log_len by (auto simp: word_less_nat_alt)
    have ih: "unat i' = max (unat (i + 1)) (min (unat t) (length log)) \<and>
      sm' = fold (\<lambda>e. sm_apply (en_command e) now) (take (unat i' - unat (i + 1)) (drop (unat (i + 1)) log))
        (sm_apply (en_command (log ! unat i)) now sm)"
      using 1(1) [OF True 1(2)] 1(3) True by (simp add: apply_loop.simps [of now log t i])
    then obtain k where k: "unat i' = Suc (unat i) + k" using i by (metis le_iff_add max.cobounded1)
    have "drop (unat i) log = log ! unat i # drop (Suc (unat i)) log" using i(3) by (simp add: Cons_nth_drop_Suc)
    moreover have "unat i' - unat i = Suc k" "unat i' - unat (i + 1) = k" using k i by auto
    ultimately show ?thesis using ih i by auto
  next
    case False
    then have "\<not> (unat i < unat t \<and> unat i < length log)" using 1(2) by (auto simp: word_less_nat_alt)
    then show ?thesis using False 1(3) by (auto simp: apply_loop.simps [of now log t i])
  qed
qed

text \<open>
  Applying up to the commit index continues the run of the state machine over the log, at
  some times; \<open>applied_ok\<close> is that the machine is the result of such a run.
\<close>

definition applied_ok :: "raft_coordinator \<Rightarrow> bool" where
  "applied_ok r \<longleftrightarrow> unat (rc_last_applied r) \<le> length (rc_log r) \<and>
     (\<exists>nows. length nows = unat (rc_last_applied r) \<and>
        rc_state_machine r = sm_run (zip (map en_command (take (unat (rc_last_applied r)) (rc_log r))) nows))"

lemma apply_same [simp]:
  "rc_node_id (apply_committed_entries now log t r) = rc_node_id r"
  "rc_current_term (apply_committed_entries now log t r) = rc_current_term r"
  "rc_voted_for (apply_committed_entries now log t r) = rc_voted_for r"
  "rc_role (apply_committed_entries now log t r) = rc_role r"
  "rc_leader_id (apply_committed_entries now log t r) = rc_leader_id r"
  "rc_log (apply_committed_entries now log t r) = rc_log r"
  "rc_commit_index (apply_committed_entries now log t r) = rc_commit_index r"
  "rc_peers (apply_committed_entries now log t r) = rc_peers r"
  "rc_votes_received (apply_committed_entries now log t r) = rc_votes_received r"
  by (simp_all add: apply_committed_entries_def split: prod.split)

lemma fold_const_time:
  "fold (\<lambda>e. sm_apply (en_command e) now) es sm =
     fold (\<lambda>(c, now). sm_apply c now) (zip (map en_command es) (replicate (length es) now)) sm"
  by (induction es arbitrary: sm) auto

lemma apply_applied:
  assumes "applied_ok r" "length (rc_log r) < 2 ^ 64"
  shows "applied_ok (apply_committed_entries now (rc_log r) t r) \<and>
    unat (rc_last_applied (apply_committed_entries now (rc_log r) t r)) =
      max (unat (rc_last_applied r)) (min (unat t) (length (rc_log r)))"
proof (cases "rc_last_applied r < t")
  case True
  obtain i sm n where run: "apply_loop now (rc_log r) t (rc_last_applied r) (rc_state_machine r)
      (rs_entries_committed (rc_stats r)) = (i, sm, n)" by (metis prod_cases3)
  let ?a = "unat (rc_last_applied r)" and ?l = "rc_log r"
  from apply_loop_spec [OF assms(2) run] have i: "unat i = max ?a (min (unat t) (length ?l))"
    and sm: "sm = fold (\<lambda>e. sm_apply (en_command e) now) (take (unat i - ?a) (drop ?a ?l)) (rc_state_machine r)" by auto
  obtain nows where nows: "length nows = ?a" "?a \<le> length ?l"
    "rc_state_machine r = sm_run (zip (map en_command (take ?a ?l)) nows)"
    using assms(1) by (auto simp: applied_ok_def)
  have le: "?a \<le> unat i" "unat i \<le> length ?l" using i nows(2) by auto
  let ?new = "replicate (unat i - ?a) now"
  have "take (unat i) ?l = take ?a ?l @ take (unat i - ?a) (drop ?a ?l)"
    using le by (metis le_add_diff_inverse take_add)
  then have "sm = sm_run (zip (map en_command (take (unat i) ?l)) (nows @ ?new))"
    using nows le by (simp add: sm fold_const_time sm_run_def min_absorb2)
  moreover have "length (nows @ ?new) = unat i" using nows le by simp
  ultimately have "\<exists>nows. length nows = unat i \<and> sm = sm_run (zip (map en_command (take (unat i) ?l)) nows)" by blast
  then show ?thesis
    using True le unfolding i [symmetric] by (simp add: apply_committed_entries_def run applied_ok_def)
next
  case False
  then have "unat t \<le> unat (rc_last_applied r)" by (simp add: word_less_nat_alt not_less)
  then show ?thesis using False assms by (auto simp: apply_committed_entries_def max_def min_def)
qed

section \<open>The log of a follower\<close>

definition indexed :: "raft_log_entry list \<Rightarrow> bool" where
  "indexed l \<longleftrightarrow> (\<forall>i < length l. en_index (l ! i) = word_of_nat (Suc i))"

text \<open>Two logs match if equal terms at a position make them equal up to it.\<close>

definition logs_match :: "raft_log_entry list \<Rightarrow> raft_log_entry list \<Rightarrow> bool" where
  "logs_match l l' \<longleftrightarrow>
     (\<forall>i. i < length l \<longrightarrow> i < length l' \<longrightarrow> en_term (l ! i) = en_term (l' ! i) \<longrightarrow> take (Suc i) l = take (Suc i) l')"

lemma append_loop_prefix:
  assumes "indexed L" "length L < 2 ^ 64" "p \<le> length L"
  shows "append_loop (drop p L) (take p L) = Ok L"
  using assms(3)
proof (induction "length L - p" arbitrary: p)
  case (Suc k)
  then have p: "p < length L" by simp
  have "\<not> (word_of_nat (Suc p) :: u64) \<le> log_len (take p L)"
    using p assms(2) by (subst Suc_le_log_len) auto
  then have "append_loop (drop p L) (take p L) = append_loop (drop (Suc p) L) (take (Suc p) L)"
    using p assms(1) by (simp add: Cons_nth_drop_Suc [symmetric] indexed_def take_Suc_conv_app_nth)
  then show ?case using Suc(1) [of "Suc p"] Suc(2) p by simp
qed simp

lemma append_loop_spec:
  assumes "indexed L" "length L < 2 ^ 64" "length l < 2 ^ 64" "logs_match l L"
    and "p \<le> length L" "p \<le> length l" "take p l = take p L"
  shows "append_loop (drop p L) l = Ok (if take (length L) l = L then l else L)"
  using assms(5-7)
proof (induction "length L - p" arbitrary: p)
  case (Suc k)
  then have p: "p < length L" by simp
  let ?e = "L ! p"
  have drop: "drop p L = ?e # drop (Suc p) L" using p by (simp add: Cons_nth_drop_Suc)
  have idx: "en_index ?e = word_of_nat (Suc p)" "unat (word_of_nat (Suc p) - 1 :: u64) = p"
    using p assms(1,2) unat_Suc_minus_1 [of p] by (auto simp: indexed_def)
  have le: "(word_of_nat (Suc p) :: u64) \<le> log_len l \<longleftrightarrow> p < length l"
    using p assms(2,3) by (intro Suc_le_log_len) auto
  have grow: "take p l @ [?e] = take (Suc p) L" using p Suc.prems by (simp add: take_Suc_conv_app_nth)
  have fin: "append_loop (drop (Suc p) L) (take (Suc p) L) = Ok L"
    using append_loop_prefix [OF assms(1,2)] p by simp
  consider "p \<ge> length l" | "p < length l" "en_term (l ! p) \<noteq> en_term ?e"
    | "p < length l" "en_term (l ! p) = en_term ?e" by linarith
  then show ?case
  proof cases
    case 1
    then have "append_loop (drop p L) l = Ok L"
      using Suc.prems grow le fin by (simp add: drop idx(1) del: of_nat_Suc)
    moreover have "length (take (length L) l) \<noteq> length L" using 1 p by simp
    ultimately show ?thesis by metis
  next
    case 2
    then have "append_loop (drop p L) l = Ok L"
      using grow fin by (simp add: drop idx le index_def del: of_nat_Suc)
    moreover have "take (length L) l ! p \<noteq> L ! p" using 2 p by auto
    ultimately show ?thesis by auto
  next
    case 3
    then have "append_loop (drop p L) l = append_loop (drop (Suc p) L) l"
      by (simp add: drop idx le index_def del: of_nat_Suc)
    moreover have "take (Suc p) l = take (Suc p) L" using 3 p assms(4) by (simp add: logs_match_def)
    ultimately show ?thesis using Suc(1) [of "Suc p"] Suc(2) 3 p by simp
  qed
qed auto

end
