(* ===== verification/Raft_Cluster.thy ===== *)
theory Raft_Cluster
  imports Raft_Node "HOL-Library.Sublist"
begin

text \<open>
  A cluster of the nodes of Raft_Node that exchange messages over a network which may lose,
  delay, duplicate and reorder them: a message once sent stays in its set and may be delivered
  any number of times, or never. Each step runs one handler of one node to its end. Steps are
  excluded in which a term or a log would outgrow 64 bits, and so are restarts, since a node keeps nothing
  on disk.

  The theory has the step relation, the invariant, and the lemmas that every step keeps it. The
  invariant speaks of a history that the steps determine: who voted for whom in a term and with
  which log, who was elected with which log, and what each leader added.
\<close>

section \<open>The cluster\<close>

record raft_net =
  nt_vote_reqs :: "vote_request set"
  nt_vote_resps :: "(bytes \<times> vote_response) set"
  nt_appends :: "(bytes \<times> append_request) set"
  nt_append_resps :: "(bytes \<times> bytes \<times> append_response) set"

record raft_cluster =
  rl_nodes :: "bytes \<Rightarrow> raft_coordinator"
  rl_net :: raft_net

definition no_messages :: raft_net where
  "no_messages = \<lparr>nt_vote_reqs = {}, nt_vote_resps = {}, nt_appends = {}, nt_append_resps = {}\<rparr>"

definition initial_cluster :: "bytes list \<Rightarrow> u64 \<Rightarrow> raft_cluster" where
  "initial_cluster ids inst = \<lparr>rl_nodes = (\<lambda>n. rc_new n ids inst), rl_net = no_messages\<rparr>"

definition set_node :: "bytes \<Rightarrow> raft_coordinator \<Rightarrow> raft_cluster \<Rightarrow> raft_cluster" where
  "set_node n r c = c\<lparr>rl_nodes := (rl_nodes c)(n := r)\<rparr>"

definition has_room :: "raft_coordinator \<Rightarrow> bool" where
  "has_room r \<longleftrightarrow> length (rc_log r) < 2 ^ 63"

text \<open>
  The transport returns a response to the node that sent the request, so responses carry
  its name; a response to an append also carries the name of the peer that was asked.
\<close>

inductive raft_step :: "bytes list \<Rightarrow> raft_cluster \<Rightarrow> raft_cluster \<Rightarrow> bool" for ids where
  elects: "n \<in> set ids \<Longrightarrow> rc_current_term (rl_nodes c n) \<noteq> - 1 \<Longrightarrow> start_election (rl_nodes c n) = (r, req) \<Longrightarrow>
    raft_step ids c (set_node n r (c\<lparr>rl_net := (rl_net c)\<lparr>nt_vote_reqs := insert req (nt_vote_reqs (rl_net c))\<rparr>\<rparr>))"
| votes: "n \<in> set ids \<Longrightarrow> req \<in> nt_vote_reqs (rl_net c) \<Longrightarrow> handle_request_vote req (rl_nodes c n) = (r, resp) \<Longrightarrow>
    raft_step ids c (set_node n r
      (c\<lparr>rl_net := (rl_net c)\<lparr>nt_vote_resps := insert (vq_candidate_id req, resp) (nt_vote_resps (rl_net c))\<rparr>\<rparr>))"
| records: "n \<in> set ids \<Longrightarrow> (n, resp) \<in> nt_vote_resps (rl_net c) \<Longrightarrow> has_room (rl_nodes c n) \<Longrightarrow>
    record_vote (vr_voter_id resp) (vr_vote_granted resp) (vr_term resp) now (rl_nodes c n) = (r, won) \<Longrightarrow>
    raft_step ids c (set_node n r c)"
| proposes: "n \<in> set ids \<Longrightarrow> has_room (rl_nodes c n) \<Longrightarrow> propose command now (rl_nodes c n) = (r, result) \<Longrightarrow>
    raft_step ids c (set_node n r c)"
| leases: "n \<in> set ids \<Longrightarrow> has_room (rl_nodes c n) \<Longrightarrow>
    acquire_lease resource holder ttl now now' (rl_nodes c n) = (r, granted) \<Longrightarrow>
    raft_step ids c (set_node n r c)"
| sends: "n \<in> set ids \<Longrightarrow> create_append_entries_for_peer p (rl_nodes c n) = Ok (r, Some req) \<Longrightarrow>
    raft_step ids c (set_node n r (c\<lparr>rl_net := (rl_net c)\<lparr>nt_appends := insert (p, req) (nt_appends (rl_net c))\<rparr>\<rparr>))"
| appends: "n \<in> set ids \<Longrightarrow> (n, req) \<in> nt_appends (rl_net c) \<Longrightarrow>
    handle_append_entries now req (rl_nodes c n) = Ok (r, resp) \<Longrightarrow>
    raft_step ids c (set_node n r
      (c\<lparr>rl_net := (rl_net c)\<lparr>nt_append_resps := insert (aq_leader_id req, n, resp) (nt_append_resps (rl_net c))\<rparr>\<rparr>))"
| acks: "n \<in> set ids \<Longrightarrow> (n, p, resp) \<in> nt_append_resps (rl_net c) \<Longrightarrow>
    handle_append_response now inst p resp (rl_nodes c n) = Ok r \<Longrightarrow>
    raft_step ids c (set_node n r c)"

inductive raft_reachable :: "bytes list \<Rightarrow> raft_cluster \<Rightarrow> bool" for ids where
  start: "raft_reachable ids (initial_cluster ids inst)"
| step: "raft_reachable ids c \<Longrightarrow> raft_step ids c c' \<Longrightarrow> raft_reachable ids c'"

section \<open>Majorities\<close>

definition majority :: "bytes list \<Rightarrow> bytes set \<Rightarrow> bool" where
  "majority ids Q \<longleftrightarrow> Q \<subseteq> set ids \<and> card (set ids) div 2 + 1 \<le> card Q"

lemma majorities_meet:
  assumes "majority ids P" "majority ids Q"
  obtains v where "v \<in> P" "v \<in> Q"
proof -
  have fin: "finite P" "finite Q" using assms finite_subset [OF _ finite_set [of ids]] by (auto simp: majority_def)
  have "card (P \<union> Q) \<le> card (set ids)" using assms by (intro card_mono) (auto simp: majority_def)
  then have "card P + card Q - card (P \<inter> Q) \<le> card (set ids)" using card_Un_Int [OF fin] by simp
  moreover have "card P + card Q > card (set ids)" using assms unfolding majority_def by linarith
  ultimately have "card (P \<inter> Q) > 0" by linarith
  then have "P \<inter> Q \<noteq> {}" by force
  then show thesis using that by blast
qed

section \<open>History\<close>

type_synonym raft_log = "raft_log_entry list"

text \<open>
  \<open>h_votes v t\<close> is the candidate that \<open>v\<close> voted for in term \<open>t\<close>, \<open>h_vlog v t\<close> its log at that time
  (if the term had no leader then), \<open>h_elect t\<close> the leader of term \<open>t\<close> and its log when it was
  elected, and \<open>h_own t\<close> the entries that it has added since.
\<close>

record history =
  h_votes :: "bytes \<Rightarrow> u64 \<Rightarrow> bytes option"
  h_vlog :: "bytes \<Rightarrow> u64 \<Rightarrow> raft_log option"
  h_elect :: "u64 \<Rightarrow> (bytes \<times> raft_log) option"
  h_own :: "u64 \<Rightarrow> raft_log"

definition h_new :: history where
  "h_new = \<lparr>h_votes = (\<lambda>_ _. None), h_vlog = (\<lambda>_ _. None), h_elect = (\<lambda>_. None), h_own = (\<lambda>_. [])\<rparr>"

text \<open>The log of the leader of a term.\<close>

definition llog :: "history \<Rightarrow> u64 \<Rightarrow> raft_log" where
  "llog h t = (case h_elect h t of Some (d, il) \<Rightarrow> il @ h_own h t | None \<Rightarrow> [])"

text \<open>Every entry of a log comes, with all that precedes it, from the leader of its term.\<close>

definition good :: "history \<Rightarrow> raft_log \<Rightarrow> bool" where
  "good h l \<longleftrightarrow> (\<forall>i < length l. prefix (take (Suc i) l) (llog h (en_term (l ! i))))"

definition up_to_date :: "raft_log \<Rightarrow> raft_log \<Rightarrow> bool" where
  "up_to_date il l \<longleftrightarrow>
     last_log_term l < last_log_term il \<or> last_log_term l = last_log_term il \<and> length l \<le> length il"

definition elected_ok :: "bytes list \<Rightarrow> history \<Rightarrow> u64 \<Rightarrow> bytes \<Rightarrow> raft_log \<Rightarrow> bool" where
  "elected_ok ids h t d il \<longleftrightarrow>
     d \<in> set ids \<and> good h il \<and> sorted (map en_term il) \<and> (\<forall>e \<in> set il. en_term e < t)
   \<and> h_own h t \<noteq> [] \<and> (\<forall>e \<in> set (h_own h t). en_term e = t)
   \<and> length (llog h t) \<le> 2 ^ 63 \<and> indexed (llog h t)
   \<and> (\<exists>Q. majority ids Q \<and> (\<forall>v \<in> Q. h_votes h v t = Some d \<and> (\<exists>l. h_vlog h v t = Some l \<and> up_to_date il l)))"

definition hist_ok :: "bytes list \<Rightarrow> history \<Rightarrow> bool" where
  "hist_ok ids h \<longleftrightarrow>
     (\<forall>t d il. h_elect h t = Some (d, il) \<longrightarrow> elected_ok ids h t d il)
   \<and> (\<forall>v t l. h_vlog h v t = Some l \<longrightarrow> good h l \<and> h_votes h v t \<noteq> None)
   \<and> (\<forall>v t c. h_votes h v t = Some c \<longrightarrow> v \<in> set ids)"

section \<open>Log matching\<close>

lemma goodD: "good h l \<Longrightarrow> i < length l \<Longrightarrow> prefix (take (Suc i) l) (llog h (en_term (l ! i)))"
  by (simp add: good_def)

lemma take_prefix_eq: "prefix (take n l) L \<Longrightarrow> n \<le> length l \<Longrightarrow> take n L = take n l"
  by (auto simp: prefix_def)

lemma good_match:
  assumes "good h l" "good h l'"
  shows "logs_match l l'"
  unfolding logs_match_def
proof (intro allI impI)
  fix i assume i: "i < length l" "i < length l'" "en_term (l ! i) = en_term (l' ! i)"
  show "take (Suc i) l = take (Suc i) l'"
    using take_prefix_eq [OF goodD [OF assms(1) i(1)]] take_prefix_eq [OF goodD [OF assms(2) i(2)]] i by simp
qed

lemma good_prefix:
  assumes "good h l" "prefix l' l"
  shows "good h l'"
  unfolding good_def
proof (intro allI impI)
  fix i assume i: "i < length l'"
  obtain zs where l: "l = l' @ zs" using assms(2) by (auto simp: prefix_def)
  show "prefix (take (Suc i) l') (llog h (en_term (l' ! i)))"
    using goodD [OF assms(1), of i] i by (simp add: l nth_append)
qed

lemma good_take: "good h l \<Longrightarrow> good h (take n l)"
  by (rule good_prefix) (auto simp: take_is_prefix)

lemma llog_elect: "h_elect h t = Some (d, il) \<Longrightarrow> llog h t = il @ h_own h t"
  by (simp add: llog_def)

lemma hist_elected: "hist_ok ids h \<Longrightarrow> h_elect h t = Some (d, il) \<Longrightarrow> elected_ok ids h t d il"
  by (simp add: hist_ok_def)

lemma hist_voter: "hist_ok ids h \<Longrightarrow> h_votes h v t = Some c \<Longrightarrow> v \<in> set ids"
  unfolding hist_ok_def by blast

lemma hist_vlog: "hist_ok ids h \<Longrightarrow> h_vlog h v t = Some l \<Longrightarrow> good h l \<and> h_votes h v t \<noteq> None"
  unfolding hist_ok_def by blast

lemma good_llog:
  assumes "hist_ok ids h"
  shows "good h (llog h t)"
proof (cases "h_elect h t")
  case (Some e)
  then obtain d il where e: "h_elect h t = Some (d, il)" by (cases e) auto
  from hist_elected [OF assms this] have ok: "good h il" "\<forall>e \<in> set (h_own h t). en_term e = t" by (auto simp: elected_ok_def)
  show ?thesis unfolding good_def
  proof (intro allI impI)
    fix i assume i: "i < length (llog h t)"
    show "prefix (take (Suc i) (llog h t)) (llog h (en_term (llog h t ! i)))"
    proof (cases "i < length il")
      case True
      then show ?thesis using goodD [OF ok(1) True] by (simp add: llog_elect [OF e] nth_append)
    next
      case False
      then have "llog h t ! i \<in> set (h_own h t)" using i by (simp add: llog_elect [OF e] nth_append)
      then have "en_term (llog h t ! i) = t" using ok(2) by blast
      then show ?thesis by (simp add: take_is_prefix)
    qed
  qed
qed (simp add: llog_def good_def)

lemma llog_sorted:
  assumes "hist_ok ids h"
  shows "sorted (map en_term (llog h t)) \<and> (\<forall>e \<in> set (llog h t). en_term e \<le> t)
    \<and> length (llog h t) \<le> 2 ^ 63 \<and> indexed (llog h t)"
proof (cases "h_elect h t")
  case (Some e)
  then obtain d il where e: "h_elect h t = Some (d, il)" by (cases e) auto
  from hist_elected [OF assms this] have ok: "sorted (map en_term il)" "\<forall>e \<in> set il. en_term e < t"
    "\<forall>e \<in> set (h_own h t). en_term e = t" "length (llog h t) \<le> 2 ^ 63" "indexed (llog h t)" by (auto simp: elected_ok_def)
  have "sorted (map en_term (h_own h t))" using ok(3) by (auto simp: sorted_iff_nth_mono)
  then show ?thesis using ok by (auto simp: llog_elect [OF e] sorted_append less_imp_le)
qed (simp add: llog_def indexed_def)

text \<open>So every good log is a prefix of a leader's, and inherits its order.\<close>

lemma good_last:
  assumes "good h l" "l \<noteq> []"
  shows "prefix l (llog h (en_term (last l)))"
  using goodD [OF assms(1), of "length l - 1"] assms(2) by (simp add: last_conv_nth)

lemma good_sorted:
  assumes "hist_ok ids h" "good h l"
  shows "sorted (map en_term l) \<and> length l \<le> 2 ^ 63 \<and> indexed l"
proof (cases "l = []")
  case False
  obtain zs where z: "llog h (en_term (last l)) = l @ zs" using good_last [OF assms(2) False] by (auto simp: prefix_def)
  show ?thesis using llog_sorted [OF assms(1), of "en_term (last l)"] unfolding z
    by (auto simp: sorted_append indexed_def nth_append split: if_splits)
qed (simp add: indexed_def)

lemma good_term_elected:
  assumes "good h l" "e \<in> set l"
  shows "h_elect h (en_term e) \<noteq> None"
proof -
  obtain i where "i < length l" "l ! i = e" using assms(2) by (auto simp: in_set_conv_nth)
  with goodD [OF assms(1), of i] have "llog h (en_term e) \<noteq> []" by auto
  then show ?thesis by (auto simp: llog_def split: option.splits)
qed

section \<open>The invariant\<close>

text \<open>Node \<open>v\<close> has confirmed the first \<open>k\<close> entries of the leader of term \<open>t\<close>, or is that leader.\<close>

definition has_ack :: "raft_net \<Rightarrow> history \<Rightarrow> bytes \<Rightarrow> u64 \<Rightarrow> nat \<Rightarrow> bool" where
  "has_ack M h v t k \<longleftrightarrow>
     (\<exists>d a. (d, v, a) \<in> nt_append_resps M \<and> ar_success a \<and> ar_term a = t \<and> k \<le> unat (ar_match_index a))
   \<or> (\<exists>il. h_elect h t = Some (v, il) \<and> k \<le> length (llog h t))"

text \<open>The leaders of the later terms in \<open>S\<close> were elected with these entries.\<close>

definition kept :: "history \<Rightarrow> u64 \<Rightarrow> nat \<Rightarrow> u64 set \<Rightarrow> bool" where
  "kept h t k S \<longleftrightarrow>
     (\<forall>t' d il. t' \<in> S \<longrightarrow> t < t' \<longrightarrow> h_elect h t' = Some (d, il) \<longrightarrow> prefix (take k (llog h t)) il)"

definition committed :: "bytes list \<Rightarrow> raft_net \<Rightarrow> history \<Rightarrow> u64 \<Rightarrow> nat \<Rightarrow> bool" where
  "committed ids M h t m \<longleftrightarrow>
     (\<exists>d il. h_elect h t = Some (d, il) \<and> length il < m \<and> m \<le> length (llog h t))
   \<and> (\<exists>Q. majority ids Q \<and> (\<forall>v \<in> Q. has_ack M h v t m))"

definition covered :: "bytes list \<Rightarrow> raft_net \<Rightarrow> history \<Rightarrow> u64 \<Rightarrow> nat \<Rightarrow> bool" where
  "covered ids M h T k \<longleftrightarrow> k = 0 \<or> (\<exists>t m. t \<le> T \<and> committed ids M h t m \<and> k \<le> m)"

text \<open>An append request carries a part of its leader's log that ends in an entry of the leader's term.\<close>

definition append_ok :: "bytes list \<Rightarrow> raft_net \<Rightarrow> history \<Rightarrow> bytes \<Rightarrow> append_request \<Rightarrow> bool" where
  "append_ok ids M h p a \<longleftrightarrow>
     (\<exists>d il n. h_elect h (aq_term a) = Some (d, il) \<and> aq_leader_id a = d \<and> p \<noteq> d
        \<and> length il < n \<and> n \<le> length (llog h (aq_term a)) \<and> unat (aq_prev_log_index a) \<le> n
        \<and> (aq_prev_log_index a > 0 \<longrightarrow>
             aq_prev_log_term a = en_term (llog h (aq_term a) ! (unat (aq_prev_log_index a) - 1)))
        \<and> aq_entries a = drop (unat (aq_prev_log_index a)) (take n (llog h (aq_term a))))
   \<and> covered ids M h (aq_term a) (unat (aq_leader_commit a))"

definition ack_ok :: "bytes list \<Rightarrow> history \<Rightarrow> bytes \<Rightarrow> bytes \<Rightarrow> append_response \<Rightarrow> bool" where
  "ack_ok ids h d p a \<longleftrightarrow>
     p \<in> set ids \<and> (\<exists>il. h_elect h (ar_term a) = Some (d, il)) \<and> unat (ar_match_index a) \<le> length (llog h (ar_term a))"

definition net_ok :: "bytes list \<Rightarrow> raft_net \<Rightarrow> history \<Rightarrow> bool" where
  "net_ok ids M h \<longleftrightarrow>
     (\<forall>q \<in> nt_vote_reqs M. vq_candidate_id q \<in> set ids)
   \<and> (\<forall>c a. (c, a) \<in> nt_vote_resps M \<longrightarrow> vr_vote_granted a \<longrightarrow> h_votes h (vr_voter_id a) (vr_term a) = Some c)
   \<and> (\<forall>p a. (p, a) \<in> nt_appends M \<longrightarrow> append_ok ids M h p a)
   \<and> (\<forall>d p a. (d, p, a) \<in> nt_append_resps M \<longrightarrow> ar_success a \<longrightarrow> ack_ok ids h d p a)"

text \<open>A voter's log kept what the voter had confirmed, unless an intermediate leader had lost it.\<close>

definition retained :: "raft_net \<Rightarrow> history \<Rightarrow> bool" where
  "retained M h \<longleftrightarrow>
     (\<forall>v t' l t k. h_vlog h v t' = Some l \<longrightarrow> has_ack M h v t k \<longrightarrow> t < t' \<longrightarrow> kept h t k {..<t'} \<longrightarrow>
        prefix (take k (llog h t)) l)"

definition vote_ok :: "bytes list \<Rightarrow> raft_net \<Rightarrow> history \<Rightarrow> bytes \<Rightarrow> raft_coordinator \<Rightarrow> bool" where
  "vote_ok ids M h n r \<longleftrightarrow>
     rc_node_id r = n \<and> distinct (map fst (rc_peers r)) \<and> fst ` set (rc_peers r) = set ids - {n}
   \<and> (\<forall>t c. h_votes h n t = Some c \<longrightarrow> t \<le> rc_current_term r \<and> (t = rc_current_term r \<longrightarrow> rc_voted_for r = Some c))
   \<and> (\<forall>v t. h_votes h v t = Some n \<longrightarrow> t \<le> rc_current_term r)
   \<and> (\<forall>t il. h_elect h t = Some (n, il) \<longrightarrow> t \<le> rc_current_term r \<and> (t = rc_current_term r \<longrightarrow> rc_role r \<noteq> Candidate))
   \<and> (\<forall>q \<in> nt_vote_reqs M. vq_candidate_id q = n \<longrightarrow> vq_term q \<le> rc_current_term r)
   \<and> (rc_role r \<noteq> Follower \<longrightarrow> finite (rc_votes_received r)
        \<and> (\<forall>v \<in> rc_votes_received r. h_votes h v (rc_current_term r) = Some n))"

definition log_ok :: "raft_net \<Rightarrow> history \<Rightarrow> bytes \<Rightarrow> raft_coordinator \<Rightarrow> bool" where
  "log_ok M h n r \<longleftrightarrow>
     good h (rc_log r) \<and> (\<forall>e \<in> set (rc_log r). en_term e \<le> rc_current_term r)
   \<and> (\<forall>d a. (d, n, a) \<in> nt_append_resps M \<longrightarrow> ar_success a \<longrightarrow> ar_term a \<le> rc_current_term r)
   \<and> (\<forall>t k. has_ack M h n t k \<longrightarrow> kept h t k {..rc_current_term r} \<longrightarrow> prefix (take k (llog h t)) (rc_log r))"

definition candidate_ok :: "raft_net \<Rightarrow> history \<Rightarrow> bytes \<Rightarrow> raft_coordinator \<Rightarrow> bool" where
  "candidate_ok M h n r \<longleftrightarrow> (rc_role r = Candidate \<longrightarrow>
     (\<forall>q \<in> nt_vote_reqs M. vq_candidate_id q = n \<longrightarrow> vq_term q = rc_current_term r \<longrightarrow>
        vq_last_log_index q = log_len (rc_log r) \<and> vq_last_log_term q = last_log_term (rc_log r))
   \<and> (h_elect h (rc_current_term r) = None \<longrightarrow>
        (\<forall>v. h_votes h v (rc_current_term r) = Some n \<longrightarrow>
          (\<exists>l. h_vlog h v (rc_current_term r) = Some l \<and> up_to_date (rc_log r) l))))"

definition leader_ok :: "raft_net \<Rightarrow> history \<Rightarrow> bytes \<Rightarrow> raft_coordinator \<Rightarrow> bool" where
  "leader_ok M h n r \<longleftrightarrow> (rc_role r = Leader \<longrightarrow>
     (\<exists>il. h_elect h (rc_current_term r) = Some (n, il)) \<and> llog h (rc_current_term r) = rc_log r
   \<and> (\<forall>(p, pp) \<in> set (rc_peers r). 1 \<le> unat (pp_next_index pp) \<and> unat (pp_next_index pp) \<le> Suc (length (rc_log r))
        \<and> (pp_match_index pp = 0 \<or> (\<exists>a. (n, p, a) \<in> nt_append_resps M \<and> ar_success a
              \<and> ar_term a = rc_current_term r \<and> ar_match_index a = pp_match_index pp))))"

definition commit_ok :: "bytes list \<Rightarrow> raft_net \<Rightarrow> history \<Rightarrow> raft_coordinator \<Rightarrow> bool" where
  "commit_ok ids M h r \<longleftrightarrow>
     (rc_commit_index r = 0 \<or> (\<exists>t m. t \<le> rc_current_term r \<and> committed ids M h t m \<and> unat (rc_commit_index r) \<le> m
        \<and> prefix (take (unat (rc_commit_index r)) (llog h t)) (rc_log r)))
   \<and> applied_ok r \<and> unat (rc_last_applied r) \<le> unat (rc_commit_index r)"

definition node_ok :: "bytes list \<Rightarrow> raft_net \<Rightarrow> history \<Rightarrow> bytes \<Rightarrow> raft_coordinator \<Rightarrow> bool" where
  "node_ok ids M h n r \<longleftrightarrow>
     vote_ok ids M h n r \<and> log_ok M h n r \<and> candidate_ok M h n r \<and> leader_ok M h n r \<and> commit_ok ids M h r"

definition cluster_ok :: "bytes list \<Rightarrow> history \<Rightarrow> raft_cluster \<Rightarrow> bool" where
  "cluster_ok ids h c \<longleftrightarrow>
     hist_ok ids h \<and> net_ok ids (rl_net c) h \<and> retained (rl_net c) h
   \<and> (\<forall>n \<in> set ids. node_ok ids (rl_net c) h n (rl_nodes c n))"

section \<open>Leader completeness\<close>

lemma prefix_take_le: "prefix (take m l) l' \<Longrightarrow> k \<le> m \<Longrightarrow> prefix (take k l) l'"
  by (metis min.absorb1 take_is_prefix take_take prefix_order.trans)

lemma last_log_term_bound:
  assumes "sorted (map en_term l)" "e \<in> set l"
  shows "en_term e \<le> last_log_term l"
proof -
  obtain i where i: "i < length l" "l ! i = e" using assms(2) by (auto simp: in_set_conv_nth)
  then have "map en_term l ! i \<le> map en_term l ! (length l - 1)" by (intro sorted_nth_mono [OF assms(1)]) auto
  then show ?thesis using i by (auto simp: last_log_term_def last_conv_nth)
qed

text \<open>
  A log at least as recent as one that has the first \<open>m\<close> entries of a term's leader, of which the
  last belongs to that term, has them too, if the leaders in between do.
\<close>

lemma up_to_date_keeps:
  assumes "hist_ok ids h" "good h il" "good h l" "up_to_date il l" "\<forall>e \<in> set il. en_term e < t'"
    and "h_elect h t = Some (d, il0)" "length il0 < m" "m \<le> length (llog h t)"
    and "prefix (take m (llog h t)) l" and "kept h t m {..<t'}"
  shows "prefix (take m (llog h t)) il"
proof -
  let ?P = "take m (llog h t)"
  have "\<forall>e \<in> set (h_own h t). en_term e = t" using hist_elected [OF assms(1,6)] by (simp add: elected_ok_def)
  moreover have "llog h t ! (m - 1) \<in> set (h_own h t)"
    using assms(7,8) by (auto simp: llog_elect [OF assms(6)] nth_append)
  ultimately have tm: "en_term (llog h t ! (m - 1)) = t" by blast
  have ml: "m \<le> length l" using assms(8,9) by (auto simp: prefix_def)
  have "llog h t ! (m - 1) \<in> set l"
    using assms(7,8,9) by (auto simp: prefix_def in_set_conv_nth nth_append intro!: exI [of _ "m - 1"])
  then have tl: "t \<le> last_log_term l"
    using last_log_term_bound [of l "llog h t ! (m - 1)"] good_sorted [OF assms(1,3)] tm by simp
  have "il \<noteq> []"
  proof
    assume "il = []"
    then have "last_log_term il = 0" by (simp add: last_log_term_def)
    then have "l = []" using assms(4) \<open>il = []\<close> by (auto simp: up_to_date_def)
    then show False using ml assms(7) by simp
  qed
  then have last: "last_log_term il = en_term (last il)" "last il \<in> set il" by (simp_all add: last_log_term_def)
  let ?s = "last_log_term il"
  have pre: "prefix il (llog h ?s)" using good_last [OF assms(2) \<open>il \<noteq> []\<close>] last by simp
  have s: "t \<le> ?s" "?s < t'" using assms(4,5) tl last by (auto simp: up_to_date_def)
  show ?thesis
  proof (cases "?s = t")
    case True
    then have "length l \<le> length il" using assms(4) tl by (auto simp: up_to_date_def)
    then have "m \<le> length il" using ml by simp
    then show ?thesis using pre unfolding True by (auto simp: take_is_prefix elim!: prefixE)
  next
    case False
    then have "t < ?s" using s by simp
    obtain d' il' where e: "h_elect h ?s = Some (d', il')"
      using good_term_elected [OF assms(2) last(2)] last(1) by (cases "h_elect h ?s") auto
    have kp: "prefix ?P il'" using assms(10) \<open>t < ?s\<close> s(2) e by (simp add: kept_def)
    have "length il' < length il"
    proof (rule ccontr)
      assume "\<not> ?thesis"
      then have "prefix il il'" using prefix_length_prefix [OF pre, of il'] by (simp add: llog_elect [OF e])
      then have "last il \<in> set il'" using last(2) set_mono_prefix by blast
      then show False using hist_elected [OF assms(1) e] last(1) by (auto simp: elected_ok_def)
    qed
    then have "prefix il' il" using prefix_length_prefix [OF _ pre, of il'] by (simp add: llog_elect [OF e])
    then show ?thesis using kp by (rule prefix_order.trans [rotated])
  qed
qed

lemma leader_complete:
  assumes "hist_ok ids h" "retained M h" "committed ids M h t m"
  shows "kept h t m UNIV"
proof -
  obtain d0 il0 Q where c: "h_elect h t = Some (d0, il0)" "length il0 < m" "m \<le> length (llog h t)"
    "majority ids Q" "\<forall>v \<in> Q. has_ack M h v t m" using assms(3) by (auto simp: committed_def)
  have "\<forall>d il. t < t' \<longrightarrow> h_elect h t' = Some (d, il) \<longrightarrow> prefix (take m (llog h t)) il" for t'
  proof (induction "unat t'" arbitrary: t' rule: less_induct)
    case less
    have kp: "kept h t m {..<t'}" using less by (auto simp: kept_def word_less_nat_alt)
    show ?case
    proof (intro allI impI)
      fix d il assume t: "t < t'" and e: "h_elect h t' = Some (d, il)"
      from hist_elected [OF assms(1) e] obtain P where P: "majority ids P" "good h il" "\<forall>e \<in> set il. en_term e < t'"
        "\<forall>v \<in> P. \<exists>l. h_vlog h v t' = Some l \<and> up_to_date il l" by (auto simp: elected_ok_def)
      obtain v where v: "v \<in> Q" "v \<in> P" using majorities_meet [OF c(4) P(1)] .
      obtain l where l: "h_vlog h v t' = Some l" "up_to_date il l" using P(4) v(2) by blast
      have "prefix (take m (llog h t)) l" using assms(2) l(1) c(5) v(1) t kp unfolding retained_def by blast
      moreover have "good h l" using assms(1) l(1) by (auto simp: hist_ok_def)
      ultimately show "prefix (take m (llog h t)) il"
        using up_to_date_keeps [OF assms(1) P(2) _ l(2) P(3) c(1-3)] kp by blast
    qed
  qed
  then show ?thesis by (auto simp: kept_def)
qed

lemma committed_in_llog:
  assumes "hist_ok ids h" "retained M h" "committed ids M h t m" "t \<le> s" "h_elect h s = Some (d, il)" "k \<le> m"
  shows "prefix (take k (llog h t)) (llog h s)"
proof (cases "t = s")
  case False
  then have "t < s" using assms(4) by simp
  then have "prefix (take m (llog h t)) il"
    using leader_complete [OF assms(1-3)] assms(5) by (simp add: kept_def)
  then show ?thesis using assms(6) by (auto simp: llog_elect [OF assms(5)] intro: prefix_take_le prefix_prefix)
qed (simp add: take_is_prefix)

end
