(* ===== verification/Raft_Invariant.thy ===== *)
theory Raft_Invariant
  imports Raft_Cluster
begin

text \<open>
  What the invariant of Raft_Cluster needs to survive a step: its parts are monotone in the
  history and the network, each kind of change that a handler makes to its own node
  keeps what is said of the node, and a vote extends the history.
\<close>

section \<open>Growing histories\<close>

definition h_le :: "history \<Rightarrow> history \<Rightarrow> bool" where
  "h_le h h' \<longleftrightarrow>
     (\<forall>t e. h_elect h t = Some e \<longrightarrow> h_elect h' t = Some e \<and> prefix (h_own h t) (h_own h' t))
   \<and> (\<forall>v t c. h_votes h v t = Some c \<longrightarrow> h_votes h' v t = Some c)
   \<and> (\<forall>v t l. h_vlog h v t = Some l \<longrightarrow> h_vlog h' v t = Some l)"

definition acks_le :: "raft_net \<Rightarrow> raft_net \<Rightarrow> bool" where
  "acks_le M M' \<longleftrightarrow> nt_append_resps M \<subseteq> nt_append_resps M'"

lemma h_le_refl [simp]: "h_le h h" and acks_le_refl [simp]: "acks_le M M"
  by (auto simp: h_le_def acks_le_def)

lemma llog_mono: "h_le h h' \<Longrightarrow> prefix (llog h t) (llog h' t)"
  by (auto simp: llog_def h_le_def split: option.splits)

lemma llog_take: "h_le h h' \<Longrightarrow> k \<le> length (llog h t) \<Longrightarrow> take k (llog h' t) = take k (llog h t)"
  using llog_mono [of h h' t] by (auto simp: prefix_def)

lemma llog_length: "h_le h h' \<Longrightarrow> length (llog h t) \<le> length (llog h' t)"
  using llog_mono [of h h' t] by (rule prefix_length_le)

lemma good_mono: "h_le h h' \<Longrightarrow> good h l \<Longrightarrow> good h' l"
  using llog_mono by (auto simp: good_def intro: prefix_order.trans)

lemma elect_mono: "h_le h h' \<Longrightarrow> h_elect h t = Some e \<Longrightarrow> h_elect h' t = Some e"
  unfolding h_le_def by blast

lemma has_ack_mono:
  assumes "h_le h h'" "acks_le M M'" "has_ack M h v t k"
  shows "has_ack M' h' v t k"
  using assms(3) unfolding has_ack_def
proof (elim disjE exE conjE)
  fix il assume "h_elect h t = Some (v, il)" "k \<le> length (llog h t)"
  then have "h_elect h' t = Some (v, il)" "k \<le> length (llog h' t)"
    using elect_mono [OF assms(1)] llog_length [OF assms(1), of t] by auto
  then show "(\<exists>d a. (d, v, a) \<in> nt_append_resps M' \<and> ar_success a \<and> ar_term a = t \<and> k \<le> unat (ar_match_index a))
    \<or> (\<exists>il. h_elect h' t = Some (v, il) \<and> k \<le> length (llog h' t))" by blast
qed (use assms(2) in \<open>auto simp: acks_le_def\<close>)

lemma kept_mono: "h_le h h' \<Longrightarrow> kept h' t k S \<Longrightarrow> k \<le> length (llog h t) \<Longrightarrow> kept h t k S"
  using llog_take [of h h' k t] by (auto simp: kept_def h_le_def)

lemma committed_mono:
  assumes "h_le h h'" "acks_le M M'" "committed ids M h t m"
  shows "committed ids M' h' t m"
proof -
  obtain d il Q where c: "h_elect h t = Some (d, il)" "length il < m" "m \<le> length (llog h t)"
    "majority ids Q" "\<forall>v \<in> Q. has_ack M h v t m" using assms(3) by (auto simp: committed_def)
  have "m \<le> length (llog h' t)" using c(3) llog_length [OF assms(1), of t] by simp
  moreover have "\<forall>v \<in> Q. has_ack M' h' v t m" using c(5) has_ack_mono [OF assms(1,2)] by blast
  ultimately show ?thesis using c elect_mono [OF assms(1) c(1)] unfolding committed_def by blast
qed

lemma covered_mono: "h_le h h' \<Longrightarrow> acks_le M M' \<Longrightarrow> covered ids M h T k \<Longrightarrow> covered ids M' h' T k"
  using committed_mono unfolding covered_def by blast

lemma ack_ok_mono: "h_le h h' \<Longrightarrow> ack_ok ids h d p a \<Longrightarrow> ack_ok ids h' d p a"
  using elect_mono [of h h' "ar_term a"] llog_length [of h h' "ar_term a"] unfolding ack_ok_def by fastforce

lemma append_ok_mono:
  assumes "h_le h h'" "acks_le M M'" "append_ok ids M h p a"
  shows "append_ok ids M' h' p a"
proof -
  let ?t = "aq_term a" and ?i = "unat (aq_prev_log_index a)"
  obtain d il n where a: "h_elect h ?t = Some (d, il)" "aq_leader_id a = d" "p \<noteq> d" "length il < n"
    "n \<le> length (llog h ?t)" "?i \<le> n"
    "aq_prev_log_index a > 0 \<longrightarrow> aq_prev_log_term a = en_term (llog h ?t ! (?i - 1))"
    "aq_entries a = drop ?i (take n (llog h ?t))" "covered ids M h ?t (unat (aq_leader_commit a))"
    using assms(3) by (auto simp: append_ok_def)
  obtain zs where z: "llog h' ?t = llog h ?t @ zs" using llog_mono [OF assms(1)] by (auto elim: prefixE)
  have "aq_prev_log_index a > 0 \<longrightarrow> ?i - 1 < length (llog h ?t)" using a(4-6) by auto
  then have "aq_prev_log_index a > 0 \<longrightarrow> aq_prev_log_term a = en_term (llog h' ?t ! (?i - 1))"
    using a(7) by (auto simp: z nth_append)
  then show ?thesis
    using a elect_mono [OF assms(1) a(1)] covered_mono [OF assms(1,2) a(9)]
    unfolding append_ok_def by (intro conjI exI [of _ d] exI [of _ il] exI [of _ n]) (auto simp: z)
qed

lemma ack_length:
  assumes "net_ok ids M h" "has_ack M h v t k"
  shows "k \<le> length (llog h t)"
  using assms by (fastforce simp: net_ok_def has_ack_def ack_ok_def)

lemma ack_elected:
  assumes "net_ok ids M h" "has_ack M h v t k"
  shows "h_elect h t \<noteq> None"
  using assms by (fastforce simp: net_ok_def has_ack_def ack_ok_def)

text \<open>What a node relies on survives the steps of the others.\<close>

lemma node_ok_mono:
  assumes "node_ok ids M h n r" "net_ok ids M h" "h_le h h'" "acks_le M M'"
    and "\<forall>t. h_votes h' n t = h_votes h n t"
    and "\<forall>v t. h_votes h' v t = Some n \<longrightarrow> h_votes h v t = Some n \<or>
      t \<le> rc_current_term r \<and> (t = rc_current_term r \<longrightarrow> rc_role r = Candidate \<longrightarrow> h_elect h' t = None \<longrightarrow>
        (\<exists>l. h_vlog h' v t = Some l \<and> up_to_date (rc_log r) l))"
    and "\<forall>t il. h_elect h' t = Some (n, il) \<longrightarrow> h_elect h t = Some (n, il) \<and> h_own h' t = h_own h t"
    and "\<forall>q \<in> nt_vote_reqs M'. vq_candidate_id q = n \<longrightarrow> q \<in> nt_vote_reqs M"
    and "\<forall>d a. (d, n, a) \<in> nt_append_resps M' \<longrightarrow> ar_success a \<longrightarrow> (d, n, a) \<in> nt_append_resps M"
  shows "node_ok ids M' h' n r"
proof -
  have ok: "vote_ok ids M h n r" "log_ok M h n r" "candidate_ok M h n r" "leader_ok M h n r" "commit_ok ids M h r"
    using assms(1) by (auto simp: node_ok_def)
  have ll: "llog h' t = llog h t" if "h_elect h' t = Some (n, il)" for t il
    using assms(7) that by (auto simp: llog_def)
  have ack: "has_ack M h n t k" if "has_ack M' h' n t k" for t k
    using that assms(7,9) ll unfolding has_ack_def by metis
  have votes: "h_votes h' v t = Some c" if "h_votes h v t = Some c" for v t c
    using assms(3) that by (simp add: h_le_def)
  have vlogs: "h_vlog h' v t = Some l" if "h_vlog h v t = Some l" for v t l
    using assms(3) that by (simp add: h_le_def)
  note v = ok(1) [unfolded vote_ok_def]
  have "\<forall>t c. h_votes h' n t = Some c \<longrightarrow> t \<le> rc_current_term r \<and> (t = rc_current_term r \<longrightarrow> rc_voted_for r = Some c)"
    using v assms(5) by simp
  moreover have "\<forall>v t. h_votes h' v t = Some n \<longrightarrow> t \<le> rc_current_term r" using v assms(6) by blast
  moreover have "\<forall>t il. h_elect h' t = Some (n, il) \<longrightarrow> t \<le> rc_current_term r \<and> (t = rc_current_term r \<longrightarrow> rc_role r \<noteq> Candidate)"
    using v assms(7) by blast
  moreover have "\<forall>q \<in> nt_vote_reqs M'. vq_candidate_id q = n \<longrightarrow> vq_term q \<le> rc_current_term r"
    using v assms(8) by blast
  ultimately have "vote_ok ids M' h' n r" using v votes by (simp add: vote_ok_def)
  moreover have "log_ok M' h' n r"
    unfolding log_ok_def
  proof (intro conjI allI impI)
    fix t k assume a: "has_ack M' h' n t k" "kept h' t k {..rc_current_term r}"
    have k: "k \<le> length (llog h t)" using ack_length [OF assms(2) ack [OF a(1)]] .
    have "prefix (take k (llog h t)) (rc_log r)"
      using ok(2) ack [OF a(1)] kept_mono [OF assms(3) a(2) k] by (simp add: log_ok_def)
    then show "prefix (take k (llog h' t)) (rc_log r)" using llog_take [OF assms(3) k] by simp
  next
    show "good h' (rc_log r)" using ok(2) good_mono [OF assms(3)] by (simp add: log_ok_def)
  next
    fix d a assume "(d, n, a) \<in> nt_append_resps M'" "ar_success a"
    then show "ar_term a \<le> rc_current_term r" using ok(2) assms(9) unfolding log_ok_def by blast
  qed (use ok(2) in \<open>simp add: log_ok_def\<close>)
  moreover have "candidate_ok M' h' n r"
  proof -
    have "\<exists>l. h_vlog h' v (rc_current_term r) = Some l \<and> up_to_date (rc_log r) l"
      if c: "rc_role r = Candidate" "h_elect h' (rc_current_term r) = None" "h_votes h' v (rc_current_term r) = Some n" for v
    proof (cases "h_votes h v (rc_current_term r) = Some n")
      case True
      have "h_elect h (rc_current_term r) = None"
        using c(2) elect_mono [OF assms(3), of "rc_current_term r"] by (cases "h_elect h (rc_current_term r)") auto
      then show ?thesis using ok(3) c(1) True vlogs unfolding candidate_ok_def by blast
    next
      case False
      then show ?thesis using assms(6) c by blast
    qed
    then show ?thesis using ok(3) assms(8) by (simp add: candidate_ok_def)
  qed
  moreover have "leader_ok M' h' n r"
  proof (cases "rc_role r = Leader")
    case True
    then obtain il where "h_elect h (rc_current_term r) = Some (n, il)" using ok(4) by (auto simp: leader_ok_def)
    then have e: "h_elect h' (rc_current_term r) = Some (n, il)" by (rule elect_mono [OF assms(3)])
    have sub: "nt_append_resps M \<subseteq> nt_append_resps M'" using assms(4) by (simp add: acks_le_def)
    show ?thesis using ok(4) True e ll [OF e] sub unfolding leader_ok_def by fastforce
  qed (simp add: leader_ok_def)
  moreover have "commit_ok ids M' h' r"
  proof -
    have "\<exists>t m. t \<le> rc_current_term r \<and> committed ids M' h' t m \<and> unat (rc_commit_index r) \<le> m
        \<and> prefix (take (unat (rc_commit_index r)) (llog h' t)) (rc_log r)" if nz: "rc_commit_index r \<noteq> 0"
    proof -
      obtain t m where c: "t \<le> rc_current_term r" "committed ids M h t m" "unat (rc_commit_index r) \<le> m"
        "prefix (take (unat (rc_commit_index r)) (llog h t)) (rc_log r)" using ok(5) nz by (auto simp: commit_ok_def)
      have "m \<le> length (llog h t)" using c(2) by (auto simp: committed_def)
      then have "take (unat (rc_commit_index r)) (llog h' t) = take (unat (rc_commit_index r)) (llog h t)"
        using c(3) by (intro llog_take [OF assms(3)]) simp
      then show ?thesis using c committed_mono [OF assms(3,4) c(2)] by metis
    qed
    then show ?thesis using ok(5) by (auto simp: commit_ok_def)
  qed
  ultimately show ?thesis by (simp add: node_ok_def)
qed

section \<open>Changes of one node\<close>

lemma vote_okD:
  assumes "vote_ok ids M h n r"
  shows "rc_node_id r = n" "distinct (map fst (rc_peers r))" "fst ` set (rc_peers r) = set ids - {n}"
    "h_votes h n t = Some c \<Longrightarrow> t \<le> rc_current_term r" "h_votes h n (rc_current_term r) = Some c \<Longrightarrow> rc_voted_for r = Some c"
    "h_votes h v t = Some n \<Longrightarrow> t \<le> rc_current_term r"
    "h_elect h t = Some (n, il) \<Longrightarrow> t \<le> rc_current_term r"
    "h_elect h (rc_current_term r) = Some (n, il) \<Longrightarrow> rc_role r \<noteq> Candidate"
    "q \<in> nt_vote_reqs M \<Longrightarrow> vq_candidate_id q = n \<Longrightarrow> vq_term q \<le> rc_current_term r"
    "rc_role r \<noteq> Follower \<Longrightarrow> finite (rc_votes_received r)"
    "rc_role r \<noteq> Follower \<Longrightarrow> v \<in> rc_votes_received r \<Longrightarrow> h_votes h v (rc_current_term r) = Some n"
  using assms unfolding vote_ok_def by (simp_all, blast)

lemma log_okD:
  assumes "log_ok M h n r"
  shows "good h (rc_log r)" "e \<in> set (rc_log r) \<Longrightarrow> en_term e \<le> rc_current_term r"
    "(d, n, a) \<in> nt_append_resps M \<Longrightarrow> ar_success a \<Longrightarrow> ar_term a \<le> rc_current_term r"
    "has_ack M h n t k \<Longrightarrow> kept h t k {..rc_current_term r} \<Longrightarrow> prefix (take k (llog h t)) (rc_log r)"
  using assms unfolding log_ok_def by blast+

lemma node_okD:
  assumes "node_ok ids M h n r"
  shows "vote_ok ids M h n r" "log_ok M h n r" "candidate_ok M h n r" "leader_ok M h n r" "commit_ok ids M h r"
  using assms by (auto simp: node_ok_def)

lemma node_ok_quiet [simp]:
  "node_ok ids M h n (r\<lparr>rc_leader_id := l\<rparr>) = node_ok ids M h n r"
  "node_ok ids M h n (r\<lparr>rc_stats := s\<rparr>) = node_ok ids M h n r"
  "node_ok ids M h n (r\<lparr>rc_lease_epoch_counter := k\<rparr>) = node_ok ids M h n r"
  by (simp_all add: node_ok_def vote_ok_def log_ok_def candidate_ok_def leader_ok_def commit_ok_def applied_ok_def)

lemma kept_subset: "kept h t k S \<Longrightarrow> S' \<subseteq> S \<Longrightarrow> kept h t k S'"
  by (auto simp: kept_def)

lemma commit_ok_term:
  assumes "commit_ok ids M h r" "rc_current_term r \<le> rc_current_term r'"
    and "rc_commit_index r' = rc_commit_index r" "rc_log r' = rc_log r" "rc_last_applied r' = rc_last_applied r"
    "rc_state_machine r' = rc_state_machine r"
  shows "commit_ok ids M h r'"
proof -
  have "s \<le> rc_current_term r'" if "s \<le> rc_current_term r" for s using that assms(2) by simp
  then have "rc_commit_index r = 0 \<or> (\<exists>t m. t \<le> rc_current_term r' \<and> committed ids M h t m
      \<and> unat (rc_commit_index r) \<le> m \<and> prefix (take (unat (rc_commit_index r)) (llog h t)) (rc_log r))"
    using assms(1) unfolding commit_ok_def by blast
  then show ?thesis using assms(1,3-6) unfolding commit_ok_def applied_ok_def by simp
qed

lemma node_stepdown:
  assumes "node_ok ids M h n r" "rc_current_term r < t"
  shows "node_ok ids M h n (r\<lparr>rc_current_term := t, rc_role := Follower, rc_voted_for := None\<rparr>)"
proof -
  have le: "s \<le> t \<and> s \<noteq> t" if "s \<le> rc_current_term r" for s using that assms(2) by auto
  have ok: "vote_ok ids M h n r" "log_ok M h n r" "commit_ok ids M h r" using assms(1) by (auto simp: node_ok_def)
  let ?r = "r\<lparr>rc_current_term := t, rc_role := Follower, rc_voted_for := None\<rparr>"
  have "\<forall>s c. h_votes h n s = Some c \<longrightarrow> s \<le> t \<and> s \<noteq> t" "\<forall>v s. h_votes h v s = Some n \<longrightarrow> s \<le> t"
    "\<forall>s il. h_elect h s = Some (n, il) \<longrightarrow> s \<le> t" "\<forall>q \<in> nt_vote_reqs M. vq_candidate_id q = n \<longrightarrow> vq_term q \<le> t"
    using ok(1) le unfolding vote_ok_def by blast+
  then have "vote_ok ids M h n ?r" using ok(1) by (simp add: vote_ok_def)
  moreover have "\<forall>e \<in> set (rc_log r). en_term e \<le> t"
    "\<forall>d a. (d, n, a) \<in> nt_append_resps M \<longrightarrow> ar_success a \<longrightarrow> ar_term a \<le> t"
    using ok(2) le unfolding log_ok_def by blast+
  moreover have "kept h s k {..rc_current_term r}" if "kept h s k {..t}" for s k
    using that assms(2) by (auto intro: kept_subset)
  ultimately have "vote_ok ids M h n ?r" "log_ok M h n ?r" using ok(2) by (simp_all add: log_ok_def)
  moreover have "commit_ok ids M h ?r" by (rule commit_ok_term [OF ok(3)]) (use assms(2) in auto)
  ultimately show ?thesis by (simp add: node_ok_def candidate_ok_def leader_ok_def)
qed

lemma node_follower:
  "node_ok ids M h n r \<Longrightarrow> node_ok ids M h n (r\<lparr>rc_role := Follower\<rparr>)"
  by (simp add: node_ok_def vote_ok_def log_ok_def candidate_ok_def leader_ok_def commit_ok_def applied_ok_def)

lemma ack_term:
  assumes "node_ok ids M h n r" "has_ack M h n t k"
  shows "t \<le> rc_current_term r"
  using assms unfolding node_ok_def vote_ok_def log_ok_def has_ack_def by blast

text \<open>A follower takes over a log that keeps whatever its own shares with its leader's.\<close>

lemma node_log:
  assumes "node_ok ids M h n r" "hist_ok ids h" "retained M h" "rc_role r = Follower"
    and "h_elect h (rc_current_term r) = Some (d, il)"
    and "good h l" "\<forall>e \<in> set l. en_term e \<le> rc_current_term r"
    and keep: "\<And>P. prefix P (rc_log r) \<Longrightarrow> prefix P (llog h (rc_current_term r)) \<Longrightarrow> prefix P l"
  shows "node_ok ids M h n (r\<lparr>rc_log := l\<rparr>)"
proof -
  let ?T = "rc_current_term r"
  have ok: "vote_ok ids M h n r" "log_ok M h n r" "commit_ok ids M h r" using assms(1) by (auto simp: node_ok_def)
  have "log_ok M h n (r\<lparr>rc_log := l\<rparr>)"
  proof -
    have "prefix (take k (llog h t)) l" if a: "has_ack M h n t k" "kept h t k {..?T}" for t k
    proof (rule keep)
      show "prefix (take k (llog h t)) (rc_log r)" using ok(2) a by (simp add: log_ok_def)
      have "t \<le> ?T" by (rule ack_term [OF assms(1) a(1)])
      show "prefix (take k (llog h t)) (llog h ?T)"
      proof (cases "t = ?T")
        case False
        then have "t < ?T" using \<open>t \<le> ?T\<close> by simp
        then have "prefix (take k (llog h t)) il" using a(2) assms(5) unfolding kept_def by blast
        then show ?thesis by (simp add: llog_elect [OF assms(5)])
      qed (simp add: take_is_prefix)
    qed
    then show ?thesis using ok(2) assms(6,7) by (simp add: log_ok_def)
  qed
  moreover have "commit_ok ids M h (r\<lparr>rc_log := l\<rparr>)"
  proof (cases "rc_commit_index r = 0")
    case True
    then show ?thesis using ok(3) by (auto simp: commit_ok_def applied_ok_def)
  next
    case False
    let ?k = "unat (rc_commit_index r)"
    obtain t m where c: "t \<le> ?T" "committed ids M h t m" "?k \<le> m" "prefix (take ?k (llog h t)) (rc_log r)"
      using ok(3) False by (auto simp: commit_ok_def)
    have p: "prefix (take ?k (llog h t)) l"
      using keep [OF c(4)] committed_in_llog [OF assms(2,3) c(2,1) assms(5) c(3)] by simp
    have k: "?k \<le> length (llog h t)" using c(2,3) by (auto simp: committed_def)
    have "take ?k (rc_log r) = take ?k l \<and> ?k \<le> length l" using c(4) p k by (auto simp: prefix_def)
    then have "take (unat (rc_last_applied r)) (rc_log r) = take (unat (rc_last_applied r)) l" "unat (rc_last_applied r) \<le> length l"
      using ok(3) by (auto simp: commit_ok_def) (metis min.absorb1 take_take)
    then show ?thesis using ok(3) c(1-3) p by (auto simp: commit_ok_def applied_ok_def)
  qed
  ultimately show ?thesis using ok(1) assms(4)
    by (simp add: node_ok_def vote_ok_def candidate_ok_def leader_ok_def)
qed

lemma node_log_bound:
  assumes "node_ok ids M h n r" "hist_ok ids h"
  shows "length (rc_log r) \<le> 2 ^ 63" "length (rc_log r) < 2 ^ 64" "unat (log_len (rc_log r)) = length (rc_log r)"
proof -
  show le: "length (rc_log r) \<le> 2 ^ 63" using assms good_sorted by (auto simp: node_ok_def log_ok_def)
  then show lt: "length (rc_log r) < 2 ^ 64" by simp
  then show "unat (log_len (rc_log r)) = length (rc_log r)" by simp
qed

lemma commit_le_log:
  assumes "commit_ok ids M h r"
  shows "unat (rc_commit_index r) \<le> length (rc_log r)"
proof (cases "rc_commit_index r = 0")
  case False
  then obtain t m where "committed ids M h t m" "unat (rc_commit_index r) \<le> m"
    "prefix (take (unat (rc_commit_index r)) (llog h t)) (rc_log r)" using assms by (auto simp: commit_ok_def)
  then show ?thesis using prefix_length_le by (fastforce simp: committed_def)
qed simp

lemma node_commit:
  assumes "node_ok ids M h n r" "hist_ok ids h" "rc_commit_index r \<le> k"
    and "t \<le> rc_current_term r" "committed ids M h t m" "unat k \<le> m"
    and "prefix (take (unat k) (llog h t)) (rc_log r)"
  shows "node_ok ids M h n (apply_committed_entries now (rc_log r) k (r\<lparr>rc_commit_index := k\<rparr>))"
proof -
  let ?r = "r\<lparr>rc_commit_index := k\<rparr>"
  have ok: "applied_ok r" "unat (rc_last_applied r) \<le> unat (rc_commit_index r)" using assms(1) by (auto simp: node_ok_def commit_ok_def)
  have "applied_ok ?r" using ok(1) by (simp add: applied_ok_def)
  from apply_applied [OF this, of now k] node_log_bound [OF assms(1,2)]
  have "applied_ok (apply_committed_entries now (rc_log r) k ?r)
    \<and> unat (rc_last_applied (apply_committed_entries now (rc_log r) k ?r)) \<le> unat k"
    using ok(2) assms(3) by (auto simp: word_le_nat_alt)
  then have "commit_ok ids M h (apply_committed_entries now (rc_log r) k ?r)"
    using assms(4-7) by (auto simp: commit_ok_def)
  then show ?thesis
    using assms(1) by (simp add: node_ok_def vote_ok_def log_ok_def candidate_ok_def leader_ok_def)
qed

section \<open>Histories after a step\<close>

lemma hist_mono:
  assumes "hist_ok ids h" "h_le h h'"
    and "\<And>t d il. h_elect h' t = Some (d, il) \<Longrightarrow>
      h_elect h t = Some (d, il) \<and> h_own h' t = h_own h t \<or> elected_ok ids h' t d il"
    and "\<And>v t l. h_vlog h' v t = Some l \<Longrightarrow> h_vlog h v t = Some l \<or> good h l \<and> h_votes h' v t \<noteq> None"
    and "\<And>v t c. h_votes h' v t = Some c \<Longrightarrow> v \<in> set ids"
  shows "hist_ok ids h'"
  unfolding hist_ok_def
proof (intro conjI allI impI)
  fix t d il assume e: "h_elect h' t = Some (d, il)"
  show "elected_ok ids h' t d il"
    using assms(3) [OF e]
  proof
    assume same: "h_elect h t = Some (d, il) \<and> h_own h' t = h_own h t"
    then have "llog h' t = llog h t" using e by (simp add: llog_def)
    moreover have "elected_ok ids h t d il" using hist_elected [OF assms(1)] same by simp
    moreover have "h_votes h' v t = Some d \<and> (\<exists>l. h_vlog h' v t = Some l \<and> up_to_date il l)"
      if "h_votes h v t = Some d \<and> (\<exists>l. h_vlog h v t = Some l \<and> up_to_date il l)" for v
      using that assms(2) unfolding h_le_def by blast
    ultimately show ?thesis using same good_mono [OF assms(2), of il] unfolding elected_ok_def by auto
  qed
next
  fix v t l assume "h_vlog h' v t = Some l"
  then have l: "h_vlog h v t = Some l \<or> good h l \<and> h_votes h' v t \<noteq> None" by (rule assms(4))
  then show "good h' l" using hist_vlog [OF assms(1)] good_mono [OF assms(2)] by blast
  show "h_votes h' v t \<noteq> None"
  proof (cases "h_vlog h v t = Some l")
    case True
    then obtain c where "h_votes h v t = Some c" using hist_vlog [OF assms(1)] by blast
    then show ?thesis using assms(2) by (simp add: h_le_def)
  qed (use l in simp)
qed (use assms(5) in blast)

lemma net_mono:
  assumes "net_ok ids M h" "h_le h h'"
  shows "net_ok ids M h'"
proof -
  have "h_votes h' v t = Some c" if "h_votes h v t = Some c" for v t c
    using assms(2) that by (simp add: h_le_def)
  then show ?thesis
    using assms(1) append_ok_mono [OF assms(2) acks_le_refl, of ids M] ack_ok_mono [OF assms(2), of ids]
    unfolding net_ok_def by simp
qed

lemma retained_mono:
  assumes "retained M h" "net_ok ids M h" "h_le h h'"
    and "\<And>v t k. has_ack M' h' v t k \<Longrightarrow> has_ack M h v t k \<or> (\<forall>t'>t. h_vlog h' v t' = None)"
    and "\<And>v t' l t k. h_vlog h' v t' = Some l \<Longrightarrow> has_ack M h v t k \<Longrightarrow> t < t' \<Longrightarrow> kept h t k {..<t'} \<Longrightarrow>
      h_vlog h v t' = Some l \<or> prefix (take k (llog h t)) l"
  shows "retained M' h'"
  unfolding retained_def
proof (intro allI impI)
  fix v t' l t k assume a: "h_vlog h' v t' = Some l" "has_ack M' h' v t k" "t < t'" "kept h' t k {..<t'}"
  have ack: "has_ack M h v t k" using assms(4) [OF a(2)] a(1,3) by auto
  have k: "k \<le> length (llog h t)" by (rule ack_length [OF assms(2) ack])
  have kp: "kept h t k {..<t'}" by (rule kept_mono [OF assms(3) a(4) k])
  have "prefix (take k (llog h t)) l"
    using assms(5) [OF a(1) ack a(3) kp] assms(1) ack a(3) kp unfolding retained_def by blast
  then show "prefix (take k (llog h' t)) l" using llog_take [OF assms(3) k] by simp
qed

lemma cluster_okI:
  assumes "cluster_ok ids h c" "hist_ok ids h'" "net_ok ids M h'" "retained M h'" "node_ok ids M h' n r"
    and "\<And>m. m \<in> set ids \<Longrightarrow> m \<noteq> n \<Longrightarrow> node_ok ids M h' m (rl_nodes c m)"
  shows "cluster_ok ids h' (set_node n r (c\<lparr>rl_net := M\<rparr>))"
  using assms by (simp add: cluster_ok_def set_node_def)

lemma cluster_node:
  assumes "cluster_ok ids h c" "node_ok ids (rl_net c) h n r"
  shows "cluster_ok ids h (set_node n r c)"
  using assms by (simp add: cluster_ok_def set_node_def)

lemma cluster_parts:
  assumes "cluster_ok ids h c"
  shows "hist_ok ids h" "net_ok ids (rl_net c) h" "retained (rl_net c) h"
    "n \<in> set ids \<Longrightarrow> node_ok ids (rl_net c) h n (rl_nodes c n)"
  using assms by (auto simp: cluster_ok_def)

section \<open>Votes\<close>

text \<open>The history after \<open>v\<close>, with log \<open>l\<close>, votes for \<open>c\<close> in term \<open>t\<close>.\<close>

definition h_vote :: "bytes \<Rightarrow> u64 \<Rightarrow> bytes \<Rightarrow> raft_log \<Rightarrow> history \<Rightarrow> history" where
  "h_vote v t c l h =
     (if h_votes h v t \<noteq> None then h
      else h\<lparr>h_votes := (\<lambda>w s. if w = v \<and> s = t then Some c else h_votes h w s),
             h_vlog := (\<lambda>w s. if w = v \<and> s = t \<and> h_elect h t = None then Some l else h_vlog h w s)\<rparr>)"

lemma h_vote_same [simp]:
  "h_elect (h_vote v t c l h) = h_elect h" "h_own (h_vote v t c l h) = h_own h" "llog (h_vote v t c l h) = llog h"
  by (auto simp: h_vote_def llog_def fun_eq_iff split: option.splits)

lemma h_vote_votes:
  "h_votes (h_vote v t c l h) w s = (if w = v \<and> s = t \<and> h_votes h v t = None then Some c else h_votes h w s)"
  by (auto simp: h_vote_def)

lemma h_vote_le:
  assumes "hist_ok ids h"
  shows "h_le h (h_vote v t c l h)"
proof -
  have "h_vlog h v t = None" if "h_votes h v t = None"
    using hist_vlog [OF assms, of v t] that by (cases "h_vlog h v t") auto
  then show ?thesis by (auto simp: h_vote_def h_le_def)
qed

lemma h_vote_hist:
  assumes "hist_ok ids h" "v \<in> set ids" "good h l"
  shows "hist_ok ids (h_vote v t c l h)"
proof (rule hist_mono [OF assms(1) h_vote_le [OF assms(1)]])
  show "w \<in> set ids" if "h_votes (h_vote v t c l h) w s = Some x" for w s x
    using that assms(2) hist_voter [OF assms(1), of w s] by (auto simp: h_vote_votes split: if_splits)
  show "h_vlog h w s = Some x \<or> good h x \<and> h_votes (h_vote v t c l h) w s \<noteq> None"
    if "h_vlog (h_vote v t c l h) w s = Some x" for w s x
    using that assms(3) by (auto simp: h_vote_def split: if_splits)
qed simp

lemma has_ack_vote [simp]: "has_ack M (h_vote v t c l h) = has_ack M h"
  and kept_vote [simp]: "kept (h_vote v t c l h) = kept h"
  by (simp_all add: has_ack_def kept_def fun_eq_iff)

lemma has_ack_net:
  "nt_append_resps M' = nt_append_resps M \<Longrightarrow> has_ack M' h v t k = has_ack M h v t k"
  by (simp add: has_ack_def)

lemma h_vote_retained:
  assumes "cluster_ok ids h c" "v \<in> set ids" "rc_current_term (rl_nodes c v) \<le> t"
    and "nt_append_resps M' = nt_append_resps (rl_net c)"
  shows "retained M' (h_vote v t x (rc_log (rl_nodes c v)) h)"
proof (rule retained_mono [OF cluster_parts(3) [OF assms(1)] cluster_parts(2) [OF assms(1)] h_vote_le [OF cluster_parts(1) [OF assms(1)]]])
  let ?r = "rl_nodes c v"
  fix w t' l s k
  assume a: "h_vlog (h_vote v t x (rc_log ?r) h) w t' = Some l" "has_ack (rl_net c) h w s k" "s < t'" "kept h s k {..<t'}"
  show "h_vlog h w t' = Some l \<or> prefix (take k (llog h s)) l"
  proof (cases "h_vlog h w t' = Some l")
    case False
    then have new: "w = v" "t' = t" "l = rc_log ?r" "h_elect h t = None" using a(1) by (auto simp: h_vote_def split: if_splits)
    have "kept h s k {..rc_current_term ?r}"
      unfolding kept_def
    proof (intro allI impI)
      fix u d il assume u: "u \<in> {..rc_current_term ?r}" "s < u" "h_elect h u = Some (d, il)"
      then have "u \<noteq> t" using new(4) by auto
      then have "u < t" using u(1) assms(3) by (simp add: order.strict_iff_order)
      then show "prefix (take k (llog h s)) il" using a(4) u(2,3) new(2) unfolding kept_def by blast
    qed
    then show ?thesis using cluster_parts(4) [OF assms(1,2)] a(2) new by (simp add: node_ok_def log_ok_def)
  qed simp
qed (simp add: has_ack_net [OF assms(4)])

lemma up_to_date_refl [simp]: "up_to_date l l"
  by (simp add: up_to_date_def)

lemma h_vote_vlog: "h_votes h v t = None \<Longrightarrow> h_elect h t = None \<Longrightarrow> h_vlog (h_vote v t c l h) v t = Some l"
  by (simp add: h_vote_def)

lemma other_node_vote:
  assumes "cluster_ok ids h c" "m \<in> set ids" "m \<noteq> v" "acks_le (rl_net c) M'"
    and "nt_append_resps M' = nt_append_resps (rl_net c)"
    and "\<forall>q \<in> nt_vote_reqs M'. vq_candidate_id q = m \<longrightarrow> q \<in> nt_vote_reqs (rl_net c)"
    and "x = m \<Longrightarrow> h_votes h v t = None \<Longrightarrow> t \<le> rc_current_term (rl_nodes c m) \<and>
      (t = rc_current_term (rl_nodes c m) \<longrightarrow> rc_role (rl_nodes c m) = Candidate \<longrightarrow> up_to_date (rc_log (rl_nodes c m)) l)"
  shows "node_ok ids M' (h_vote v t x l h) m (rl_nodes c m)"
proof (rule node_ok_mono [OF cluster_parts(4) [OF assms(1,2)] cluster_parts(2) [OF assms(1)]
      h_vote_le [OF cluster_parts(1) [OF assms(1)]] assms(4)])
  show "\<forall>w s. h_votes (h_vote v t x l h) w s = Some m \<longrightarrow> h_votes h w s = Some m \<or>
      s \<le> rc_current_term (rl_nodes c m) \<and> (s = rc_current_term (rl_nodes c m) \<longrightarrow> rc_role (rl_nodes c m) = Candidate \<longrightarrow>
        h_elect (h_vote v t x l h) s = None \<longrightarrow>
        (\<exists>l'. h_vlog (h_vote v t x l h) w s = Some l' \<and> up_to_date (rc_log (rl_nodes c m)) l'))"
  proof (intro allI impI)
    fix w s assume "h_votes (h_vote v t x l h) w s = Some m"
    then consider "h_votes h w s = Some m" | "w = v" "s = t" "h_votes h v t = None" "x = m"
      by (auto simp: h_vote_votes split: if_splits)
    then show "h_votes h w s = Some m \<or>
      s \<le> rc_current_term (rl_nodes c m) \<and> (s = rc_current_term (rl_nodes c m) \<longrightarrow> rc_role (rl_nodes c m) = Candidate \<longrightarrow>
        h_elect (h_vote v t x l h) s = None \<longrightarrow>
        (\<exists>l'. h_vlog (h_vote v t x l h) w s = Some l' \<and> up_to_date (rc_log (rl_nodes c m)) l'))"
    proof cases
      case 2
      then show ?thesis using assms(7) by (auto simp: h_vote_vlog)
    qed simp
  qed
qed (use assms(3,5,6) in \<open>auto simp: h_vote_votes\<close>)

end
