(* ===== verification/Raft_Safety.thy ===== *)
theory Raft_Safety
  imports Raft_Invariant
begin

text \<open>
  Every step of a cluster keeps the invariant of Raft_Cluster, step by step, and the
  guarantees that ADR-042 states follow: one leader per term, log matching, leader
  completeness, and agreement of the state machines on what they applied.
\<close>

section \<open>Elections\<close>

lemma net_ok_insert_req:
  assumes "net_ok ids M h" "vq_candidate_id q \<in> set ids"
  shows "net_ok ids (M\<lparr>nt_vote_reqs := insert q (nt_vote_reqs M)\<rparr>) h"
proof -
  have "append_ok ids (M\<lparr>nt_vote_reqs := insert q (nt_vote_reqs M)\<rparr>) h p a" if "append_ok ids M h p a" for p a
    by (rule append_ok_mono [OF h_le_refl _ that]) (simp add: acks_le_def)
  then show ?thesis using assms by (auto simp: net_ok_def)
qed

lemma start_election_ok:
  assumes "cluster_ok ids h c" "n \<in> set ids" "rc_current_term (rl_nodes c n) \<noteq> - 1"
    and "start_election (rl_nodes c n) = (r, req)"
  shows "\<exists>h'. cluster_ok ids h' (set_node n r (c\<lparr>rl_net := (rl_net c)\<lparr>nt_vote_reqs := insert req (nt_vote_reqs (rl_net c))\<rparr>\<rparr>))"
proof -
  let ?r = "rl_nodes c n" and ?M = "rl_net c"
  let ?t = "rc_current_term ?r + 1" and ?M' = "(rl_net c)\<lparr>nt_vote_reqs := insert req (nt_vote_reqs (rl_net c))\<rparr>"
  let ?h = "h_vote n ?t n (rc_log ?r) h"
  note parts = cluster_parts [OF assms(1)]
  have ok: "vote_ok ids ?M h n ?r" "log_ok ?M h n ?r" "commit_ok ids ?M h ?r" using parts(4) [OF assms(2)] by (auto simp: node_ok_def)
  have lt: "rc_current_term ?r < ?t" by (rule word_less_succ [OF assms(3)])
  have id: "rc_node_id ?r = n" using ok(1) by (simp add: vote_ok_def)
  have r: "r = ?r\<lparr>rc_stats := (rc_stats ?r)\<lparr>rs_elections_started := rs_elections_started (rc_stats ?r) + 1\<rparr>,
      rc_current_term := ?t, rc_role := Candidate, rc_voted_for := Some n, rc_leader_id := None, rc_votes_received := {n}\<rparr>"
    and req: "req = \<lparr>vq_term = ?t, vq_candidate_id = n, vq_last_log_index = log_len (rc_log ?r), vq_last_log_term = last_log_term (rc_log ?r)\<rparr>"
    using assms(4) by (simp_all add: start_election_def Let_def id)
  have le: "s \<le> ?t" "s \<noteq> ?t" if "s \<le> rc_current_term ?r" for s using that lt by auto
  note v = vote_okD [OF ok(1)]
  have cast: "\<forall>s x. h_votes h n s = Some x \<longrightarrow> s \<le> ?t \<and> s \<noteq> ?t" using v(4) lt by fastforce
  have got: "\<forall>w s. h_votes h w s = Some n \<longrightarrow> s \<le> ?t \<and> s \<noteq> ?t" using v(6) lt by fastforce
  have led: "\<forall>s il. h_elect h s = Some (n, il) \<longrightarrow> s \<le> ?t \<and> s \<noteq> ?t" using v(7) lt by fastforce
  have asked: "\<forall>q \<in> nt_vote_reqs ?M. vq_candidate_id q = n \<longrightarrow> vq_term q \<le> ?t \<and> vq_term q \<noteq> ?t" using v(9) lt by fastforce
  have none: "h_votes h n ?t = None" using cast by (cases "h_votes h n ?t") auto
  have hist: "hist_ok ids ?h" by (rule h_vote_hist [OF parts(1) assms(2)]) (use ok(2) in \<open>simp add: log_ok_def\<close>)
  have hle: "h_le h ?h" by (rule h_vote_le [OF parts(1)])
  have "vote_ok ids ?M' ?h n r"
  proof -
    have "\<forall>s x. h_votes ?h n s = Some x \<longrightarrow> s \<le> ?t \<and> (s = ?t \<longrightarrow> x = n)"
      using cast by (simp add: h_vote_votes)
    moreover have "\<forall>w s. h_votes ?h w s = Some n \<longrightarrow> s \<le> ?t" using got by (simp add: h_vote_votes)
    moreover have "\<forall>q \<in> nt_vote_reqs ?M'. vq_candidate_id q = n \<longrightarrow> vq_term q \<le> ?t" using asked by (simp add: req)
    ultimately show ?thesis using v(1-3) led by (simp add: vote_ok_def r h_vote_votes none)
  qed
  moreover have "log_ok ?M' ?h n r"
  proof -
    have "\<forall>e \<in> set (rc_log ?r). en_term e \<le> ?t"
      "\<forall>d a. (d, n, a) \<in> nt_append_resps ?M \<longrightarrow> ar_success a \<longrightarrow> ar_term a \<le> ?t"
      using ok(2) le unfolding log_ok_def by blast+
    moreover have "kept h s k {..rc_current_term ?r}" if "kept h s k {..?t}" for s k
      using that lt by (auto intro: kept_subset)
    ultimately show ?thesis
      using ok(2) good_mono [OF hle] unfolding log_ok_def r by (simp add: has_ack_net [where M' = ?M' and M = ?M])
  qed
  moreover have "candidate_ok ?M' ?h n r"
  proof -
    have "\<exists>l. h_vlog ?h w ?t = Some l \<and> up_to_date (rc_log ?r) l"
      if "h_elect h ?t = None" "h_votes ?h w ?t = Some n" for w
    proof -
      have "w = n" using that(2) got by (auto simp: h_vote_votes split: if_splits)
      then show ?thesis using none that(1) by (simp add: h_vote_vlog)
    qed
    then show ?thesis using asked by (auto simp: candidate_ok_def r req)
  qed
  moreover have "commit_ok ids ?M' ?h r"
  proof (rule commit_ok_term)
    have "committed ids ?M' ?h s m" if "committed ids ?M h s m" for s m
      by (rule committed_mono [OF hle _ that]) (simp add: acks_le_def)
    then show "commit_ok ids ?M' ?h ?r" using ok(3) unfolding commit_ok_def by (simp only: h_vote_same) blast
  qed (use lt in \<open>simp_all add: r\<close>)
  ultimately have "node_ok ids ?M' ?h n r" by (simp add: node_ok_def leader_ok_def r)
  moreover have "net_ok ids ?M' ?h"
    by (rule net_ok_insert_req [OF net_mono [OF parts(2) hle]]) (simp add: req assms(2))
  moreover have "retained ?M' ?h"
    by (rule h_vote_retained [OF assms(1,2)]) (use lt in auto)
  moreover have "node_ok ids ?M' ?h m (rl_nodes c m)" if "m \<in> set ids" "m \<noteq> n" for m
    by (rule other_node_vote [OF assms(1)]) (use that in \<open>auto simp: acks_le_def req\<close>)
  ultimately show ?thesis using cluster_okI [OF assms(1) hist] by blast
qed

lemma net_irrelevant [simp]:
  "has_ack (M\<lparr>nt_vote_resps := x\<rparr>) = has_ack M" "has_ack (M\<lparr>nt_appends := y\<rparr>) = has_ack M"
  "committed ids (M\<lparr>nt_vote_resps := x\<rparr>) = committed ids M" "committed ids (M\<lparr>nt_appends := y\<rparr>) = committed ids M"
  "append_ok ids (M\<lparr>nt_vote_resps := x\<rparr>) = append_ok ids M" "append_ok ids (M\<lparr>nt_appends := y\<rparr>) = append_ok ids M"
  "retained (M\<lparr>nt_vote_resps := x\<rparr>) = retained M" "retained (M\<lparr>nt_appends := y\<rparr>) = retained M"
  "node_ok ids (M\<lparr>nt_vote_resps := x\<rparr>) = node_ok ids M" "node_ok ids (M\<lparr>nt_appends := y\<rparr>) = node_ok ids M"
proof -
  have ack: "has_ack (M\<lparr>nt_vote_resps := x\<rparr>) = has_ack M" "has_ack (M\<lparr>nt_appends := y\<rparr>) = has_ack M" for M x y
    by (simp_all add: has_ack_def fun_eq_iff)
  have com: "committed ids (M\<lparr>nt_vote_resps := x\<rparr>) = committed ids M" "committed ids (M\<lparr>nt_appends := y\<rparr>) = committed ids M" for M x y
    by (simp_all add: committed_def ack fun_eq_iff)
  show "has_ack (M\<lparr>nt_vote_resps := x\<rparr>) = has_ack M" "has_ack (M\<lparr>nt_appends := y\<rparr>) = has_ack M"
    "committed ids (M\<lparr>nt_vote_resps := x\<rparr>) = committed ids M" "committed ids (M\<lparr>nt_appends := y\<rparr>) = committed ids M"
    by (fact ack com)+
  show "append_ok ids (M\<lparr>nt_vote_resps := x\<rparr>) = append_ok ids M" "append_ok ids (M\<lparr>nt_appends := y\<rparr>) = append_ok ids M"
    by (simp_all add: append_ok_def covered_def com fun_eq_iff)
  show "retained (M\<lparr>nt_vote_resps := x\<rparr>) = retained M" "retained (M\<lparr>nt_appends := y\<rparr>) = retained M"
    by (simp_all add: retained_def ack fun_eq_iff)
  show "node_ok ids (M\<lparr>nt_vote_resps := x\<rparr>) = node_ok ids M" "node_ok ids (M\<lparr>nt_appends := y\<rparr>) = node_ok ids M"
    by (simp_all add: node_ok_def vote_ok_def log_ok_def candidate_ok_def leader_ok_def commit_ok_def ack com fun_eq_iff)
qed

lemma committed_vote [simp]: "committed ids M (h_vote v t c l h) = committed ids M h"
  by (simp add: committed_def fun_eq_iff)

lemma good_vote [simp]: "good (h_vote v t c l h) = good h"
  by (simp add: good_def fun_eq_iff)

lemma h_vote_vlog_mono: "hist_ok ids h \<Longrightarrow> h_vlog h w s = Some l' \<Longrightarrow> h_vlog (h_vote v t c l h) w s = Some l'"
  using h_vote_le [of ids h v t c l] by (simp add: h_le_def)

lemma node_vote:
  assumes "node_ok ids M h n r" "hist_ok ids h" "rc_voted_for r = None \<or> rc_voted_for r = Some x"
  shows "node_ok ids M (h_vote n (rc_current_term r) x (rc_log r) h) n (r\<lparr>rc_voted_for := Some x\<rparr>)"
proof -
  let ?T = "rc_current_term r" and ?h = "h_vote n (rc_current_term r) x (rc_log r) h"
  note ok = node_okD [OF assms(1)] and v = vote_okD [OF node_okD(1) [OF assms(1)]]
  have "\<forall>t c. h_votes ?h n t = Some c \<longrightarrow> t \<le> ?T \<and> (t = ?T \<longrightarrow> x = c)"
    using v(4,5) assms(3) by (auto simp: h_vote_votes split: if_splits)
  moreover have "\<forall>w t. h_votes ?h w t = Some n \<longrightarrow> t \<le> ?T" using v(6) by (auto simp: h_vote_votes)
  moreover have "h_votes ?h w ?T = Some n" if "h_votes h w ?T = Some n" for w using that by (auto simp: h_vote_votes)
  ultimately have "vote_ok ids M ?h n (r\<lparr>rc_voted_for := Some x\<rparr>)"
    using v(1-3,7-11) by (auto simp: vote_ok_def)
  moreover have "candidate_ok M ?h n (r\<lparr>rc_voted_for := Some x\<rparr>)"
  proof -
    have "\<exists>l. h_vlog ?h w ?T = Some l \<and> up_to_date (rc_log r) l"
      if c: "rc_role r = Candidate" "h_elect h ?T = None" "h_votes ?h w ?T = Some n" for w
    proof (cases "h_votes h w ?T = Some n")
      case True
      then show ?thesis using ok(3) c(1,2) h_vote_vlog_mono [OF assms(2)] unfolding candidate_ok_def by blast
    next
      case False
      then have "w = n" "h_votes h n ?T = None" using c(3) by (auto simp: h_vote_votes split: if_splits)
      then show ?thesis using c(2) by (simp add: h_vote_vlog)
    qed
    then show ?thesis using ok(3) by (simp add: candidate_ok_def)
  qed
  ultimately show ?thesis using ok(2,4,5)
    by (simp add: node_ok_def log_ok_def leader_ok_def commit_ok_def applied_ok_def)
qed

lemma cluster_net_quiet:
  assumes "cluster_ok ids h c" "\<not> vr_vote_granted a"
  shows "cluster_ok ids h (c\<lparr>rl_net := (rl_net c)\<lparr>nt_vote_resps := insert (x, a) (nt_vote_resps (rl_net c))\<rparr>\<rparr>)"
  using assms by (auto simp: cluster_ok_def net_ok_def)

lemma request_vote_ok:
  assumes "cluster_ok ids h c" "n \<in> set ids" "req \<in> nt_vote_reqs (rl_net c)"
    and "handle_request_vote req (rl_nodes c n) = (r, resp)"
  shows "\<exists>h'. cluster_ok ids h' (set_node n r
    (c\<lparr>rl_net := (rl_net c)\<lparr>nt_vote_resps := insert (vq_candidate_id req, resp) (nt_vote_resps (rl_net c))\<rparr>\<rparr>))"
proof -
  let ?r = "rl_nodes c n" and ?x = "vq_candidate_id req" and ?M = "rl_net c"
  let ?M' = "?M\<lparr>nt_vote_resps := insert (?x, resp) (nt_vote_resps ?M)\<rparr>"
  define r1 where "r1 = (if vq_term req > rc_current_term ?r
    then ?r\<lparr>rc_current_term := vq_term req, rc_role := Follower, rc_voted_for := None, rc_leader_id := None,
            rc_stats := (rc_stats ?r)\<lparr>rs_terms_advanced := rs_terms_advanced (rc_stats ?r) + 1\<rparr>\<rparr> else ?r)"
  note parts = cluster_parts [OF assms(1)]
  have ok1: "node_ok ids ?M h n r1"
    using parts(4) [OF assms(2)] node_stepdown [OF parts(4) [OF assms(2)], of "vq_term req"] by (simp add: r1_def)
  have log1: "rc_log r1 = rc_log ?r" by (simp add: r1_def)
  note v1 = vote_okD [OF node_okD(1) [OF ok1]]
  show ?thesis
  proof (cases "vr_vote_granted resp")
    case False
    then have "r = r1" using assms(4) unfolding handle_request_vote_def r1_def [symmetric]
      by (auto simp: Let_def split: if_splits option.splits)
    then have "cluster_ok ids h (set_node n r (c\<lparr>rl_net := ?M'\<rparr>))"
      using cluster_node [OF cluster_net_quiet [OF assms(1) False], where n = n and r = r] ok1 by simp
    then show ?thesis by blast
  next
    case True
    have grant: "r = r1\<lparr>rc_voted_for := Some ?x, rc_stats := (rc_stats r1)\<lparr>rs_rpc_votes_sent := rs_rpc_votes_sent (rc_stats r1) + 1\<rparr>\<rparr>"
      "resp = \<lparr>vr_term = rc_current_term r1, vr_vote_granted = True, vr_voter_id = rc_node_id r1\<rparr>"
      "rc_voted_for r1 = None \<or> rc_voted_for r1 = Some ?x" "\<not> vq_term req < rc_current_term r1"
      "vq_last_log_term req > last_log_term (rc_log r1)
        \<or> vq_last_log_term req = last_log_term (rc_log r1) \<and> vq_last_log_index req \<ge> log_len (rc_log r1)"
      using assms(4) True unfolding handle_request_vote_def r1_def [symmetric]
      by (auto simp: Let_def split: if_splits option.splits)
    let ?T = "rc_current_term r1"
    have T: "vq_term req = ?T" using grant(4) by (auto simp: r1_def split: if_splits)
    let ?h = "h_vote n ?T ?x (rc_log ?r) h"
    have le: "h_le h ?h" by (rule h_vote_le [OF parts(1)])
    have hist: "hist_ok ids ?h"
      by (rule h_vote_hist [OF parts(1) assms(2)]) (use log_okD(1) [OF node_okD(2) [OF ok1]] log1 in simp)
    have "h_votes ?h n ?T = Some ?x"
      using v1(5) grant(3) by (cases "h_votes h n ?T") (auto simp: h_vote_votes)
    then have "net_ok ids ?M' ?h" using net_mono [OF parts(2) le] grant(2) v1(1) by (auto simp: net_ok_def)
    moreover have "retained ?M' ?h"
      by (rule h_vote_retained [OF assms(1,2)]) (auto simp: r1_def)
    moreover have "node_ok ids ?M' ?h n r" using node_vote [OF ok1 parts(1) grant(3)] log1 by (simp add: grant(1))
    moreover have "node_ok ids ?M' ?h m (rl_nodes c m)" if m: "m \<in> set ids" "m \<noteq> n" for m
    proof (rule other_node_vote [OF assms(1) m])
      assume x: "?x = m"
      note okm = parts(4) [OF m(1)]
      have "?T \<le> rc_current_term (rl_nodes c m)"
        using vote_okD(9) [OF node_okD(1) [OF okm] assms(3) x] by (simp add: T)
      moreover have "up_to_date (rc_log (rl_nodes c m)) (rc_log ?r)"
        if "?T = rc_current_term (rl_nodes c m)" "rc_role (rl_nodes c m) = Candidate"
      proof -
        have "vq_last_log_index req = log_len (rc_log (rl_nodes c m))" "vq_last_log_term req = last_log_term (rc_log (rl_nodes c m))"
          using node_okD(3) [OF okm] that assms(3) x T by (auto simp: candidate_ok_def)
        then show ?thesis using grant(5) node_log_bound(3) [OF okm parts(1)] node_log_bound(3) [OF ok1 parts(1)] log1
          by (auto simp: up_to_date_def word_le_nat_alt)
      qed
      ultimately show "?T \<le> rc_current_term (rl_nodes c m) \<and> (?T = rc_current_term (rl_nodes c m) \<longrightarrow>
          rc_role (rl_nodes c m) = Candidate \<longrightarrow> up_to_date (rc_log (rl_nodes c m)) (rc_log ?r))" by blast
    qed (simp_all add: acks_le_def)
    ultimately show ?thesis using cluster_okI [OF assms(1) hist] by blast
  qed
qed

section \<open>Leaders\<close>

text \<open>The history after \<open>d\<close>, with log \<open>il\<close>, is elected and adds its first entry, and after a leader adds another one.\<close>

definition h_win :: "u64 \<Rightarrow> bytes \<Rightarrow> raft_log \<Rightarrow> raft_log_entry \<Rightarrow> history \<Rightarrow> history" where
  "h_win t d il e h = h\<lparr>h_elect := (h_elect h)(t \<mapsto> (d, il)), h_own := (h_own h)(t := [e])\<rparr>"

definition h_add :: "u64 \<Rightarrow> raft_log_entry \<Rightarrow> history \<Rightarrow> history" where
  "h_add t e h = h\<lparr>h_own := (h_own h)(t := h_own h t @ [e])\<rparr>"

lemma h_win_simps [simp]:
  "h_votes (h_win t d il e h) = h_votes h" "h_vlog (h_win t d il e h) = h_vlog h"
  "h_elect (h_win t d il e h) = (h_elect h)(t \<mapsto> (d, il))" "h_own (h_win t d il e h) = (h_own h)(t := [e])"
  by (simp_all add: h_win_def)

lemma h_add_simps [simp]:
  "h_votes (h_add t e h) = h_votes h" "h_vlog (h_add t e h) = h_vlog h"
  "h_elect (h_add t e h) = h_elect h" "h_own (h_add t e h) = (h_own h)(t := h_own h t @ [e])"
  by (simp_all add: h_add_def)

lemma h_win_le: "h_elect h t = None \<Longrightarrow> h_le h (h_win t d il e h)"
  and h_add_le: "h_le h (h_add t e h)"
  by (auto simp: h_le_def)

lemma llog_win: "llog (h_win t d il e h) t = il @ [e]"
  by (simp add: llog_def)

lemma llog_add: "h_elect h t = Some (d, il) \<Longrightarrow> llog (h_add t e h) t = llog h t @ [e]"
  by (simp add: llog_def)

lemma llog_cong: "h_elect h' t = h_elect h t \<Longrightarrow> h_own h' t = h_own h t \<Longrightarrow> llog h' t = llog h t"
  by (simp add: llog_def split: option.split)

lemma indexed_snoc: "indexed l \<Longrightarrow> en_index e = word_of_nat (Suc (length l)) \<Longrightarrow> indexed (l @ [e])"
  by (auto simp: indexed_def nth_append less_Suc_eq simp del: of_nat_Suc)

text \<open>What both changes do to the leader, and to the rest of the cluster.\<close>

lemma leader_extends:
  assumes "node_ok ids M h n r" "hist_ok ids h'" "net_ok ids M h" "h_le h h'"
    and "llog h' (rc_current_term r) = rc_log r @ [e]" "en_term e = rc_current_term r"
    and "\<And>t. t \<noteq> rc_current_term r \<Longrightarrow> h_elect h' t = h_elect h t \<and> h_own h' t = h_own h t"
  shows "log_ok M h' n (r\<lparr>rc_log := rc_log r @ [e]\<rparr>)" "commit_ok ids M h' (r\<lparr>rc_log := rc_log r @ [e]\<rparr>)"
proof -
  note ok = node_okD [OF assms(1)] and l = log_okD [OF node_okD(2) [OF assms(1)]]
  let ?T = "rc_current_term r"
  have "prefix (take k (llog h' t)) (rc_log r @ [e])" if a: "has_ack M h' n t k" "kept h' t k {..?T}" for t k
  proof (cases "t = ?T")
    case True
    show ?thesis unfolding True assms(5) by (rule take_is_prefix)
  next
    case False
    then have same: "h_elect h' t = h_elect h t" "llog h' t = llog h t" using assms(7) by (auto intro: llog_cong)
    have ack: "has_ack M h n t k" using a(1) by (simp add: has_ack_def same)
    have "prefix (take k (llog h t)) (rc_log r)"
      using l(4) [OF ack] kept_mono [OF assms(4) a(2) ack_length [OF assms(3) ack]] .
    then show ?thesis by (simp add: same)
  qed
  moreover have "good h' (rc_log r @ [e])" using good_llog [OF assms(2), of ?T] by (simp add: assms(5))
  ultimately show "log_ok M h' n (r\<lparr>rc_log := rc_log r @ [e]\<rparr>)"
    using l(2,3) assms(6) by (auto simp: log_ok_def)
  have "rc_commit_index r = 0 \<or> (\<exists>t m. t \<le> ?T \<and> committed ids M h' t m \<and> unat (rc_commit_index r) \<le> m
      \<and> prefix (take (unat (rc_commit_index r)) (llog h' t)) (rc_log r @ [e]))"
  proof (cases "rc_commit_index r = 0")
    case False
    then obtain t m where c: "t \<le> ?T" "committed ids M h t m" "unat (rc_commit_index r) \<le> m"
      "prefix (take (unat (rc_commit_index r)) (llog h t)) (rc_log r)" using ok(5) by (auto simp: commit_ok_def)
    have "take (unat (rc_commit_index r)) (llog h' t) = take (unat (rc_commit_index r)) (llog h t)"
      using c(2,3) by (intro llog_take [OF assms(4)]) (auto simp: committed_def)
    then show ?thesis using c committed_mono [OF assms(4) acks_le_refl c(2)] by (metis prefix_prefix)
  qed simp
  moreover have "applied_ok (r\<lparr>rc_log := rc_log r @ [e]\<rparr>)" using ok(5) by (auto simp: commit_ok_def applied_ok_def)
  ultimately show "commit_ok ids M h' (r\<lparr>rc_log := rc_log r @ [e]\<rparr>)" using ok(5) by (auto simp: commit_ok_def)
qed

lemma leader_change_others:
  assumes "cluster_ok ids h c" "h_le h h'" "h_votes h' = h_votes h" "h_vlog h' = h_vlog h"
    and "\<And>s d il. h_elect h' s = Some (d, il) \<Longrightarrow> d \<noteq> n \<Longrightarrow> h_elect h s = Some (d, il) \<and> h_own h' s = h_own h s"
    and "m \<in> set ids" "m \<noteq> n"
  shows "node_ok ids (rl_net c) h' m (rl_nodes c m)"
  by (rule node_ok_mono [OF cluster_parts(4) [OF assms(1,6)] cluster_parts(2) [OF assms(1)] assms(2)])
    (use assms(3-5,7) in auto)

lemma leader_change_retained:
  assumes "cluster_ok ids h c" "h_le h h'" "h_vlog h' = h_vlog h" "n \<in> set ids"
    and "\<And>s. s \<noteq> rc_current_term (rl_nodes c n) \<Longrightarrow> h_elect h' s = h_elect h s \<and> h_own h' s = h_own h s"
    and "h_elect h' (rc_current_term (rl_nodes c n)) = Some (n, il)"
  shows "retained (rl_net c) h'"
proof (rule retained_mono [OF cluster_parts(3) [OF assms(1)] cluster_parts(2) [OF assms(1)] assms(2)])
  let ?T = "rc_current_term (rl_nodes c n)"
  fix v t k assume a: "has_ack (rl_net c) h' v t k"
  show "has_ack (rl_net c) h v t k \<or> (\<forall>t'>t. h_vlog h' v t' = None)"
  proof (cases "has_ack (rl_net c) h v t k")
    case False
    have t: "t = ?T"
    proof (rule ccontr)
      assume "t \<noteq> ?T"
      then have "h_elect h' t = h_elect h t" "llog h' t = llog h t" using assms(5) by (auto intro: llog_cong)
      then show False using a False by (simp add: has_ack_def)
    qed
    then have "v = n" using a False assms(6) by (auto simp: has_ack_def)
    have "h_vlog h n t' = None" if "t' > ?T" for t'
    proof (rule ccontr)
      assume "h_vlog h n t' \<noteq> None"
      then obtain x where "h_votes h n t' = Some x" using hist_vlog [OF cluster_parts(1) [OF assms(1)], of n t'] by blast
      then have "t' \<le> ?T" using vote_okD(4) [OF node_okD(1) [OF cluster_parts(4) [OF assms(1,4)]]] by blast
      then show False using that by simp
    qed
    then show ?thesis using \<open>v = n\<close> t assms(3) by simp
  qed simp
qed (use assms(3) in simp)

text \<open>A leader appends an entry of its term.\<close>

lemma add_ok:
  assumes "cluster_ok ids h c" "n \<in> set ids" "rc_role (rl_nodes c n) = Leader" "has_room (rl_nodes c n)"
    and "en_term e = rc_current_term (rl_nodes c n)" "en_index e = word_of_nat (Suc (length (rc_log (rl_nodes c n))))"
  shows "cluster_ok ids (h_add (rc_current_term (rl_nodes c n)) e h)
    (set_node n ((rl_nodes c n)\<lparr>rc_log := rc_log (rl_nodes c n) @ [e]\<rparr>) c)"
proof -
  let ?r = "rl_nodes c n" and ?M = "rl_net c"
  let ?T = "rc_current_term ?r"
  let ?h = "h_add ?T e h" and ?r' = "?r\<lparr>rc_log := rc_log ?r @ [e]\<rparr>"
  note parts = cluster_parts [OF assms(1)]
  have node: "node_ok ids ?M h n ?r" by (rule parts(4) [OF assms(2)])
  note ok = node_okD [OF node] and v = vote_okD [OF node_okD(1) [OF node]]
  obtain il where il: "h_elect h ?T = Some (n, il)" "llog h ?T = rc_log ?r"
    using ok(4) assms(3) by (auto simp: leader_ok_def)
  have le: "h_le h ?h" by (rule h_add_le)
  have ll: "llog ?h ?T = rc_log ?r @ [e]" by (simp add: llog_add [OF il(1)] il(2))
  have hist: "hist_ok ids ?h"
  proof (rule hist_mono [OF parts(1) le])
    fix t d l assume e: "h_elect ?h t = Some (d, l)"
    show "h_elect h t = Some (d, l) \<and> h_own ?h t = h_own h t \<or> elected_ok ids ?h t d l"
    proof (cases "t = ?T")
      case True
      then have dl: "d = n" "l = il" using e il(1) by auto
      have old: "elected_ok ids h ?T n il" by (rule hist_elected [OF parts(1) il(1)])
      have "indexed (rc_log ?r @ [e])" using old il(2) assms(6) by (auto simp: elected_ok_def intro: indexed_snoc)
      moreover have "length (rc_log ?r @ [e]) \<le> 2 ^ 63" using assms(4) by (simp add: has_room_def)
      ultimately have "elected_ok ids ?h ?T n il"
        using old good_mono [OF le, of il] assms(5) unfolding elected_ok_def ll by auto
      then show ?thesis using True dl by simp
    qed (use e in simp)
  qed (use hist_voter [OF parts(1)] in auto)
  have others: "h_elect ?h t = h_elect h t \<and> h_own ?h t = h_own h t" if "t \<noteq> ?T" for t using that by simp
  note ext = leader_extends [OF node hist parts(2) le ll assms(5) others]
  have "leader_ok ?M ?h n ?r'" using ok(4) assms(3) ll by (fastforce simp: leader_ok_def)
  moreover have "vote_ok ids ?M ?h n ?r'" using ok(1) by (simp add: vote_ok_def)
  ultimately have "node_ok ids ?M ?h n ?r'" using ext assms(3) by (simp add: node_ok_def candidate_ok_def)
  moreover have "retained ?M ?h"
    by (rule leader_change_retained [OF assms(1) le _ assms(2) others, of il]) (use il in simp_all)
  moreover have "node_ok ids ?M ?h m (rl_nodes c m)" if m: "m \<in> set ids" "m \<noteq> n" for m
    by (rule leader_change_others [OF assms(1) le _ _ _ m]) (use il(1) in auto)
  ultimately show ?thesis
    using cluster_okI [OF assms(1) hist net_mono [OF parts(2) le], of n ?r'] by simp
qed

text \<open>A candidate with a majority becomes the leader and appends its first entry.\<close>

lemma win_ok:
  assumes "cluster_ok ids h c" "n \<in> set ids" "rc_role (rl_nodes c n) = Candidate" "has_room (rl_nodes c n)"
    and "majority ids V" "\<forall>v \<in> V. h_votes h v (rc_current_term (rl_nodes c n)) = Some n"
    and "en_term e = rc_current_term (rl_nodes c n)" "en_index e = word_of_nat (Suc (length (rc_log (rl_nodes c n))))"
    and "map fst ps = map fst (rc_peers (rl_nodes c n))"
    and "\<forall>(p, pp) \<in> set ps. unat (pp_next_index pp) = Suc (length (rc_log (rl_nodes c n))) \<and> pp_match_index pp = 0"
  shows "cluster_ok ids (h_win (rc_current_term (rl_nodes c n)) n (rc_log (rl_nodes c n)) e h)
    (set_node n ((rl_nodes c n)\<lparr>rc_votes_received := V, rc_role := Leader, rc_peers := ps, rc_log := rc_log (rl_nodes c n) @ [e]\<rparr>) c)"
proof -
  let ?r = "rl_nodes c n" and ?M = "rl_net c"
  let ?T = "rc_current_term ?r" and ?l = "rc_log ?r"
  let ?h = "h_win ?T n ?l e h" and ?r' = "?r\<lparr>rc_votes_received := V, rc_role := Leader, rc_peers := ps, rc_log := ?l @ [e]\<rparr>"
  note parts = cluster_parts [OF assms(1)]
  have node: "node_ok ids ?M h n ?r" by (rule parts(4) [OF assms(2)])
  note ok = node_okD [OF node] and v = vote_okD [OF node_okD(1) [OF node]]
  have none: "h_elect h ?T = None"
  proof (rule ccontr)
    assume "h_elect h ?T \<noteq> None"
    then obtain d il where e: "h_elect h ?T = Some (d, il)" by (cases "h_elect h ?T") auto
    then obtain Q where Q: "majority ids Q" "\<forall>v \<in> Q. h_votes h v ?T = Some d"
      using hist_elected [OF parts(1) e] by (auto simp: elected_ok_def)
    obtain w where "w \<in> V" "w \<in> Q" using majorities_meet [OF assms(5) Q(1)] .
    then have "d = n" using Q(2) assms(6) by auto
    then show False using v(8) e assms(3) by blast
  qed
  have le: "h_le h ?h" by (rule h_win_le [OF none])
  have ll: "llog ?h ?T = ?l @ [e]" by (rule llog_win)
  note lg = log_okD [OF ok(2)]
  have below: "en_term x < ?T" if "x \<in> set ?l" for x
    using lg(2) [OF that] good_term_elected [OF lg(1) that] none by (metis order.not_eq_order_implies_strict)
  have hist: "hist_ok ids ?h"
  proof (rule hist_mono [OF parts(1) le])
    fix t d l assume a: "h_elect ?h t = Some (d, l)"
    show "h_elect h t = Some (d, l) \<and> h_own ?h t = h_own h t \<or> elected_ok ids ?h t d l"
    proof (cases "t = ?T")
      case True
      then have dl: "d = n" "l = ?l" using a by auto
      have "indexed (?l @ [e])" using good_sorted [OF parts(1) lg(1)] assms(8) by (auto intro: indexed_snoc)
      moreover have "length (?l @ [e]) \<le> 2 ^ 63" using assms(4) by (simp add: has_room_def)
      moreover have "\<exists>x. h_vlog h w ?T = Some x \<and> up_to_date ?l x" if "w \<in> V" for w
        using ok(3) assms(3,6) none that by (auto simp: candidate_ok_def)
      ultimately have "elected_ok ids ?h ?T n ?l"
        using good_mono [OF le lg(1)] good_sorted [OF parts(1) lg(1)] below assms(2,5-7)
        unfolding elected_ok_def ll by auto
      then show ?thesis using True dl by simp
    qed (use a in simp)
  qed (use hist_voter [OF parts(1)] in auto)
  have others: "h_elect ?h t = h_elect h t \<and> h_own ?h t = h_own h t" if "t \<noteq> ?T" for t using that by simp
  note ext = leader_extends [OF node hist parts(2) le ll assms(7) others]
  have fin: "finite V" using assms(5) finite_subset by (auto simp: majority_def)
  have "set (map fst ps) = set (map fst (rc_peers ?r))" by (simp add: assms(9))
  then have "fst ` set ps = set ids - {n}" using v(3) by simp
  moreover have "\<forall>t il. h_elect ?h t = Some (n, il) \<longrightarrow> t \<le> ?T" using v(7) by (auto split: if_splits)
  moreover have "\<forall>t x. h_votes h n t = Some x \<longrightarrow> t \<le> ?T \<and> (t = ?T \<longrightarrow> rc_voted_for ?r = Some x)" using v(4,5) by blast
  moreover have "\<forall>w t. h_votes h w t = Some n \<longrightarrow> t \<le> ?T" using v(6) by blast
  moreover have "\<forall>q \<in> nt_vote_reqs ?M. vq_candidate_id q = n \<longrightarrow> vq_term q \<le> ?T" using v(9) by blast
  ultimately have "vote_ok ids ?M ?h n ?r'" using v(1,2) assms(6,9) fin by (simp add: vote_ok_def)
  moreover have "leader_ok ?M ?h n ?r'" using assms(10) ll by (auto simp: leader_ok_def)
  moreover have "log_ok ?M ?h n ?r'" "commit_ok ids ?M ?h ?r'" using ext by (simp_all add: log_ok_def commit_ok_def applied_ok_def)
  ultimately have "node_ok ids ?M ?h n ?r'" by (simp add: node_ok_def candidate_ok_def)
  moreover have "retained ?M ?h"
    by (rule leader_change_retained [OF assms(1) le _ assms(2) others, of ?l]) simp_all
  moreover have "node_ok ids ?M ?h m (rl_nodes c m)" if m: "m \<in> set ids" "m \<noteq> n" for m
    by (rule leader_change_others [OF assms(1) le _ _ _ m]) (auto split: if_splits)
  ultimately show ?thesis
    using cluster_okI [OF assms(1) hist net_mono [OF parts(2) le], of n ?r'] by simp
qed

text \<open>A leader without peers commits what it appends.\<close>

lemma single_commit:
  assumes "cluster_ok ids h c" "n \<in> set ids" "rc_role (rl_nodes c n) = Leader" "rc_peers (rl_nodes c n) = []"
  shows "node_ok ids (rl_net c) h n (apply_committed_entries now (rc_log (rl_nodes c n)) (log_len (rc_log (rl_nodes c n)))
    ((rl_nodes c n)\<lparr>rc_commit_index := log_len (rc_log (rl_nodes c n))\<rparr>))"
proof -
  let ?r = "rl_nodes c n" and ?M = "rl_net c"
  let ?T = "rc_current_term ?r"
  note parts = cluster_parts [OF assms(1)]
  have node: "node_ok ids ?M h n ?r" by (rule parts(4) [OF assms(2)])
  note ok = node_okD [OF node] and len = node_log_bound [OF node parts(1)]
  obtain il where il: "h_elect h ?T = Some (n, il)" "llog h ?T = rc_log ?r"
    using ok(4) assms(3) by (auto simp: leader_ok_def)
  have "h_own h ?T \<noteq> []" using hist_elected [OF parts(1) il(1)] by (simp add: elected_ok_def)
  then have own: "length il < length (rc_log ?r)" by (simp add: il(2) [symmetric] llog_elect [OF il(1)])
  have "set ids = {n}" using vote_okD(3) [OF ok(1)] assms(2,4) by auto
  then have "majority ids {n}" by (simp add: majority_def)
  moreover have "has_ack ?M h n ?T (length (rc_log ?r))" using il by (simp add: has_ack_def)
  ultimately have com: "committed ids ?M h ?T (length (rc_log ?r))"
    using il own unfolding committed_def by auto
  show ?thesis
  proof (rule node_commit [OF node parts(1) _ order.refl com])
    show "rc_commit_index ?r \<le> log_len (rc_log ?r)"
      using ok(5) commit_le_log [OF ok(5)] len by (simp add: word_le_nat_alt)
  qed (use len il in \<open>simp_all add: take_is_prefix\<close>)
qed

lemma set_node_again:
  assumes "cluster_ok ids h (set_node n r c)" "n \<in> set ids"
    and "node_ok ids (rl_net c) h n r \<Longrightarrow> node_ok ids (rl_net c) h n r'"
  shows "cluster_ok ids h (set_node n r' c)"
  using cluster_node [OF assms(1), of n r'] cluster_parts(4) [OF assms(1,2)] assms(3) by (simp add: set_node_def)

lemma finish_propose:
  assumes "cluster_ok ids h (set_node n (r0\<lparr>rc_log := rc_log r0 @ [e]\<rparr>) c)" "n \<in> set ids" "rc_role r0 = Leader"
    and "e = \<lparr>en_index = log_len (rc_log r0) + 1, en_term = rc_current_term r0, en_command = command, en_timestamp = now\<rparr>"
    and "propose command now r0 = (r, result)"
  shows "cluster_ok ids h (set_node n r c)"
proof -
  let ?s = "(rc_stats r0)\<lparr>rs_proposals_submitted := rs_proposals_submitted (rc_stats r0) + 1\<rparr>"
  let ?r = "r0\<lparr>rc_stats := ?s, rc_log := rc_log r0 @ [e]\<rparr>"
  have eq: "?r = r0\<lparr>rc_log := rc_log r0 @ [e], rc_stats := ?s\<rparr>" by (rule raft_coordinator.equality) simp_all
  have c2: "cluster_ok ids h (set_node n ?r c)" unfolding eq by (rule set_node_again [OF assms(1,2)]) simp
  show ?thesis
  proof (cases "rc_peers r0 = []")
    case True
    then have r: "r = apply_committed_entries now (rc_log ?r) (log_len (rc_log ?r)) (?r\<lparr>rc_commit_index := log_len (rc_log ?r)\<rparr>)"
      using assms(3-5) by (auto simp: propose_def Let_def log_len_snoc)
    have "node_ok ids (rl_net c) h n r"
      using single_commit [OF c2 assms(2), of now] assms(3) True unfolding r by (simp add: set_node_def)
    then show ?thesis by (intro set_node_again [OF c2 assms(2)])
  next
    case False
    then have "r = ?r" using assms(3-5) by (auto simp: propose_def Let_def)
    then show ?thesis using c2 by simp
  qed
qed

lemma propose_ok:
  assumes "cluster_ok ids h c" "n \<in> set ids" "has_room (rl_nodes c n)" "propose command now (rl_nodes c n) = (r, result)"
  shows "\<exists>h'. cluster_ok ids h' (set_node n r c)"
proof (cases "rc_role (rl_nodes c n) = Leader")
  case False
  then have "r = rl_nodes c n" using assms(4) by (auto simp: propose_def)
  then show ?thesis using cluster_node [OF assms(1) cluster_parts(4) [OF assms(1,2)]] by blast
next
  case True
  let ?r = "rl_nodes c n"
  let ?e = "\<lparr>en_index = log_len (rc_log ?r) + 1, en_term = rc_current_term ?r, en_command = command, en_timestamp = now\<rparr>"
  have "cluster_ok ids (h_add (rc_current_term ?r) ?e h) (set_node n (?r\<lparr>rc_log := rc_log ?r @ [?e]\<rparr>) c)"
    by (rule add_ok [OF assms(1,2) True assms(3)]) (simp_all add: log_len_append)
  from finish_propose [OF this assms(2) True refl assms(4)] show ?thesis by blast
qed

lemma lease_ok:
  assumes "cluster_ok ids h c" "n \<in> set ids" "has_room (rl_nodes c n)"
    and "acquire_lease resource holder ttl now now' (rl_nodes c n) = (r, granted)"
  shows "\<exists>h'. cluster_ok ids h' (set_node n r c)"
proof -
  let ?r = "(rl_nodes c n)\<lparr>rc_lease_epoch_counter := rc_lease_epoch_counter (rl_nodes c n) + 1\<rparr>"
  let ?cmd = "AcquireLease resource holder ttl (rc_lease_epoch_counter (rl_nodes c n))"
  have "cluster_ok ids h (set_node n ?r c)"
    by (rule cluster_node [OF assms(1)]) (use cluster_parts(4) [OF assms(1,2)] in simp)
  moreover have "propose ?cmd now ?r = (r, snd (propose ?cmd now ?r))"
    using assms(4) by (auto simp: acquire_lease_def Let_def split: prod.splits)
  ultimately show ?thesis
    using propose_ok [of ids h "set_node n ?r c" n ?cmd now r] assms(2,3) by (simp add: set_node_def has_room_def)
qed

lemma peers_card:
  assumes "vote_ok ids M h n r" "n \<in> set ids"
  shows "length (rc_peers r) + 1 = card (set ids)"
proof -
  have "length (rc_peers r) = card (set (map fst (rc_peers r)))" using distinct_card [OF vote_okD(2) [OF assms(1)]] by simp
  also have "\<dots> = card (set ids - {n})" using vote_okD(3) [OF assms(1)] by simp
  also have "\<dots> = card (set ids) - 1" using assms(2) by simp
  finally show ?thesis using assms(2) card_gt_0_iff [of "set ids"] by auto
qed

lemma record_vote_ok:
  assumes "cluster_ok ids h c" "n \<in> set ids" "(n, resp) \<in> nt_vote_resps (rl_net c)" "has_room (rl_nodes c n)"
    and "record_vote (vr_voter_id resp) (vr_vote_granted resp) (vr_term resp) now (rl_nodes c n) = (r, won)"
  shows "\<exists>h'. cluster_ok ids h' (set_node n r c)"
proof -
  let ?r = "rl_nodes c n" and ?M = "rl_net c"
  let ?T = "rc_current_term ?r" and ?V = "insert (vr_voter_id resp) (rc_votes_received ?r)"
  note parts = cluster_parts [OF assms(1)]
  have node: "node_ok ids ?M h n ?r" by (rule parts(4) [OF assms(2)])
  note ok = node_okD [OF node] and v = vote_okD [OF node_okD(1) [OF node]]
  consider "vr_term resp > ?T" | "\<not> vr_term resp > ?T" "rc_role ?r \<noteq> Candidate \<or> vr_term resp \<noteq> ?T \<or> \<not> vr_vote_granted resp"
    | "rc_role ?r = Candidate" "vr_term resp = ?T" "vr_vote_granted resp" by blast
  then show ?thesis
  proof cases
    case 1
    then have "node_ok ids ?M h n r" using node_stepdown [OF node 1] assms(5) by (auto simp: record_vote_def)
    then show ?thesis using cluster_node [OF assms(1)] by blast
  next
    case 2
    then have "r = ?r" using assms(5) by (auto simp: record_vote_def)
    then show ?thesis using cluster_node [OF assms(1) node] by simp blast
  next
    case 3
    have "h_votes h (vr_voter_id resp) ?T = Some n"
      using parts(2) assms(3) 3(3) unfolding net_ok_def 3(2) [symmetric] by blast
    then have votes: "\<forall>w \<in> ?V. h_votes h w ?T = Some n" using v(11) 3(1) by auto
    have fin: "finite ?V" using v(10) 3(1) by simp
    have n: "rc_node_id ?r = n" by (rule v(1))
    show ?thesis
    proof (cases "(length (rc_peers ?r) + 1) div 2 + 1 \<le> card ?V")
      case False
      then have "r = ?r\<lparr>rc_votes_received := ?V\<rparr>" using assms(5) 3 by (auto simp: record_vote_def Let_def)
      moreover have "node_ok ids ?M h n (?r\<lparr>rc_votes_received := ?V\<rparr>)"
        using ok votes fin by (simp add: node_ok_def vote_ok_def log_ok_def candidate_ok_def leader_ok_def commit_ok_def applied_ok_def)
      ultimately show ?thesis using cluster_node [OF assms(1)] by blast
    next
      case True
      have maj: "majority ids ?V"
        using True hist_voter [OF parts(1)] votes peers_card [OF ok(1) assms(2)] by (auto simp: majority_def)
      let ?ps = "map (\<lambda>(p, pp). (p, pp\<lparr>pp_next_index := log_len (rc_log ?r) + 1, pp_match_index := 0\<rparr>)) (rc_peers ?r)"
      let ?lead = "?r\<lparr>rc_votes_received := ?V, rc_role := Leader, rc_leader_id := Some n, rc_peers := ?ps\<rparr>"
      let ?e = "\<lparr>en_index = log_len (rc_log ?r) + 1, en_term = ?T, en_command = Noop, en_timestamp = now\<rparr>"
      let ?h = "h_win ?T n (rc_log ?r) ?e h"
      let ?r1 = "?r\<lparr>rc_votes_received := ?V, rc_role := Leader, rc_peers := ?ps, rc_log := rc_log ?r @ [?e]\<rparr>"
      have "unat (log_len (rc_log ?r) + 1) = Suc (length (rc_log ?r))"
        using assms(4) by (simp add: has_room_def log_len_append unsigned_of_nat take_bit_nat_eq_self del: of_nat_Suc)
      then have c1: "cluster_ok ids ?h (set_node n ?r1 c)"
        by (intro win_ok [OF assms(1,2) 3(1) assms(4) maj votes]) (auto simp: log_len_append case_prod_unfold comp_def)
      have eq: "?lead\<lparr>rc_log := rc_log ?lead @ [?e]\<rparr> = ?r1\<lparr>rc_leader_id := Some n\<rparr>" by (rule raft_coordinator.equality) simp_all
      have c0: "cluster_ok ids ?h (set_node n (?lead\<lparr>rc_log := rc_log ?lead @ [?e]\<rparr>) c)"
        unfolding eq by (rule set_node_again [OF c1 assms(2)]) simp
      have "propose Noop now ?lead = (r, snd (propose Noop now ?lead))"
        using assms(5) 3 True by (auto simp: record_vote_def Let_def n)
      from finish_propose [OF c0 assms(2) _ _ this] show ?thesis by auto
    qed
  qed
qed

section \<open>Replication\<close>

lemma commit_covered:
  assumes "commit_ok ids M h r"
  shows "covered ids M h (rc_current_term r) (unat (rc_commit_index r))"
  using assms unfolding commit_ok_def covered_def by auto

lemma create_append_ok:
  assumes "hist_ok ids h" "node_ok ids M h n r" "rc_role r = Leader" "map_of (rc_peers r) p = Some pp"
  shows "\<exists>req. create_append_entries_for_peer p r =
      Ok (r\<lparr>rc_stats := (rc_stats r)\<lparr>rs_rpc_appends_sent := rs_rpc_appends_sent (rc_stats r) + 1\<rparr>\<rparr>, Some req)
    \<and> append_ok ids M h p req"
proof -
  let ?T = "rc_current_term r" and ?l = "rc_log r"
  note ok = node_okD [OF assms(2)] and len = node_log_bound [OF assms(2,1)]
  obtain il where il: "h_elect h ?T = Some (n, il)" "llog h ?T = ?l" using ok(4) assms(3) by (auto simp: leader_ok_def)
  have "h_own h ?T \<noteq> []" using hist_elected [OF assms(1) il(1)] by (simp add: elected_ok_def)
  then have own: "length il < length ?l" by (simp add: il(2) [symmetric] llog_elect [OF il(1)])
  have "(p, pp) \<in> set (rc_peers r)" using assms(4) by (rule map_of_SomeD)
  then have nx: "1 \<le> unat (pp_next_index pp)" "unat (pp_next_index pp) \<le> Suc (length ?l)" and "p \<in> set ids - {n}"
    using ok(4) assms(3) vote_okD(3) [OF ok(1)] by (force simp: leader_ok_def)+
  let ?prev = "saturating_sub (pp_next_index pp) 1"
  have sub: "unat (pp_next_index pp - 1) = unat (pp_next_index pp) - 1"
    using nx(1) by (intro unat_minus_1) (auto simp: word_less_nat_alt)
  have prev: "unat ?prev = unat (pp_next_index pp) - 1" using nx(1) sub by (auto simp: saturating_sub_def word_le_nat_alt)
  have pt: "(if ?prev > 0 \<and> ?prev \<le> log_len ?l then and_then (index ?l (unat (?prev - 1))) (\<lambda>e. Ok (en_term e)) else Ok 0)
      = (Ok (if ?prev > 0 then en_term (?l ! (unat ?prev - 1)) else 0) :: (unit, u64) res)"
  proof (cases "?prev > 0")
    case True
    have "unat ?prev \<le> length ?l" using prev nx by simp
    moreover have "unat ?prev - 1 < length ?l" using True prev nx by (auto simp: word_less_nat_alt)
    ultimately show ?thesis using True len(3) by (simp add: word_le_nat_alt index_def unat_minus_1)
  qed simp
  have en: "(if pp_next_index pp \<le> log_len ?l then slice_from ?l (unat (pp_next_index pp - 1)) else Ok [])
      = (Ok (drop (unat ?prev) ?l) :: (unit, raft_log) res)"
    using nx len(3) by (auto simp: word_le_nat_alt slice_from_def sub prev)
  let ?req = "\<lparr>aq_term = ?T, aq_leader_id = rc_node_id r, aq_prev_log_index = ?prev,
      aq_prev_log_term = (if ?prev > 0 then en_term (?l ! (unat ?prev - 1)) else 0), aq_entries = drop (unat ?prev) ?l,
      aq_leader_commit = rc_commit_index r\<rparr>"
  have "create_append_entries_for_peer p r =
      Ok (r\<lparr>rc_stats := (rc_stats r)\<lparr>rs_rpc_appends_sent := rs_rpc_appends_sent (rc_stats r) + 1\<rparr>\<rparr>, Some ?req)"
    using assms(3,4) by (simp add: create_append_entries_for_peer_def Let_def pt en)
  moreover have "append_ok ids M h p ?req"
    using il own prev nx(2) \<open>p \<in> set ids - {n}\<close> vote_okD(1) [OF ok(1)] commit_covered [OF ok(5)]
    by (auto simp: append_ok_def)
  ultimately show ?thesis by blast
qed

lemma send_ok:
  assumes "cluster_ok ids h c" "n \<in> set ids" "create_append_entries_for_peer p (rl_nodes c n) = Ok (r, Some req)"
  shows "cluster_ok ids h (set_node n r (c\<lparr>rl_net := (rl_net c)\<lparr>nt_appends := insert (p, req) (nt_appends (rl_net c))\<rparr>\<rparr>))"
proof -
  let ?r = "rl_nodes c n" and ?M = "rl_net c"
  let ?M' = "?M\<lparr>nt_appends := insert (p, req) (nt_appends ?M)\<rparr>"
  note parts = cluster_parts [OF assms(1)]
  have role: "rc_role ?r = Leader" and "map_of (rc_peers ?r) p \<noteq> None"
    using assms(3) by (auto simp: create_append_entries_for_peer_def Let_def split: if_splits option.splits)
  then obtain pp where pp: "map_of (rc_peers ?r) p = Some pp" by blast
  from create_append_ok [OF parts(1) parts(4) [OF assms(2)] role pp] assms(3)
  have r: "r = ?r\<lparr>rc_stats := (rc_stats ?r)\<lparr>rs_rpc_appends_sent := rs_rpc_appends_sent (rc_stats ?r) + 1\<rparr>\<rparr>"
    and req: "append_ok ids ?M h p req" by auto
  have "net_ok ids ?M' h" using parts(2) req by (auto simp: net_ok_def)
  moreover have "node_ok ids ?M' h n r" using parts(4) [OF assms(2)] by (simp add: r)
  ultimately show ?thesis using parts by (intro cluster_okI [OF assms(1)]) simp_all
qed

text \<open>What a follower makes of the entries of its leader.\<close>

lemma append_entries_log:
  assumes "hist_ok ids h" "good h l" "\<forall>e \<in> set l. en_term e \<le> aq_term req" "append_ok ids M h p req"
    and "unat (aq_prev_log_index req) \<le> length l"
    and "aq_prev_log_index req > 0 \<longrightarrow> en_term (l ! (unat (aq_prev_log_index req) - 1)) = aq_prev_log_term req"
  shows "\<exists>l'. append_loop (aq_entries req) l = Ok l' \<and> prefix l' (llog h (aq_term req))
    \<and> (\<forall>P. prefix P l \<longrightarrow> prefix P (llog h (aq_term req)) \<longrightarrow> prefix P l')
    \<and> unat (aq_prev_log_index req) + length (aq_entries req) \<le> length l'"
proof -
  let ?T = "aq_term req" and ?p = "unat (aq_prev_log_index req)"
  obtain d il n where a: "h_elect h ?T = Some (d, il)" "length il < n" "n \<le> length (llog h ?T)" "?p \<le> n"
    "aq_prev_log_index req > 0 \<longrightarrow> aq_prev_log_term req = en_term (llog h ?T ! (?p - 1))"
    "aq_entries req = drop ?p (take n (llog h ?T))" using assms(4) by (auto simp: append_ok_def)
  let ?L = "take n (llog h ?T)"
  note gl = good_llog [OF assms(1), of ?T] and sl = llog_sorted [OF assms(1), of ?T]
  have gL: "good h ?L" by (rule good_take [OF gl])
  have match: "logs_match l ?L" by (rule good_match [OF assms(2) gL])
  have "take ?p l = take ?p ?L"
  proof (cases "aq_prev_log_index req > 0")
    case True
    then have p: "0 < ?p" by (simp add: word_less_nat_alt)
    have "en_term (l ! (?p - 1)) = en_term (?L ! (?p - 1))" using True assms(6) a(4,5) p by simp
    then have "take (Suc (?p - 1)) l = take (Suc (?p - 1)) ?L"
      using match p assms(5) a(3,4) unfolding logs_match_def by (auto dest!: spec [of _ "?p - 1"])
    then show ?thesis using p by simp
  qed (simp add: word_less_nat_alt)
  moreover have "length l < 2 ^ 64" "length ?L < 2 ^ 64" "indexed ?L"
    using good_sorted [OF assms(1,2)] good_sorted [OF assms(1) gL] by auto
  ultimately have loop: "append_loop (aq_entries req) l = Ok (if take n l = ?L then l else ?L)"
    using append_loop_spec [of ?L l ?p] match a(3,4) assms(5) by (simp add: a(6) min_absorb2)
  show ?thesis
  proof (cases "take n l = ?L")
    case True
    have n: "0 < n" "n \<le> length l" using True a(2,3) by (auto dest!: arg_cong [of _ _ length])
    have "llog h ?T ! (n - 1) \<in> set (h_own h ?T)"
      using a(2,3) by (auto simp: llog_elect [OF a(1)] nth_append)
    then have "en_term (llog h ?T ! (n - 1)) = ?T" using hist_elected [OF assms(1) a(1)] by (simp add: elected_ok_def)
    moreover have "l ! (n - 1) = llog h ?T ! (n - 1)" using arg_cong [OF True, of "\<lambda>x. x ! (n - 1)"] n a(3) by simp
    ultimately have "en_term (l ! (n - 1)) = ?T" by simp
    moreover have "en_term (l ! (n - 1)) \<le> last_log_term l"
      using good_sorted [OF assms(1,2)] n by (intro last_log_term_bound) auto
    moreover have "l \<noteq> []" using n by auto
    ultimately have "en_term (last l) = ?T"
      using assms(3) by (auto simp: last_log_term_def intro: order.antisym)
    then have "prefix l (llog h ?T)" using good_last [OF assms(2) \<open>l \<noteq> []\<close>] by simp
    then show ?thesis using loop True n(2) a(4) by (auto simp: a(6))
  next
    case False
    have "prefix P ?L" if P: "prefix P l" "prefix P (llog h ?T)" for P
    proof (cases "length P \<le> n")
      case True
      then show ?thesis using P(2) by (auto simp: prefix_def)
    next
      case long: False
      then have "take n l = take n P" "take n (llog h ?T) = take n P" using P by (auto simp: prefix_def)
      then show ?thesis using False by simp
    qed
    then show ?thesis using loop False a(3,4) by (auto simp: take_is_prefix a(6))
  qed
qed

text \<open>A refusal changes nothing that the invariant speaks of; a confirmation is backed by the log.\<close>

lemma refusal_quiet:
  assumes "\<not> ar_success a" "cluster_ok ids h c"
  shows "cluster_ok ids h (c\<lparr>rl_net := (rl_net c)\<lparr>nt_append_resps := insert (d, p, a) (nt_append_resps (rl_net c))\<rparr>\<rparr>)"
proof -
  let ?M = "rl_net c" and ?M' = "(rl_net c)\<lparr>nt_append_resps := insert (d, p, a) (nt_append_resps (rl_net c))\<rparr>"
  have le: "acks_le ?M ?M'" by (auto simp: acks_le_def)
  note parts = cluster_parts [OF assms(2)]
  have ack: "has_ack ?M' h v t k \<Longrightarrow> has_ack ?M h v t k" for v t k using assms(1) by (auto simp: has_ack_def)
  have "append_ok ids ?M' h q b" if "append_ok ids ?M h q b" for q b by (rule append_ok_mono [OF h_le_refl le that])
  then have "net_ok ids ?M' h" using parts(2) assms(1) by (auto simp: net_ok_def)
  moreover have "retained ?M' h" by (rule retained_mono [OF parts(3,2) h_le_refl]) (use ack in auto)
  moreover have "node_ok ids ?M' h m (rl_nodes c m)" if "m \<in> set ids" for m
    by (rule node_ok_mono [OF parts(4) [OF that] parts(2) h_le_refl le]) (use assms(1) in auto)
  ultimately show ?thesis using parts(1) by (simp add: cluster_ok_def)
qed

lemma confirmation_ok:
  assumes "cluster_ok ids h c" "n \<in> set ids" "node_ok ids (rl_net c) h n r" "rc_role r = Follower"
    and "rc_current_term (rl_nodes c n) \<le> rc_current_term r"
    and "h_elect h (rc_current_term r) = Some (d, il)" "prefix (rc_log r) (llog h (rc_current_term r))"
    and "ar_success a" "ar_term a = rc_current_term r" "ar_match_index a = log_len (rc_log r)"
  shows "cluster_ok ids h (set_node n r (c\<lparr>rl_net := (rl_net c)\<lparr>nt_append_resps := insert (d, n, a) (nt_append_resps (rl_net c))\<rparr>\<rparr>))"
proof -
  let ?M = "rl_net c" and ?M' = "(rl_net c)\<lparr>nt_append_resps := insert (d, n, a) (nt_append_resps (rl_net c))\<rparr>"
  let ?T = "rc_current_term r"
  have le: "acks_le ?M ?M'" by (auto simp: acks_le_def)
  note parts = cluster_parts [OF assms(1)] and ok = node_okD [OF assms(3)]
  have len: "unat (ar_match_index a) = length (rc_log r)" using node_log_bound [OF assms(3) parts(1)] assms(10) by simp
  have new: "has_ack ?M h v t k \<or> v = n \<and> t = ?T \<and> k \<le> length (rc_log r)" if "has_ack ?M' h v t k" for v t k
    using that assms(9) len by (auto simp: has_ack_def)
  have "append_ok ids ?M' h q b" if "append_ok ids ?M h q b" for q b by (rule append_ok_mono [OF h_le_refl le that])
  moreover have "ack_ok ids h d n a" using assms(2,6,7,9) len prefix_length_le [OF assms(7)] by (auto simp: ack_ok_def)
  ultimately have net: "net_ok ids ?M' h" using parts(2) by (auto simp: net_ok_def)
  have "retained ?M' h"
  proof (rule retained_mono [OF parts(3,2) h_le_refl])
    fix v t k assume "has_ack ?M' h v t k"
    moreover have "h_vlog h n t' = None" if t': "t' > ?T" for t'
    proof (rule ccontr)
      assume "h_vlog h n t' \<noteq> None"
      then obtain x where "h_votes h n t' = Some x" using hist_vlog [OF parts(1), of n t'] by blast
      then have "t' \<le> ?T" using vote_okD(4) [OF ok(1)] by blast
      then show False using t' by simp
    qed
    ultimately show "has_ack ?M h v t k \<or> (\<forall>t'>t. h_vlog h v t' = None)" using new by blast
  qed simp
  moreover have "node_ok ids ?M' h n r"
  proof -
    have "vote_ok ids ?M' h n r" using ok(1) by (simp add: vote_ok_def)
    moreover have "log_ok ?M' h n r"
    proof -
      have "prefix (take k (llog h t)) (rc_log r)" if b: "has_ack ?M' h n t k" "kept h t k {..?T}" for t k
        using new [OF b(1)]
      proof
        assume "has_ack ?M h n t k"
        then show ?thesis using log_okD(4) [OF ok(2)] b(2) by blast
      next
        assume k: "n = n \<and> t = ?T \<and> k \<le> length (rc_log r)"
        then have "take k (llog h t) = take k (rc_log r)" using assms(7) by (auto elim!: prefixE)
        then show ?thesis by (simp add: take_is_prefix)
      qed
      then show ?thesis using log_okD(1-3) [OF ok(2)] assms(9) by (auto simp: log_ok_def)
    qed
    moreover have "commit_ok ids ?M' h r"
      using ok(5) committed_mono [OF h_le_refl le, of ids h] unfolding commit_ok_def by blast
    ultimately show ?thesis using assms(4) by (simp add: node_ok_def candidate_ok_def leader_ok_def)
  qed
  moreover have "node_ok ids ?M' h m (rl_nodes c m)" if "m \<in> set ids" "m \<noteq> n" for m
    by (rule node_ok_mono [OF parts(4) [OF that(1)] parts(2) h_le_refl le]) (use that in auto)
  ultimately show ?thesis using cluster_okI [OF assms(1) parts(1) net] by blast
qed

lemma append_step_ok:
  assumes "cluster_ok ids h c" "n \<in> set ids" "(n, req) \<in> nt_appends (rl_net c)"
  shows "\<exists>r resp. handle_append_entries now req (rl_nodes c n) = Ok (r, resp) \<and>
    cluster_ok ids h (set_node n r (c\<lparr>rl_net := (rl_net c)\<lparr>nt_append_resps := insert (aq_leader_id req, n, resp) (nt_append_resps (rl_net c))\<rparr>\<rparr>))"
proof -
  let ?r = "rl_nodes c n" and ?M = "rl_net c" and ?prev = "aq_prev_log_index req"
  let ?Q = "\<lambda>r resp. cluster_ok ids h
    (set_node n r (c\<lparr>rl_net := ?M\<lparr>nt_append_resps := insert (aq_leader_id req, n, resp) (nt_append_resps ?M)\<rparr>\<rparr>))"
  define r1 where "r1 = (if aq_term req > rc_current_term ?r
    then ?r\<lparr>rc_current_term := aq_term req, rc_role := Follower, rc_voted_for := None,
            rc_stats := (rc_stats ?r)\<lparr>rs_terms_advanced := rs_terms_advanced (rc_stats ?r) + 1\<rparr>\<rparr> else ?r)"
  define r2 where "r2 = r1\<lparr>rc_role := Follower, rc_leader_id := Some (aq_leader_id req)\<rparr>"
  let ?T = "rc_current_term r2" and ?l = "rc_log r2"
  let ?reply = "\<lambda>ok r. \<lparr>ar_term = ?T, ar_success = ok, ar_match_index = log_len (rc_log r), ar_responder_id = rc_node_id r\<rparr>"
  note parts = cluster_parts [OF assms(1)]
  have ok1: "node_ok ids ?M h n r1"
    using parts(4) [OF assms(2)] node_stepdown [OF parts(4) [OF assms(2)], of "aq_term req"] by (simp add: r1_def)
  have ok2: "node_ok ids ?M h n r2" using node_follower [OF ok1] by (simp add: r2_def)
  note len = node_log_bound [OF ok2 parts(1)] and lg = log_okD [OF node_okD(2) [OF ok2]]
  have refused: "?Q r (?reply False r)" if "node_ok ids ?M h n r" for r
    using cluster_node [OF refusal_quiet [OF _ assms(1)], of "?reply False r" _ _ n r] that
      cluster_parts(4) [OF refusal_quiet [OF _ cluster_node [OF assms(1) that]], of "?reply False r" n] assms(2)
    by (simp add: set_node_def)
  have app: "append_ok ids ?M h n req" using parts(2) assms(3) by (auto simp: net_ok_def)
  then obtain d il k where a: "h_elect h (aq_term req) = Some (d, il)" "aq_leader_id req = d" "?prev > 0 \<longrightarrow>
      aq_prev_log_term req = en_term (llog h (aq_term req) ! (unat ?prev - 1))" "unat ?prev \<le> k" "k \<le> length (llog h (aq_term req))"
    and cov: "covered ids ?M h (aq_term req) (unat (aq_leader_commit req))"
    by (auto simp: append_ok_def)
  show ?thesis
  proof (cases "aq_term req < rc_current_term r1")
    case True
    then have "handle_append_entries now req ?r = Ok (r1, ?reply False r1)"
      unfolding handle_append_entries_def r1_def [symmetric] by (simp add: Let_def r2_def)
    then show ?thesis using refused [OF ok1] by blast
  next
    case False
    then have T: "aq_term req = ?T" by (auto simp: r1_def r2_def split: if_splits)
    consider "?prev > log_len ?l" | "?prev > 0" "?prev \<le> log_len ?l" "en_term (?l ! (unat ?prev - 1)) \<noteq> aq_prev_log_term req"
      | "?prev \<le> log_len ?l" "?prev > 0 \<longrightarrow> en_term (?l ! (unat ?prev - 1)) = aq_prev_log_term req"
      by (metis linorder_not_le)
    then show ?thesis
    proof cases
      case 1
      then have "handle_append_entries now req ?r = Ok (r2, ?reply False r2)"
        using False unfolding handle_append_entries_def r1_def [symmetric]
        by (auto simp: Let_def r2_def word_gt_0)
      then show ?thesis using refused [OF ok2] by blast
    next
      case 2
      let ?i = "unat ?prev - 1"
      have i: "0 < unat ?prev" "unat ?prev \<le> length ?l" using 2(1,2) len(3) by (auto simp: word_less_nat_alt word_le_nat_alt)
      have lt: "?i < length ?l" using i by simp
      let ?r3 = "r2\<lparr>rc_log := take ?i ?l\<rparr>"
      have "handle_append_entries now req ?r = Ok (?r3, ?reply False ?r3)"
        using False 2(1,3) leD [OF 2(2)] lt unfolding handle_append_entries_def r1_def [symmetric]
        by (simp add: Let_def r2_def index_def unat_minus_1)
      moreover have "node_ok ids ?M h n ?r3"
      proof (rule node_log [OF ok2 parts(1,3)])
        fix P assume P: "prefix P ?l" "prefix P (llog h ?T)"
        have "length P \<le> ?i"
        proof (rule ccontr)
          assume "\<not> ?thesis"
          then have "?l ! ?i = P ! ?i" "llog h ?T ! ?i = P ! ?i" using P by (auto simp: prefix_def nth_append)
          then show False using 2(1,3) a(3) T by simp
        qed
        then show "prefix P (take ?i ?l)" using P(1) by (auto simp: prefix_def)
      qed (use a(1) T lg good_take in \<open>auto simp: r2_def dest: in_set_takeD\<close>)
      ultimately show ?thesis using refused by blast
    next
      case 3
      have prev: "unat ?prev \<le> length ?l" using 3(1) len(3) by (simp add: word_le_nat_alt)
      from append_entries_log [OF parts(1) lg(1) _ app prev 3(2)] lg(2) T
      obtain l where l: "append_loop (aq_entries req) ?l = Ok l" "prefix l (llog h ?T)"
        "\<And>P. prefix P ?l \<Longrightarrow> prefix P (llog h ?T) \<Longrightarrow> prefix P l" by auto
      let ?r3 = "r2\<lparr>rc_log := l\<rparr>"
      let ?k = "min (aq_leader_commit req) (log_len l)"
      let ?r4 = "if aq_leader_commit req > rc_commit_index ?r3
        then apply_committed_entries now l ?k (?r3\<lparr>rc_commit_index := ?k\<rparr>) else ?r3"
      have gl: "good h l" by (rule good_prefix [OF good_llog [OF parts(1)] l(2)])
      have ok3: "node_ok ids ?M h n ?r3"
      proof (rule node_log [OF ok2 parts(1,3)])
        show "\<forall>e \<in> set l. en_term e \<le> ?T" using llog_sorted [OF parts(1), of ?T] set_mono_prefix [OF l(2)] by blast
      qed (use a(1) T gl l(3) in \<open>auto simp: r2_def\<close>)
      have ok4: "node_ok ids ?M h n ?r4"
      proof (cases "aq_leader_commit req > rc_commit_index ?r3")
        case True
        have "unat (aq_leader_commit req) \<noteq> 0" using True by (auto simp: word_less_nat_alt)
        then obtain t m where c: "t \<le> ?T" "committed ids ?M h t m" "unat (aq_leader_commit req) \<le> m"
          using cov T by (auto simp: covered_def)
        have l64: "unat (log_len l) = length l" using node_log_bound(3) [OF ok3 parts(1)] by simp
        have k: "unat ?k \<le> m" "unat ?k \<le> length l" using c(3) l64 by (auto simp: min_def word_le_nat_alt)
        have pk: "prefix (take (unat ?k) (llog h t)) (llog h ?T)"
          using committed_in_llog [OF parts(1,3) c(2,1) _ k(1)] a(1) T by auto
        have pl: "prefix (take (unat ?k) (llog h t)) l" by (rule prefix_length_prefix [OF pk l(2)]) (use k(2) in simp)
        have "rc_commit_index ?r3 \<le> log_len l"
          using commit_le_log [OF node_okD(5) [OF ok3]] l64 by (simp add: word_le_nat_alt)
        then have ck: "rc_commit_index ?r3 \<le> ?k" using True by simp
        have "node_ok ids ?M h n (apply_committed_entries now (rc_log ?r3) ?k (?r3\<lparr>rc_commit_index := ?k\<rparr>))"
          by (rule node_commit [OF ok3 parts(1) ck _ c(2) k(1)]) (use c(1) pl in simp_all)
        then show ?thesis using True by simp
      qed (use ok3 in simp)
      have run: "handle_append_entries now req ?r = Ok (?r4, ?reply True ?r4)"
      proof -
        have "\<not> (?prev > 0 \<and> ?prev > log_len (rc_log r1))" using 3(1) by (auto simp: r2_def)
        moreover have "(index (rc_log r1) (unat (?prev - 1)) :: (unit, raft_log_entry) res) = Ok (rc_log r1 ! (unat ?prev - 1))
            \<and> en_term (rc_log r1 ! (unat ?prev - 1)) = aq_prev_log_term req" if "?prev > 0"
          using 3(2) prev that by (auto simp: index_def unat_minus_1 word_less_nat_alt r2_def)
        moreover have "append_loop (aq_entries req) (rc_log r1) = Ok l" using l(1) by (simp add: r2_def)
        ultimately show ?thesis using False unfolding handle_append_entries_def r1_def [symmetric]
          by (cases "?prev > 0") (simp_all add: Let_def r2_def)
      qed
      have "?Q ?r4 (?reply True ?r4)"
        unfolding a(2)
      proof (rule confirmation_ok [OF assms(1,2) ok4])
        show "rc_current_term ?r \<le> rc_current_term ?r4" by (auto simp: r2_def r1_def)
      qed (use a(1) T l(2) in \<open>auto simp: r2_def\<close>)
      then show ?thesis using run by blast
    qed
  qed
qed

section \<open>Commitment\<close>

lemma commit_loop_spec:
  assumes "\<forall>n \<in> set ns. 0 < n \<and> unat n \<le> length log"
  shows "\<exists>found. commit_loop log T q peers ns = Ok found \<and>
    (\<forall>n. found = Some n \<longrightarrow> n \<in> set ns \<and> en_term (log ! (unat n - 1)) = T \<and> q \<le> count_matches peers n)"
  using assms
proof (induction ns)
  case (Cons n ns)
  then have n: "0 < n" "unat n \<le> length log" by auto
  then have "unat n - 1 < length log" by (auto simp: word_less_nat_alt)
  then have "(index log (unat (n - 1)) :: (unit, raft_log_entry) res) = Ok (log ! (unat n - 1))"
    using n(1) by (simp add: index_def unat_minus_1)
  then show ?case using Cons by auto
qed simp

lemma leader_peer:
  assumes "leader_ok M h n r" "rc_role r = Leader" "(p, pp) \<in> set (rc_peers r)"
  shows "1 \<le> unat (pp_next_index pp) \<and> unat (pp_next_index pp) \<le> Suc (length (rc_log r))"
    "pp_match_index pp = 0 \<or> (\<exists>a. (n, p, a) \<in> nt_append_resps M \<and> ar_success a
       \<and> ar_term a = rc_current_term r \<and> ar_match_index a = pp_match_index pp)"
  using assms unfolding leader_ok_def by blast+

lemma leader_majority:
  assumes "node_ok ids M h n r" "hist_ok ids h" "n \<in> set ids" "rc_role r = Leader"
    and "0 < k" "unat k \<le> length (rc_log r)" "en_term (rc_log r ! (unat k - 1)) = rc_current_term r"
    and "(length (rc_peers r) + 1) div 2 + 1 \<le> count_matches (rc_peers r) k"
  shows "committed ids M h (rc_current_term r) (unat k)"
proof -
  let ?T = "rc_current_term r" and ?ps = "filter (\<lambda>(p, pp). pp_match_index pp \<ge> k) (rc_peers r)"
  note ok = node_okD [OF assms(1)]
  obtain il where il: "h_elect h ?T = Some (n, il)" "llog h ?T = rc_log r" using ok(4) assms(4) by (auto simp: leader_ok_def)
  have k0: "0 < unat k" using assms(5) by (simp add: word_less_nat_alt)
  have "length il < unat k"
  proof (rule ccontr)
    assume "\<not> ?thesis"
    then have "unat k - 1 < length il" using k0 by simp
    then have "rc_log r ! (unat k - 1) \<in> set il" unfolding il(2) [symmetric] llog_elect [OF il(1)] by (simp add: nth_append)
    then show False using hist_elected [OF assms(2) il(1)] assms(7) by (auto simp: elected_ok_def)
  qed
  moreover have "majority ids (insert n (fst ` set ?ps))"
  proof -
    have "distinct (map fst ?ps)" using vote_okD(2) [OF ok(1)] by (rule distinct_map_filter)
    then have "card (fst ` set ?ps) = length ?ps" using distinct_card [of "map fst ?ps"] by simp
    moreover have sub: "fst ` set ?ps \<subseteq> set ids - {n}" using vote_okD(3) [OF ok(1)] by auto
    ultimately have "card (insert n (fst ` set ?ps)) = count_matches (rc_peers r) k"
      by (subst card_insert_disjoint) (auto simp: count_matches_def)
    then show ?thesis using sub assms(3,8) peers_card [OF ok(1) assms(3)] by (auto simp: majority_def)
  qed
  moreover have "has_ack M h v ?T (unat k)" if v: "v \<in> insert n (fst ` set ?ps)" for v
  proof (cases "v = n")
    case True
    then show ?thesis using il assms(6) by (simp add: has_ack_def)
  next
    case False
    then obtain pp where pp: "(v, pp) \<in> set (rc_peers r)" "k \<le> pp_match_index pp" using v by auto
    then have "pp_match_index pp \<noteq> 0" using assms(5) by auto
    then obtain a where a: "(n, v, a) \<in> nt_append_resps M" "ar_success a" "ar_term a = ?T" "ar_match_index a = pp_match_index pp"
      using leader_peer [OF ok(4) assms(4) pp(1)] by blast
    have "unat k \<le> unat (ar_match_index a)" using pp(2) a(4) by (simp add: word_le_nat_alt)
    then show ?thesis using a unfolding has_ack_def by blast
  qed
  ultimately show ?thesis using il assms(6) unfolding committed_def by auto
qed

lemma in_alist_update: "(q, x) \<in> set (AList.update p v al) \<Longrightarrow> (q, x) = (p, v) \<or> (q, x) \<in> set al"
  by (induction al) (auto split: if_splits)

lemma node_peers:
  assumes "node_ok ids M h n r" "rc_role r = Leader" "map_of (rc_peers r) p = Some pp0"
    and "1 \<le> unat (pp_next_index pp)" "unat (pp_next_index pp) \<le> Suc (length (rc_log r))"
    and "pp_match_index pp = pp_match_index pp0 \<or> (\<exists>a. (n, p, a) \<in> nt_append_resps M \<and> ar_success a
      \<and> ar_term a = rc_current_term r \<and> ar_match_index a = pp_match_index pp)"
  shows "node_ok ids M h n (r\<lparr>rc_peers := AList.update p pp (rc_peers r)\<rparr>)"
proof -
  note ok = node_okD [OF assms(1)]
  have dom: "fst ` set (AList.update p pp (rc_peers r)) = fst ` set (rc_peers r)"
    using map_of_SomeD [OF assms(3)] by (force simp: dom_update)
  have dist: "distinct (map fst (AList.update p pp (rc_peers r)))" by (rule distinct_update [OF vote_okD(2) [OF ok(1)]])
  have old: "(p, pp0) \<in> set (rc_peers r)" by (rule map_of_SomeD [OF assms(3)])
  have "1 \<le> unat (pp_next_index x) \<and> unat (pp_next_index x) \<le> Suc (length (rc_log r))
      \<and> (pp_match_index x = 0 \<or> (\<exists>a. (n, q, a) \<in> nt_append_resps M \<and> ar_success a
           \<and> ar_term a = rc_current_term r \<and> ar_match_index a = pp_match_index x))"
    if "(q, x) \<in> set (AList.update p pp (rc_peers r))" for q x
    using in_alist_update [OF that]
  proof
    assume "(q, x) = (p, pp)"
    then show ?thesis using leader_peer(2) [OF ok(4) assms(2) old] assms(4-6) by auto
  next
    assume "(q, x) \<in> set (rc_peers r)"
    then show ?thesis using leader_peer [OF ok(4) assms(2)] by blast
  qed
  then have "leader_ok M h n (r\<lparr>rc_peers := AList.update p pp (rc_peers r)\<rparr>)"
    using ok(4) assms(2) by (auto simp: leader_ok_def)
  then show ?thesis using ok dom dist
    by (simp add: node_ok_def vote_ok_def log_ok_def candidate_ok_def commit_ok_def applied_ok_def)
qed

text \<open>\<open>handle_append_response\<close> in its three parts: step down, update the peer, commit.\<close>

lemma commit_search_ok:
  assumes "node_ok ids M h n r" "hist_ok ids h" "n \<in> set ids" "rc_role r = Leader"
  shows "\<exists>found. commit_loop (rc_log r) (rc_current_term r) ((length (rc_peers r) + 1) div 2 + 1) (rc_peers r)
      (range_rev (rc_commit_index r + 1) (log_len (rc_log r))) = Ok found
    \<and> node_ok ids M h n (case found of Some k \<Rightarrow> apply_committed_entries now (rc_log r) k (r\<lparr>rc_commit_index := k\<rparr>) | None \<Rightarrow> r)"
proof -
  note ok = node_okD [OF assms(1)] and len = node_log_bound [OF assms(1,2)]
  let ?ns = "range_rev (rc_commit_index r + 1) (log_len (rc_log r))"
  have com: "unat (rc_commit_index r) \<le> length (rc_log r)" by (rule commit_le_log [OF ok(5)])
  then have succ: "unat (rc_commit_index r + 1) = Suc (unat (rc_commit_index r))"
    using len(1) by (simp add: unat_word_ariths)
  have ns: "rc_commit_index r < k \<and> 0 < k \<and> unat k \<le> length (rc_log r)" if "k \<in> set ?ns" for k
  proof -
    obtain i where i: "k = word_of_nat i" "Suc (unat (rc_commit_index r)) \<le> i" "i \<le> length (rc_log r)"
      using \<open>k \<in> set ?ns\<close> len(3) succ by (auto simp: range_rev_def)
    then have "unat k = i" using len(2) by (simp add: unsigned_of_nat take_bit_nat_eq_self)
    then show ?thesis using i by (simp add: word_less_nat_alt)
  qed
  obtain found where f: "commit_loop (rc_log r) (rc_current_term r) ((length (rc_peers r) + 1) div 2 + 1) (rc_peers r) ?ns = Ok found"
    "\<forall>k. found = Some k \<longrightarrow> k \<in> set ?ns \<and> en_term (rc_log r ! (unat k - 1)) = rc_current_term r
       \<and> (length (rc_peers r) + 1) div 2 + 1 \<le> count_matches (rc_peers r) k"
    using commit_loop_spec [of ?ns "rc_log r"] ns by blast
  have "node_ok ids M h n (apply_committed_entries now (rc_log r) k (r\<lparr>rc_commit_index := k\<rparr>))" if "found = Some k" for k
  proof -
    have k: "k \<in> set ?ns" "en_term (rc_log r ! (unat k - 1)) = rc_current_term r"
      "(length (rc_peers r) + 1) div 2 + 1 \<le> count_matches (rc_peers r) k" using f(2) that by auto
    have "committed ids M h (rc_current_term r) (unat k)"
      by (rule leader_majority [OF assms]) (use ns [OF k(1)] k in auto)
    moreover have "prefix (take (unat k) (llog h (rc_current_term r))) (rc_log r)"
      using ok(4) assms(4) by (simp add: leader_ok_def take_is_prefix)
    ultimately show ?thesis
      by (intro node_commit [OF assms(1,2) _ order.refl]) (use ns [OF k(1)] in auto)
  qed
  then show ?thesis using f(1) assms(1) by (cases found) auto
qed

lemma append_response_ok:
  assumes "cluster_ok ids h c" "n \<in> set ids" "(n, p, resp) \<in> nt_append_resps (rl_net c)"
  shows "\<exists>r. handle_append_response now inst p resp (rl_nodes c n) = Ok r \<and> cluster_ok ids h (set_node n r c)"
proof -
  let ?r = "rl_nodes c n" and ?M = "rl_net c"
  note parts = cluster_parts [OF assms(1)]
  have node: "node_ok ids ?M h n ?r" by (rule parts(4) [OF assms(2)])
  consider "ar_term resp > rc_current_term ?r" | "\<not> ar_term resp > rc_current_term ?r" "rc_role ?r \<noteq> Leader \<or> ar_term resp \<noteq> rc_current_term ?r"
    | "rc_role ?r = Leader" "ar_term resp = rc_current_term ?r" by blast
  then show ?thesis
  proof cases
    case 1
    then show ?thesis using cluster_node [OF assms(1) node_stepdown [OF node 1]] by (auto simp: handle_append_response_def)
  next
    case 2
    then show ?thesis using cluster_node [OF assms(1) node] by (auto simp: handle_append_response_def)
  next
    case 3
    let ?upd = "\<lambda>progress. if ar_success resp
        then progress\<lparr>pp_match_index := ar_match_index resp, pp_next_index := ar_match_index resp + 1, pp_last_heartbeat := inst\<rparr>
        else progress\<lparr>pp_next_index := max (saturating_sub (pp_next_index progress) 1) 1\<rparr>"
    define r1 where "r1 = (case map_of (rc_peers ?r) p of
        Some progress \<Rightarrow> ?r\<lparr>rc_peers := AList.update p (?upd progress) (rc_peers ?r)\<rparr> | None \<Rightarrow> ?r)"
    have ok1: "node_ok ids ?M h n r1"
    proof (cases "map_of (rc_peers ?r) p")
      case (Some progress)
      note len = node_log_bound [OF node parts(1)]
      have nx: "1 \<le> unat (pp_next_index progress)" "unat (pp_next_index progress) \<le> Suc (length (rc_log ?r))"
        using leader_peer(1) [OF node_okD(4) [OF node] 3(1) map_of_SomeD [OF Some]] by auto
      have "node_ok ids ?M h n (?r\<lparr>rc_peers := AList.update p (?upd progress) (rc_peers ?r)\<rparr>)"
      proof (cases "ar_success resp")
        case True
        have "unat (ar_match_index resp) \<le> length (llog h (ar_term resp))"
          using parts(2) assms(3) True unfolding net_ok_def ack_ok_def by blast
        then have m: "unat (ar_match_index resp) \<le> length (rc_log ?r)"
          using node_okD(4) [OF node] 3 by (simp add: leader_ok_def)
        then have "unat (ar_match_index resp + 1) = Suc (unat (ar_match_index resp))"
          using len(1) by (simp add: unat_word_ariths)
        then show ?thesis by (intro node_peers [OF node 3(1) Some]) (use True m assms(3) 3(2) in auto)
      next
        case False
        have "unat (max (saturating_sub (pp_next_index progress) 1) 1) = max (unat (pp_next_index progress) - 1) 1"
          using nx(1) by (auto simp: saturating_sub_def max_def word_le_nat_alt unat_minus_1 word_less_nat_alt)
        then show ?thesis by (intro node_peers [OF node 3(1) Some]) (use False nx in auto)
      qed
      then show ?thesis by (simp add: r1_def Some)
    qed (simp add: r1_def node)
    have lead: "rc_role r1 = Leader" using 3(1) by (simp add: r1_def split: option.split)
    obtain found where f: "commit_loop (rc_log r1) (rc_current_term r1) ((length (rc_peers r1) + 1) div 2 + 1) (rc_peers r1)
        (range_rev (rc_commit_index r1 + 1) (log_len (rc_log r1))) = Ok found"
      "node_ok ids ?M h n (case found of Some k \<Rightarrow> apply_committed_entries now (rc_log r1) k (r1\<lparr>rc_commit_index := k\<rparr>) | None \<Rightarrow> r1)"
      using commit_search_ok [OF ok1 parts(1) assms(2) lead] by blast
    have "handle_append_response now inst p resp ?r =
      Ok (case found of Some k \<Rightarrow> apply_committed_entries now (rc_log r1) k (r1\<lparr>rc_commit_index := k\<rparr>) | None \<Rightarrow> r1)"
      using 3 f(1) unfolding handle_append_response_def r1_def [symmetric] by (simp add: Let_def)
    then show ?thesis using cluster_node [OF assms(1) f(2)] by blast
  qed
qed

end
