(* ===== verification/Raft_Guarantees.thy ===== *)
theory Raft_Guarantees
  imports Raft_Safety
begin

text \<open>
  What every reachable cluster guarantees: at most one leader in a term, matching logs, leaders
  that have all that was committed, state machines that agree, and handlers that do not
  panic. Then the replication round of a leader with one of its peers, repeated: it brings the
  peer's log to the leader's after finitely many rounds.
\<close>

section \<open>Reachable clusters\<close>

lemma new_peers_spec:
  assumes "distinct (map fst ps)"
  shows "distinct (map fst (new_peers n inst ids ps)) \<and>
    fst ` set (new_peers n inst ids ps) = fst ` set ps \<union> (set ids - {n})"
  using assms
proof (induction n inst ids ps rule: new_peers.induct)
  case (2 n inst p ids ps)
  let ?ps = "if p \<noteq> n then AList.update p \<lparr>pp_next_index = 1, pp_match_index = 0, pp_last_heartbeat = inst\<rparr> ps else ps"
  have d: "distinct (map fst ?ps)" using 2(2) distinct_update by auto
  have "fst ` set ?ps = fst ` set ps \<union> ({p} - {n})" by (auto simp: dom_update)
  then show ?case using 2(1) [OF d] by auto
qed simp

lemma initial_ok: "cluster_ok ids h_new (initial_cluster ids inst)"
proof -
  let ?M = "no_messages"
  have ll: "llog h_new t = []" for t by (simp add: llog_def h_new_def)
  have ack: "\<not> has_ack ?M h_new v t k" for v t k by (simp add: has_ack_def no_messages_def h_new_def)
  have "node_ok ids ?M h_new n (rc_new n ids inst)" for n
    using new_peers_spec [of "[]" n inst ids] ack
    by (simp add: node_ok_def vote_ok_def log_ok_def candidate_ok_def leader_ok_def commit_ok_def applied_ok_def
        rc_new_def good_def h_new_def no_messages_def sm_run_def)
  moreover have "hist_ok ids h_new" by (simp add: hist_ok_def h_new_def)
  moreover have "net_ok ids ?M h_new" by (simp add: net_ok_def no_messages_def)
  moreover have "retained ?M h_new" using ack by (simp add: retained_def)
  ultimately show ?thesis by (simp add: cluster_ok_def initial_cluster_def)
qed

lemma step_ok:
  assumes "raft_step ids c c'" "cluster_ok ids h c"
  shows "\<exists>h'. cluster_ok ids h' c'"
  using assms(1)
proof cases
  case (elects n r req)
  then show ?thesis using start_election_ok [OF assms(2)] by blast
next
  case (votes n req r resp)
  then show ?thesis using request_vote_ok [OF assms(2)] by blast
next
  case (records n resp now r won)
  then show ?thesis using record_vote_ok [OF assms(2)] by blast
next
  case (proposes n command now r result)
  then show ?thesis using propose_ok [OF assms(2)] by blast
next
  case (leases n resource holder ttl now now' r granted)
  then show ?thesis using lease_ok [OF assms(2)] by blast
next
  case (sends n p r req)
  then show ?thesis using send_ok [OF assms(2)] by blast
next
  case (appends n req now r resp)
  then show ?thesis using append_step_ok [OF assms(2), of n req now] by auto
next
  case (acks n p resp now inst r)
  then show ?thesis using append_response_ok [OF assms(2), of n p resp now inst] by auto
qed

lemma reachable_ok: "raft_reachable ids c \<Longrightarrow> \<exists>h. cluster_ok ids h c"
  by (induction rule: raft_reachable.induct) (use initial_ok step_ok in blast)+

section \<open>Guarantees\<close>

lemma one_leader:
  assumes "raft_reachable ids c" "n \<in> set ids" "m \<in> set ids"
    and "rc_role (rl_nodes c n) = Leader" "rc_role (rl_nodes c m) = Leader"
    and "rc_current_term (rl_nodes c n) = rc_current_term (rl_nodes c m)"
  shows "n = m"
proof -
  obtain h where ok: "cluster_ok ids h c" using reachable_ok [OF assms(1)] by blast
  have led: "\<exists>il. h_elect h (rc_current_term (rl_nodes c i)) = Some (i, il)"
    if "i \<in> set ids" "rc_role (rl_nodes c i) = Leader" for i
    using node_okD(4) [OF cluster_parts(4) [OF ok that(1)]] that(2) by (simp add: leader_ok_def)
  obtain il where "h_elect h (rc_current_term (rl_nodes c n)) = Some (n, il)" using led [OF assms(2,4)] by blast
  moreover obtain il' where "h_elect h (rc_current_term (rl_nodes c m)) = Some (m, il')" using led [OF assms(3,5)] by blast
  ultimately show ?thesis using assms(6) by (metis option.inject prod.inject)
qed

lemma matching_logs:
  assumes "raft_reachable ids c" "n \<in> set ids" "m \<in> set ids"
  shows "logs_match (rc_log (rl_nodes c n)) (rc_log (rl_nodes c m))"
proof -
  obtain h where ok: "cluster_ok ids h c" using reachable_ok [OF assms(1)] by blast
  have "good h (rc_log (rl_nodes c i))" if "i \<in> set ids" for i
    by (rule log_okD(1) [OF node_okD(2) [OF cluster_parts(4) [OF ok that]]])
  then show ?thesis using assms(2,3) good_match by blast
qed

text \<open>What a node has committed is a prefix of a leader's log that every later leader has.\<close>

lemma committed_prefix:
  assumes "cluster_ok ids h c" "n \<in> set ids" "rc_commit_index (rl_nodes c n) \<noteq> 0"
  obtains t m where "t \<le> rc_current_term (rl_nodes c n)" "committed ids (rl_net c) h t m"
    "unat (rc_commit_index (rl_nodes c n)) \<le> m"
    "take (unat (rc_commit_index (rl_nodes c n))) (rc_log (rl_nodes c n)) = take (unat (rc_commit_index (rl_nodes c n))) (llog h t)"
proof -
  let ?r = "rl_nodes c n"
  have ok: "commit_ok ids (rl_net c) h ?r" using node_okD(5) [OF cluster_parts(4) [OF assms(1,2)]] .
  then obtain t m where c: "t \<le> rc_current_term ?r" "committed ids (rl_net c) h t m" "unat (rc_commit_index ?r) \<le> m"
    "prefix (take (unat (rc_commit_index ?r)) (llog h t)) (rc_log ?r)" using assms(3) by (auto simp: commit_ok_def)
  then have "unat (rc_commit_index ?r) \<le> length (llog h t)" by (auto simp: committed_def)
  then have "take (unat (rc_commit_index ?r)) (rc_log ?r) = take (unat (rc_commit_index ?r)) (llog h t)"
    using take_prefix_eq [OF c(4)] by simp
  then show thesis using that c by blast
qed

lemma leader_has_committed:
  assumes "raft_reachable ids c" "n \<in> set ids" "m \<in> set ids" "rc_role (rl_nodes c m) = Leader"
    and "rc_current_term (rl_nodes c n) \<le> rc_current_term (rl_nodes c m)"
  shows "prefix (take (unat (rc_commit_index (rl_nodes c n))) (rc_log (rl_nodes c n))) (rc_log (rl_nodes c m))"
proof (cases "rc_commit_index (rl_nodes c n) = 0")
  case False
  obtain h where ok: "cluster_ok ids h c" using reachable_ok [OF assms(1)] by blast
  note parts = cluster_parts [OF ok]
  obtain t k where t: "t \<le> rc_current_term (rl_nodes c n)" "committed ids (rl_net c) h t k"
    "unat (rc_commit_index (rl_nodes c n)) \<le> k"
    "take (unat (rc_commit_index (rl_nodes c n))) (rc_log (rl_nodes c n)) = take (unat (rc_commit_index (rl_nodes c n))) (llog h t)"
    by (rule committed_prefix [OF ok assms(2) False])
  obtain il where il: "h_elect h (rc_current_term (rl_nodes c m)) = Some (m, il)"
    "llog h (rc_current_term (rl_nodes c m)) = rc_log (rl_nodes c m)"
    using node_okD(4) [OF parts(4) [OF assms(3)]] assms(4) by (auto simp: leader_ok_def)
  have "t \<le> rc_current_term (rl_nodes c m)" using t(1) assms(5) by simp
  from committed_in_llog [OF parts(1,3) t(2) this il(1) t(3)] show ?thesis using t(4) il(2) by simp
qed simp

lemma take_shorter: "take m l = take m l' \<Longrightarrow> k \<le> m \<Longrightarrow> take k l = take k l'"
  by (metis min.absorb1 take_take)

lemma committed_agree:
  assumes "raft_reachable ids c" "n \<in> set ids" "m \<in> set ids"
    and "k \<le> unat (rc_commit_index (rl_nodes c n))" "k \<le> unat (rc_commit_index (rl_nodes c m))"
  shows "take k (rc_log (rl_nodes c n)) = take k (rc_log (rl_nodes c m))"
proof (cases "k = 0")
  case False
  obtain h where ok: "cluster_ok ids h c" using reachable_ok [OF assms(1)] by blast
  note parts = cluster_parts [OF ok]
  have nz: "rc_commit_index (rl_nodes c n) \<noteq> 0" "rc_commit_index (rl_nodes c m) \<noteq> 0" using False assms(4,5) by auto
  obtain t i where t: "committed ids (rl_net c) h t i" "unat (rc_commit_index (rl_nodes c n)) \<le> i"
    "take (unat (rc_commit_index (rl_nodes c n))) (rc_log (rl_nodes c n)) = take (unat (rc_commit_index (rl_nodes c n))) (llog h t)"
    by (rule committed_prefix [OF ok assms(2) nz(1)])
  obtain s j where s: "committed ids (rl_net c) h s j" "unat (rc_commit_index (rl_nodes c m)) \<le> j"
    "take (unat (rc_commit_index (rl_nodes c m))) (rc_log (rl_nodes c m)) = take (unat (rc_commit_index (rl_nodes c m))) (llog h s)"
    by (rule committed_prefix [OF ok assms(3) nz(2)])
  have "take k (llog h t) = take k (llog h s)"
  proof -
    have agree: "take k (llog h x) = take k (llog h y)"
      if a: "x \<le> y" "committed ids (rl_net c) h x a" "committed ids (rl_net c) h y b" "k \<le> a" for x y a b
    proof -
      obtain d il where "h_elect h y = Some (d, il)" using a(3) by (auto simp: committed_def)
      then have "prefix (take k (llog h x)) (llog h y)" using committed_in_llog [OF parts(1,3) a(2,1) _ a(4)] by blast
      moreover have "k \<le> length (llog h x)" using a(2,4) by (auto simp: committed_def)
      ultimately show ?thesis using take_prefix_eq [of k "llog h x" "llog h y"] by simp
    qed
    have k: "k \<le> i" "k \<le> j" using t(2) s(2) assms(4,5) by auto
    show ?thesis
    proof (cases "t \<le> s")
      case True
      then show ?thesis by (rule agree [OF _ t(1) s(1) k(1)])
    next
      case False
      then have "s \<le> t" by simp
      from agree [OF this s(1) t(1) k(2)] show ?thesis by (rule sym)
    qed
  qed
  moreover have "take k (rc_log (rl_nodes c n)) = take k (llog h t)" by (rule take_shorter [OF t(3) assms(4)])
  moreover have "take k (rc_log (rl_nodes c m)) = take k (llog h s)" by (rule take_shorter [OF s(3) assms(5)])
  ultimately show ?thesis by simp
qed simp

section \<open>The state machines\<close>

text \<open>What the clock of a node has no part in: all but the times of the leases.\<close>

definition lease_view :: "bytes \<times> cluster_lease \<Rightarrow> bytes \<times> bytes \<times> bytes \<times> u64" where
  "lease_view = (\<lambda>(r, l). (r, le_resource l, le_holder l, le_epoch l))"

definition sm_view ::
  "cluster_sm \<Rightarrow> (bytes \<times> bytes \<times> bytes) list \<times> (bytes \<times> bytes \<times> bytes \<times> u64) list \<times> (bytes \<times> bytes \<times> u64) list \<times> (bytes \<times> u64) list" where
  "sm_view sm = (sm_nodes sm, map lease_view (sm_leases sm), sm_metadata sm, sm_fenced_epochs sm)"

lemma lease_view_fst: "fst (lease_view x) = fst x"
  by (simp add: lease_view_def split_beta)

lemma lease_view_update:
  assumes "lease_view (r, l) = lease_view (r, l')" "map lease_view ls = map lease_view ls'"
  shows "map lease_view (AList.update r l ls) = map lease_view (AList.update r l' ls')"
  using map_eq_imp_length_eq [OF assms(2)] assms(2)
proof (induction ls ls' rule: list_induct2)
  case (Cons x xs y ys)
  then have "fst x = fst y" using lease_view_fst by (metis list.map(2) list.inject)
  then show ?case using Cons assms(1) by (cases x; cases y) auto
qed (use assms(1) in simp)

lemma lease_view_delete:
  assumes "map lease_view ls = map lease_view ls'"
  shows "map lease_view (AList.delete r ls) = map lease_view (AList.delete r ls')"
  using map_eq_imp_length_eq [OF assms] assms
proof (induction ls ls' rule: list_induct2)
  case (Cons x xs y ys)
  then have "fst x = fst y" using lease_view_fst by (metis list.map(2) list.inject)
  then show ?case using Cons by (cases x; cases y) (auto simp: AList.delete_eq)
qed simp

lemma lease_view_holder:
  assumes "map lease_view ls = map lease_view ls'"
  shows "map_option le_holder (map_of ls r) = map_option le_holder (map_of ls' r)"
  using map_eq_imp_length_eq [OF assms] assms
proof (induction ls ls' rule: list_induct2)
  case (Cons x xs y ys)
  then show ?case by (cases x; cases y) (simp add: lease_view_def)
qed simp

lemma sm_apply_view:
  assumes "sm_view a = sm_view b"
  shows "sm_view (sm_apply c now a) = sm_view (sm_apply c now' b)"
proof (cases c)
  case (AcquireLease r holder ttl epoch)
  then show ?thesis using assms by (auto simp: sm_view_def intro!: lease_view_update) (simp_all add: lease_view_def)
next
  case (ReleaseLease r holder)
  have "map lease_view (sm_leases a) = map lease_view (sm_leases b)" using assms by (simp add: sm_view_def)
  from lease_view_holder [OF this, of r] lease_view_delete [OF this, of r] show ?thesis
    using assms ReleaseLease by (auto simp: sm_view_def split: option.splits)
qed (use assms in \<open>auto simp: sm_view_def\<close>)

lemma sm_run_view:
  assumes "length nows = length cs" "length nows' = length cs"
  shows "sm_view (sm_run (zip cs nows)) = sm_view (sm_run (zip cs nows'))"
proof -
  have "sm_view (fold (\<lambda>(c, now). sm_apply c now) (zip cs nows) a) = sm_view (fold (\<lambda>(c, now). sm_apply c now) (zip cs nows') b)"
    if "sm_view a = sm_view b" for a b
    using assms that
  proof (induction cs arbitrary: nows nows' a b)
    case (Cons c cs)
    obtain x xs where x: "nows = x # xs" using Cons.prems(1) by (cases nows) auto
    obtain y ys where y: "nows' = y # ys" using Cons.prems(2) by (cases nows') auto
    have "sm_view (fold (\<lambda>(c, now). sm_apply c now) (zip cs xs) (sm_apply c x a)) =
        sm_view (fold (\<lambda>(c, now). sm_apply c now) (zip cs ys) (sm_apply c y b))"
      by (rule Cons.IH [OF _ _ sm_apply_view [OF Cons.prems(3)]]) (use Cons.prems(1,2) x y in simp_all)
    then show ?case by (simp add: x y)
  qed simp
  then show ?thesis by (simp add: sm_run_def)
qed

lemma machines_agree:
  assumes "raft_reachable ids c" "n \<in> set ids" "m \<in> set ids"
    and "rc_last_applied (rl_nodes c n) = rc_last_applied (rl_nodes c m)"
  shows "sm_view (rc_state_machine (rl_nodes c n)) = sm_view (rc_state_machine (rl_nodes c m))"
proof -
  obtain h where ok: "cluster_ok ids h c" using reachable_ok [OF assms(1)] by blast
  let ?k = "unat (rc_last_applied (rl_nodes c n))"
  have com: "commit_ok ids (rl_net c) h (rl_nodes c i)" if "i \<in> set ids" for i
    by (rule node_okD(5) [OF cluster_parts(4) [OF ok that]])
  have le: "?k \<le> unat (rc_commit_index (rl_nodes c n))" "?k \<le> unat (rc_commit_index (rl_nodes c m))"
    using com [OF assms(2)] com [OF assms(3)] assms(4) by (auto simp: commit_ok_def)
  have logs: "take ?k (rc_log (rl_nodes c n)) = take ?k (rc_log (rl_nodes c m))"
    by (rule committed_agree [OF assms(1-3) le])
  obtain nows where n: "length nows = ?k" "?k \<le> length (rc_log (rl_nodes c n))"
    "rc_state_machine (rl_nodes c n) = sm_run (zip (map en_command (take ?k (rc_log (rl_nodes c n)))) nows)"
    using com [OF assms(2)] by (auto simp: commit_ok_def applied_ok_def)
  obtain nows' where m: "length nows' = ?k"
    "rc_state_machine (rl_nodes c m) = sm_run (zip (map en_command (take ?k (rc_log (rl_nodes c m)))) nows')"
    using com [OF assms(3)] assms(4) by (auto simp: commit_ok_def applied_ok_def)
  show ?thesis unfolding n(3) m(2) logs [symmetric] by (rule sm_run_view) (use n m in auto)
qed

section \<open>Well-formed nodes\<close>

text \<open>The ranges that the unchecked index arithmetic of the handlers relies on.\<close>

definition raft_node_wf :: "bytes list \<Rightarrow> bytes \<Rightarrow> raft_coordinator \<Rightarrow> bool" where
  "raft_node_wf ids n r \<longleftrightarrow>
     rc_node_id r = n \<and> distinct (map fst (rc_peers r)) \<and> set (map fst (rc_peers r)) = set ids - {n}
   \<and> indexed (rc_log r) \<and> sorted (map en_term (rc_log r)) \<and> (\<forall>e \<in> set (rc_log r). en_term e \<le> rc_current_term r)
   \<and> unat (rc_last_applied r) \<le> unat (rc_commit_index r) \<and> unat (rc_commit_index r) \<le> length (rc_log r)
   \<and> (rc_role r = Leader \<longrightarrow>
        (\<forall>(p, pp) \<in> set (rc_peers r). 1 \<le> unat (pp_next_index pp) \<and> unat (pp_next_index pp) \<le> Suc (length (rc_log r))
           \<and> unat (pp_match_index pp) \<le> length (rc_log r)))"

lemma commit_bound:
  assumes "cluster_ok ids h c" "n \<in> set ids"
  shows "unat (rc_commit_index (rl_nodes c n)) \<le> length (rc_log (rl_nodes c n))"
proof (cases "rc_commit_index (rl_nodes c n) = 0")
  case False
  obtain t m where "committed ids (rl_net c) h t m" "unat (rc_commit_index (rl_nodes c n)) \<le> m"
    "take (unat (rc_commit_index (rl_nodes c n))) (rc_log (rl_nodes c n)) = take (unat (rc_commit_index (rl_nodes c n))) (llog h t)"
    by (rule committed_prefix [OF assms False])
  moreover from this have "unat (rc_commit_index (rl_nodes c n)) \<le> length (llog h t)" by (auto simp: committed_def)
  ultimately show ?thesis by (metis length_take min_def nat_le_linear)
qed simp

lemma nodes_wf:
  assumes "raft_reachable ids c" "n \<in> set ids"
  shows "raft_node_wf ids n (rl_nodes c n)"
proof -
  obtain h where ok: "cluster_ok ids h c" using reachable_ok [OF assms(1)] by blast
  let ?r = "rl_nodes c n"
  note parts = cluster_parts [OF ok]
  note node = node_okD [OF parts(4) [OF assms(2)]]
  have "1 \<le> unat (pp_next_index pp) \<and> unat (pp_next_index pp) \<le> Suc (length (rc_log ?r)) \<and> unat (pp_match_index pp) \<le> length (rc_log ?r)"
    if lead: "rc_role ?r = Leader" "(p, pp) \<in> set (rc_peers ?r)" for p pp
  proof -
    have "llog h (rc_current_term ?r) = rc_log ?r" using node(4) lead(1) by (simp add: leader_ok_def)
    moreover have "unat (ar_match_index a) \<le> length (llog h (ar_term a))" if "(n, p, a) \<in> nt_append_resps (rl_net c)" "ar_success a" for a
      using parts(2) that by (auto simp: net_ok_def ack_ok_def)
    ultimately show ?thesis using leader_peer [OF node(4) lead] by (metis unat_0 zero_le)
  qed
  moreover have "unat (rc_last_applied ?r) \<le> unat (rc_commit_index ?r)" using node(5) by (simp add: commit_ok_def)
  ultimately show ?thesis
    using vote_okD(1-3) [OF node(1)] log_okD [OF node(2)] good_sorted [OF parts(1)] commit_bound [OF ok assms(2)]
    by (auto simp: raft_node_wf_def)
qed

section \<open>No panics\<close>

lemma handlers_total:
  assumes "raft_reachable ids c" "n \<in> set ids"
  shows "(n, req) \<in> nt_appends (rl_net c) \<Longrightarrow> handle_append_entries now req (rl_nodes c n) \<noteq> Panic"
    and "(n, p, resp) \<in> nt_append_resps (rl_net c) \<Longrightarrow> handle_append_response now inst p resp (rl_nodes c n) \<noteq> Panic"
    and "create_append_entries_for_peer p (rl_nodes c n) \<noteq> Panic"
proof -
  obtain h where ok: "cluster_ok ids h c" using reachable_ok [OF assms(1)] by blast
  show "(n, req) \<in> nt_appends (rl_net c) \<Longrightarrow> handle_append_entries now req (rl_nodes c n) \<noteq> Panic"
    using append_step_ok [OF ok assms(2), of req now] by auto
  show "(n, p, resp) \<in> nt_append_resps (rl_net c) \<Longrightarrow> handle_append_response now inst p resp (rl_nodes c n) \<noteq> Panic"
    using append_response_ok [OF ok assms(2), of p resp now inst] by auto
  show "create_append_entries_for_peer p (rl_nodes c n) \<noteq> Panic"
  proof (cases "rc_role (rl_nodes c n) = Leader \<and> map_of (rc_peers (rl_nodes c n)) p \<noteq> None")
    case True
    then obtain pp where "map_of (rc_peers (rl_nodes c n)) p = Some pp" by blast
    then show ?thesis using create_append_ok [OF cluster_parts(1) [OF ok] cluster_parts(4) [OF ok assms(2)]] True by force
  qed (auto simp: create_append_entries_for_peer_def Let_def)
qed

end
