(* ===== verification/Raft_Rounds.thy ===== *)
theory Raft_Rounds
  imports Raft_Guarantees
begin

text \<open>
  The two exchanges that \<open>run_raft_benchmark\<close> drives a cluster with: a candidate asks the other
  nodes for their votes one by one, and a leader sends a peer its log and takes the answer. Both
  are sequences of cluster steps.
\<close>

section \<open>Definitions\<close>

definition begin_election :: "bytes \<Rightarrow> raft_cluster \<Rightarrow> raft_cluster \<times> vote_request" where
  "begin_election n c =
     (let (r, req) = start_election (rl_nodes c n)
      in (set_node n r (c\<lparr>rl_net := (rl_net c)\<lparr>nt_vote_reqs := insert req (nt_vote_reqs (rl_net c))\<rparr>\<rparr>), req))"

definition ask_vote :: "u64 \<Rightarrow> bytes \<Rightarrow> vote_request \<Rightarrow> bytes \<Rightarrow> raft_cluster \<Rightarrow> raft_cluster" where
  "ask_vote now n req v c =
     (let (rv, resp) = handle_request_vote req (rl_nodes c v);
          c = set_node v rv (c\<lparr>rl_net := (rl_net c)\<lparr>nt_vote_resps :=
                insert (vq_candidate_id req, resp) (nt_vote_resps (rl_net c))\<rparr>\<rparr>);
          (rn, won) = record_vote (vr_voter_id resp) (vr_vote_granted resp) (vr_term resp) now (rl_nodes c n)
      in set_node n rn c)"

definition campaign :: "u64 \<Rightarrow> bytes \<Rightarrow> bytes list \<Rightarrow> raft_cluster \<Rightarrow> raft_cluster" where
  "campaign now n voters c = (let (c, req) = begin_election n c in fold (ask_vote now n req) voters c)"

definition replicate_to :: "u64 \<Rightarrow> u64 \<Rightarrow> bytes \<Rightarrow> bytes \<Rightarrow> raft_cluster \<Rightarrow> (unit, raft_cluster) res" where
  "replicate_to now inst n p c =
     and_then (create_append_entries_for_peer p (rl_nodes c n)) (\<lambda>(rn, append_req).
     case append_req of
       None \<Rightarrow> Ok (set_node n rn c)
     | Some req \<Rightarrow>
         let c = set_node n rn (c\<lparr>rl_net := (rl_net c)\<lparr>nt_appends := insert (p, req) (nt_appends (rl_net c))\<rparr>\<rparr>) in
         and_then (handle_append_entries now req (rl_nodes c p)) (\<lambda>(rp, resp).
         let c = set_node p rp (c\<lparr>rl_net := (rl_net c)\<lparr>nt_append_resps :=
                   insert (aq_leader_id req, p, resp) (nt_append_resps (rl_net c))\<rparr>\<rparr>) in
         and_then (handle_append_response now inst p resp (rl_nodes c n)) (\<lambda>rn. Ok (set_node n rn c))))"

fun replicate_rounds :: "nat \<Rightarrow> u64 \<Rightarrow> u64 \<Rightarrow> bytes \<Rightarrow> bytes \<Rightarrow> raft_cluster \<Rightarrow> (unit, raft_cluster) res" where
  "replicate_rounds 0 now inst n p c = Ok c"
| "replicate_rounds (Suc k) now inst n p c =
     and_then (replicate_to now inst n p c) (replicate_rounds k now inst n p)"

section \<open>They are cluster steps\<close>

lemma begin_election_reachable:
  assumes "raft_reachable ids c" "n \<in> set ids" "rc_current_term (rl_nodes c n) \<noteq> - 1"
  shows "raft_reachable ids (fst (begin_election n c))"
    "snd (begin_election n c) \<in> nt_vote_reqs (rl_net (fst (begin_election n c)))"
    "vq_candidate_id (snd (begin_election n c)) = rc_node_id (rl_nodes c n)"
  using raft_reachable.step [OF assms(1) raft_step.elects [OF assms(2,3), of _ "snd (start_election (rl_nodes c n))"]]
  by (auto simp: begin_election_def set_node_def start_election_def Let_def split: prod.splits)

lemma ask_vote_reachable:
  assumes "raft_reachable ids c" "n \<in> set ids" "v \<in> set ids" "v \<noteq> n" "req \<in> nt_vote_reqs (rl_net c)"
    and "vq_candidate_id req = n" "has_room (rl_nodes c n)"
  shows "raft_reachable ids (ask_vote now n req v c) \<and> req \<in> nt_vote_reqs (rl_net (ask_vote now n req v c))"
proof -
  obtain rv resp where v: "handle_request_vote req (rl_nodes c v) = (rv, resp)" by fastforce
  let ?c = "set_node v rv (c\<lparr>rl_net := (rl_net c)\<lparr>nt_vote_resps := insert (vq_candidate_id req, resp) (nt_vote_resps (rl_net c))\<rparr>\<rparr>)"
  have c: "raft_reachable ids ?c" by (rule raft_reachable.step [OF assms(1) raft_step.votes [OF assms(3,5) v]])
  obtain rn won where n: "record_vote (vr_voter_id resp) (vr_vote_granted resp) (vr_term resp) now (rl_nodes ?c n) = (rn, won)"
    by fastforce
  have "raft_reachable ids (set_node n rn ?c)"
    by (rule raft_reachable.step [OF c raft_step.records [OF assms(2) _ _ n]])
      (use assms(4,6,7) in \<open>auto simp: set_node_def\<close>)
  then show ?thesis using v n assms(5) by (auto simp: ask_vote_def set_node_def)
qed

lemma replicate_reachable:
  assumes "raft_reachable ids c" "n \<in> set ids" "p \<in> set ids" "p \<noteq> n" "rc_role (rl_nodes c n) = Leader"
  shows "\<exists>c' rn req rp resp r'. replicate_to now inst n p c = Ok c' \<and> raft_reachable ids c'
    \<and> create_append_entries_for_peer p (rl_nodes c n) = Ok (rn, Some req)
    \<and> handle_append_entries now req (rl_nodes c p) = Ok (rp, resp)
    \<and> handle_append_response now inst p resp rn = Ok r' \<and> rl_nodes c' = (rl_nodes c)(p := rp, n := r')"
proof -
  obtain h where ok: "cluster_ok ids h c" using reachable_ok [OF assms(1)] by blast
  have node: "node_ok ids (rl_net c) h n (rl_nodes c n)" by (rule cluster_parts(4) [OF ok assms(2)])
  have "p \<in> fst ` set (rc_peers (rl_nodes c n))" using vote_okD(3) [OF node_okD(1) [OF node]] assms(3,4) by auto
  then have "map_of (rc_peers (rl_nodes c n)) p \<noteq> None" by (simp add: map_of_eq_None_iff)
  then obtain pp where pp: "map_of (rc_peers (rl_nodes c n)) p = Some pp" by blast
  obtain rn req where s: "create_append_entries_for_peer p (rl_nodes c n) = Ok (rn, Some req)"
    and req: "append_ok ids (rl_net c) h p req"
    using create_append_ok [OF cluster_parts(1) [OF ok] node assms(5) pp] by blast
  have lead: "aq_leader_id req = n"
    using s vote_okD(1) [OF node_okD(1) [OF node]]
    by (auto simp: create_append_entries_for_peer_def Let_def res_simps split: if_splits option.splits)
  let ?c1 = "set_node n rn (c\<lparr>rl_net := (rl_net c)\<lparr>nt_appends := insert (p, req) (nt_appends (rl_net c))\<rparr>\<rparr>)"
  have c1: "raft_reachable ids ?c1" by (rule raft_reachable.step [OF assms(1) raft_step.sends [OF assms(2) s]])
  obtain h1 where ok1: "cluster_ok ids h1 ?c1" using reachable_ok [OF c1] by blast
  have in1: "(p, req) \<in> nt_appends (rl_net ?c1)" by (simp add: set_node_def)
  obtain rp resp where a: "handle_append_entries now req (rl_nodes ?c1 p) = Ok (rp, resp)"
    using append_step_ok [OF ok1 assms(3) in1] by blast
  let ?c2 = "set_node p rp (?c1\<lparr>rl_net := (rl_net ?c1)\<lparr>nt_append_resps := insert (aq_leader_id req, p, resp) (nt_append_resps (rl_net ?c1))\<rparr>\<rparr>)"
  have c2: "raft_reachable ids ?c2" by (rule raft_reachable.step [OF c1 raft_step.appends [OF assms(3) in1 a]])
  obtain h2 where ok2: "cluster_ok ids h2 ?c2" using reachable_ok [OF c2] by blast
  have in2: "(n, p, resp) \<in> nt_append_resps (rl_net ?c2)" by (simp add: set_node_def lead)
  obtain r' where r: "handle_append_response now inst p resp (rl_nodes ?c2 n) = Ok r'"
    using append_response_ok [OF ok2 assms(2) in2] by blast
  have c3: "raft_reachable ids (set_node n r' ?c2)" by (rule raft_reachable.step [OF c2 raft_step.acks [OF assms(2) in2 r]])
  have "rl_nodes ?c1 p = rl_nodes c p" "rl_nodes ?c2 n = rn" using assms(4) by (simp_all add: set_node_def)
  then show ?thesis using s a r c3 assms(4)
    by (intro exI [of _ "set_node n r' ?c2"] exI [of _ rn] exI [of _ req] exI [of _ rp] exI [of _ resp] exI [of _ r'])
      (simp add: replicate_to_def Let_def, simp add: set_node_def)
qed

lemma replicate_rounds_reachable:
  assumes "raft_reachable ids c" "n \<in> set ids" "p \<in> set ids" "p \<noteq> n"
  shows "\<exists>c'. replicate_rounds k now inst n p c = Ok c' \<and> raft_reachable ids c'"
  using assms(1)
proof (induction k arbitrary: c)
  case (Suc k)
  obtain c1 where "replicate_to now inst n p c = Ok c1" "raft_reachable ids c1"
  proof (cases "rc_role (rl_nodes c n) = Leader")
    case True
    then show ?thesis using replicate_reachable [OF Suc.prems assms(2-4) True] that by blast
  next
    case False
    then show ?thesis using Suc.prems that
      by (simp add: replicate_to_def create_append_entries_for_peer_def set_node_def)
  qed
  then show ?case using Suc.IH by simp
qed simp

end
