(* ===== verification/Raft_Elections.thy ===== *)
theory Raft_Elections
  imports Raft_Rounds
begin

text \<open>
  When an election succeeds: a node whose term and log are not behind those of a majority becomes
  the leader by one campaign among them. Nothing of a node survives a restart, and with a voter
  that restarts in between two nodes become leaders of one term.
\<close>

section \<open>Votes\<close>

lemma vote_granted:
  assumes "rc_current_term r < vq_term req"
    and "last_log_term (rc_log r) < vq_last_log_term req
      \<or> last_log_term (rc_log r) = vq_last_log_term req \<and> log_len (rc_log r) \<le> vq_last_log_index req"
  shows "snd (handle_request_vote req r) = \<lparr>vr_term = vq_term req, vr_vote_granted = True, vr_voter_id = rc_node_id r\<rparr>"
  using assms by (auto simp: handle_request_vote_def Let_def)

lemma vote_raises_term: "rc_current_term r < vq_term req \<Longrightarrow> rc_current_term (fst (handle_request_vote req r)) = vq_term req"
  by (simp add: handle_request_vote_def Let_def)

lemma ask_vote_nodes:
  assumes "v \<noteq> n"
  shows "rl_nodes (ask_vote now n req v c) = (rl_nodes c)
    (v := fst (handle_request_vote req (rl_nodes c v)),
     n := fst (record_vote (vr_voter_id (snd (handle_request_vote req (rl_nodes c v))))
                 (vr_vote_granted (snd (handle_request_vote req (rl_nodes c v))))
                 (vr_term (snd (handle_request_vote req (rl_nodes c v)))) now (rl_nodes c n)))"
  using assms by (auto simp: ask_vote_def Let_def set_node_def split_beta)

text \<open>What is left of a campaign in term \<open>T\<close> after some of the voters have been asked.\<close>

definition campaigning :: "u64 \<Rightarrow> raft_log \<Rightarrow> nat \<Rightarrow> bytes set \<Rightarrow> raft_coordinator \<Rightarrow> bool" where
  "campaigning T l k vs r \<longleftrightarrow> rc_current_term r = T \<and> prefix l (rc_log r) \<and>
     (rc_role r = Leader \<or> rc_role r = Candidate \<and> rc_votes_received r = vs \<and> length (rc_peers r) = k \<and> card vs < (k + 1) div 2 + 1)"

lemma campaigning_vote:
  assumes "campaigning T l k vs r"
  shows "campaigning T l k (insert v vs) (fst (record_vote v True T now r))"
proof (cases "rc_role r = Leader")
  case True
  then show ?thesis using assms by (simp add: campaigning_def record_vote_def)
next
  case False
  then have r: "rc_current_term r = T" "rc_role r = Candidate" "rc_votes_received r = vs" "length (rc_peers r) = k" "prefix l (rc_log r)"
    using assms by (auto simp: campaigning_def)
  show ?thesis
  proof (cases "(k + 1) div 2 + 1 \<le> card (insert v vs)")
    case True
    then show ?thesis using r by (simp add: campaigning_def record_vote_def propose_def Let_def)
  next
    case False
    then show ?thesis using r by (simp add: campaigning_def record_vote_def Let_def)
  qed
qed

lemma ask_votes_other:
  "m \<notin> insert n (set vs) \<Longrightarrow> rl_nodes (fold (ask_vote now n req) vs c) m = rl_nodes c m"
  by (induction vs arbitrary: c) (auto simp: ask_vote_def Let_def set_node_def split_beta)

lemma ask_votes:
  assumes "distinct vs" "n \<notin> set vs" "campaigning (vq_term req) l k got (rl_nodes c n)"
    and "\<And>v. v \<in> set vs \<Longrightarrow> rc_node_id (rl_nodes c v) = v \<and> rc_current_term (rl_nodes c v) < vq_term req
      \<and> (last_log_term (rc_log (rl_nodes c v)) < vq_last_log_term req
         \<or> last_log_term (rc_log (rl_nodes c v)) = vq_last_log_term req \<and> log_len (rc_log (rl_nodes c v)) \<le> vq_last_log_index req)"
  shows "campaigning (vq_term req) l k (got \<union> set vs) (rl_nodes (fold (ask_vote now n req) vs c) n)
    \<and> (\<forall>v \<in> set vs. rc_current_term (rl_nodes (fold (ask_vote now n req) vs c) v) = vq_term req)"
  using assms
proof (induction vs arbitrary: c got)
  case (Cons v vs)
  let ?c = "ask_vote now n req v c"
  have v: "v \<noteq> n" "v \<notin> set vs" using Cons.prems(1,2) by auto
  have "snd (handle_request_vote req (rl_nodes c v)) = \<lparr>vr_term = vq_term req, vr_vote_granted = True, vr_voter_id = v\<rparr>"
    using vote_granted [of "rl_nodes c v" req] Cons.prems(4) [of v] by simp
  note nodes = ask_vote_nodes [OF v(1), of now req c, unfolded this, simplified]
  have "campaigning (vq_term req) l k (insert v got) (rl_nodes ?c n)"
    using campaigning_vote [OF Cons.prems(3)] nodes by simp
  moreover have "rl_nodes ?c w = rl_nodes c w" if "w \<in> set vs" for w using that v Cons.prems(2) nodes by auto
  ultimately have "campaigning (vq_term req) l k (insert v got \<union> set vs) (rl_nodes (fold (ask_vote now n req) vs ?c) n)
      \<and> (\<forall>v \<in> set vs. rc_current_term (rl_nodes (fold (ask_vote now n req) vs ?c) v) = vq_term req)"
    using Cons.prems(1,2,4) by (intro Cons.IH) auto
  moreover have "rc_current_term (rl_nodes (fold (ask_vote now n req) vs ?c) v) = vq_term req"
    using ask_votes_other [of v n vs now req ?c] v nodes vote_raises_term Cons.prems(4) [of v] by simp
  ultimately show ?case by simp
qed simp

lemma campaign_wins_nodes:
  assumes "distinct vs" "n \<notin> set vs" "rc_node_id (rl_nodes c n) = n" "rc_current_term (rl_nodes c n) \<noteq> - 1"
    and "length (rc_log (rl_nodes c n)) < 2 ^ 64" "length (rc_peers (rl_nodes c n)) = k" "(k + 1) div 2 \<le> length vs" "0 < k"
    and "\<And>v. v \<in> set vs \<Longrightarrow> rc_node_id (rl_nodes c v) = v \<and> length (rc_log (rl_nodes c v)) < 2 ^ 64
      \<and> rc_current_term (rl_nodes c v) \<le> rc_current_term (rl_nodes c n) \<and> up_to_date (rc_log (rl_nodes c n)) (rc_log (rl_nodes c v))"
  shows "rc_role (rl_nodes (campaign now n vs c) n) = Leader"
    "rc_current_term (rl_nodes (campaign now n vs c) n) = rc_current_term (rl_nodes c n) + 1"
    "prefix (rc_log (rl_nodes c n)) (rc_log (rl_nodes (campaign now n vs c) n))"
    "\<And>v. v \<in> set vs \<Longrightarrow> rc_current_term (rl_nodes (campaign now n vs c) v) = rc_current_term (rl_nodes c n) + 1"
proof -
  let ?r = "fst (start_election (rl_nodes c n))" and ?req = "snd (start_election (rl_nodes c n))"
  define c1 where "c1 = fst (begin_election n c)"
  have c1: "rl_nodes c1 = (rl_nodes c)(n := ?r)" "begin_election n c = (c1, ?req)"
    by (auto simp: c1_def begin_election_def set_node_def Let_def split_beta)
  have req: "vq_term ?req = rc_current_term (rl_nodes c n) + 1" "vq_last_log_index ?req = log_len (rc_log (rl_nodes c n))"
    "vq_last_log_term ?req = last_log_term (rc_log (rl_nodes c n))" by (simp_all add: start_election_def Let_def)
  have gt: "t < rc_current_term (rl_nodes c n) + 1" if "t \<le> rc_current_term (rl_nodes c n)" for t
    using that word_less_succ [OF assms(4)] by simp
  have "campaigning (vq_term ?req) (rc_log (rl_nodes c n)) k {n} (rl_nodes c1 n)"
    using assms(3,6,8) by (simp add: c1 req campaigning_def start_election_def Let_def)
  moreover have "rc_node_id (rl_nodes c1 v) = v \<and> rc_current_term (rl_nodes c1 v) < vq_term ?req
      \<and> (last_log_term (rc_log (rl_nodes c1 v)) < vq_last_log_term ?req
         \<or> last_log_term (rc_log (rl_nodes c1 v)) = vq_last_log_term ?req \<and> log_len (rc_log (rl_nodes c1 v)) \<le> vq_last_log_index ?req)"
    if "v \<in> set vs" for v
  proof -
    have "v \<noteq> n" using that assms(2) by auto
    then show ?thesis using assms(9) [OF that] gt assms(5)
      by (auto simp: c1 req up_to_date_def word_le_nat_alt)
  qed
  ultimately have "campaigning (vq_term ?req) (rc_log (rl_nodes c n)) k ({n} \<union> set vs) (rl_nodes (fold (ask_vote now n ?req) vs c1) n)
      \<and> (\<forall>v \<in> set vs. rc_current_term (rl_nodes (fold (ask_vote now n ?req) vs c1) v) = vq_term ?req)"
    by (intro ask_votes [OF assms(1,2)]) auto
  moreover have "campaign now n vs c = fold (ask_vote now n ?req) vs c1"
    by (simp add: campaign_def c1(2))
  moreover have "card ({n} \<union> set vs) = length vs + 1" using assms(1,2) by (simp add: distinct_card)
  ultimately show "rc_role (rl_nodes (campaign now n vs c) n) = Leader"
    "rc_current_term (rl_nodes (campaign now n vs c) n) = rc_current_term (rl_nodes c n) + 1"
    "prefix (rc_log (rl_nodes c n)) (rc_log (rl_nodes (campaign now n vs c) n))"
    "\<And>v. v \<in> set vs \<Longrightarrow> rc_current_term (rl_nodes (campaign now n vs c) v) = rc_current_term (rl_nodes c n) + 1"
    using assms(7) by (auto simp: campaigning_def req)
qed

section \<open>Campaigns in a reachable cluster\<close>

lemma ask_vote_log: "length (rc_log (rl_nodes (ask_vote now n req v c) n)) \<le> Suc (length (rc_log (rl_nodes c n)))" if "v \<noteq> n"
  by (auto simp: ask_vote_nodes [OF that] record_vote_def propose_def Let_def)

lemma ask_votes_reachable:
  assumes "raft_reachable ids c" "n \<in> set ids" "set vs \<subseteq> set ids - {n}" "req \<in> nt_vote_reqs (rl_net c)"
    and "vq_candidate_id req = n" "length (rc_log (rl_nodes c n)) + length vs < 2 ^ 63"
  shows "raft_reachable ids (fold (ask_vote now n req) vs c)"
  using assms
proof (induction vs arbitrary: c)
  case (Cons v vs)
  have v: "v \<in> set ids" "v \<noteq> n" using Cons.prems(3) by auto
  have "has_room (rl_nodes c n)" using Cons.prems(6) by (simp add: has_room_def)
  note step = ask_vote_reachable [OF Cons.prems(1,2) v Cons.prems(4,5) this, of now]
  have "length (rc_log (rl_nodes (ask_vote now n req v c) n)) + length vs < 2 ^ 63"
    using ask_vote_log [OF v(2), of now req c] Cons.prems(6) by simp
  then have "raft_reachable ids (fold (ask_vote now n req) vs (ask_vote now n req v c))"
    using step Cons.prems(2,3,5) by (intro Cons.IH) auto
  then show ?case by simp
qed simp

lemma campaign_reachable:
  assumes "raft_reachable ids c" "n \<in> set ids" "set vs \<subseteq> set ids - {n}" "rc_current_term (rl_nodes c n) \<noteq> - 1"
    and "length (rc_log (rl_nodes c n)) + length vs < 2 ^ 63"
  shows "raft_reachable ids (campaign now n vs c)"
proof -
  obtain h where ok: "cluster_ok ids h c" using reachable_ok [OF assms(1)] by blast
  have id: "rc_node_id (rl_nodes c n) = n" by (rule vote_okD(1) [OF node_okD(1) [OF cluster_parts(4) [OF ok assms(2)]]])
  note e = begin_election_reachable [OF assms(1,2,4)]
  have "length (rc_log (rl_nodes (fst (begin_election n c)) n)) = length (rc_log (rl_nodes c n))"
    by (simp add: begin_election_def start_election_def set_node_def Let_def)
  then show ?thesis
    using ask_votes_reachable [OF e(1) assms(2,3) e(2)] e(3) id assms(5) by (simp add: campaign_def split_beta)
qed

lemma peer_count:
  assumes "raft_reachable ids c" "n \<in> set ids"
  shows "length (rc_peers (rl_nodes c n)) = card (set ids) - 1" "rc_node_id (rl_nodes c n) = n" "length (rc_log (rl_nodes c n)) < 2 ^ 64"
proof -
  obtain h where ok: "cluster_ok ids h c" using reachable_ok [OF assms(1)] by blast
  note node = cluster_parts(4) [OF ok assms(2)]
  note v = vote_okD [OF node_okD(1) [OF node]]
  show "rc_node_id (rl_nodes c n) = n" by (rule v(1))
  have "length (rc_peers (rl_nodes c n)) = card (fst ` set (rc_peers (rl_nodes c n)))"
    using distinct_card [OF v(2)] by simp
  then show "length (rc_peers (rl_nodes c n)) = card (set ids) - 1" using v(3) assms(2) by simp
  show "length (rc_log (rl_nodes c n)) < 2 ^ 64" using node_log_bound(2) [OF node cluster_parts(1) [OF ok]] by simp
qed

lemma campaign_wins:
  assumes "raft_reachable ids c" "n \<in> set ids" "distinct vs" "set vs \<subseteq> set ids - {n}" "rc_current_term (rl_nodes c n) \<noteq> - 1"
    and "card (set ids) div 2 \<le> length vs" "2 \<le> card (set ids)"
    and "\<And>v. v \<in> set vs \<Longrightarrow> rc_current_term (rl_nodes c v) \<le> rc_current_term (rl_nodes c n)
      \<and> up_to_date (rc_log (rl_nodes c n)) (rc_log (rl_nodes c v))"
  shows "rc_role (rl_nodes (campaign now n vs c) n) = Leader"
    "rc_current_term (rl_nodes (campaign now n vs c) n) = rc_current_term (rl_nodes c n) + 1"
    "prefix (rc_log (rl_nodes c n)) (rc_log (rl_nodes (campaign now n vs c) n))"
    "\<And>v. v \<in> set vs \<Longrightarrow> rc_current_term (rl_nodes (campaign now n vs c) v) = rc_current_term (rl_nodes c n) + 1"
proof -
  note p = peer_count [OF assms(1)]
  have "v \<in> set ids" if "v \<in> set vs" for v using that assms(4) by auto
  then have "\<And>v. v \<in> set vs \<Longrightarrow> rc_node_id (rl_nodes c v) = v \<and> length (rc_log (rl_nodes c v)) < 2 ^ 64
      \<and> rc_current_term (rl_nodes c v) \<le> rc_current_term (rl_nodes c n) \<and> up_to_date (rc_log (rl_nodes c n)) (rc_log (rl_nodes c v))"
    using assms(8) p(2,3) by simp
  note wins = campaign_wins_nodes [OF assms(3) _ p(2) [OF assms(2)] assms(5) p(3) [OF assms(2)] p(1) [OF assms(2)] _ _ this, where now = now]
  show "rc_role (rl_nodes (campaign now n vs c) n) = Leader"
    "rc_current_term (rl_nodes (campaign now n vs c) n) = rc_current_term (rl_nodes c n) + 1"
    "prefix (rc_log (rl_nodes c n)) (rc_log (rl_nodes (campaign now n vs c) n))"
    "\<And>v. v \<in> set vs \<Longrightarrow> rc_current_term (rl_nodes (campaign now n vs c) v) = rc_current_term (rl_nodes c n) + 1"
    using wins assms(4,6,7) by (auto simp: subset_iff)
qed

section \<open>A restart\<close>

definition restarted :: "bytes list \<Rightarrow> bytes \<Rightarrow> raft_cluster \<Rightarrow> raft_cluster" where
  "restarted ids n c = set_node n (rc_new n ids 0) c"

lemma fresh_wins:
  assumes "rl_nodes c n = rc_new n ids i" "rl_nodes c v = rc_new v ids j" "n \<noteq> v" "n \<in> set ids" "card (set ids) = 3"
  shows "rc_role (rl_nodes (campaign now n [v] c) n) = Leader" "rc_current_term (rl_nodes (campaign now n [v] c) n) = 1"
proof -
  have "length (rc_peers (rl_nodes c n)) = 2"
    using new_peers_spec [of "[]" n i ids] assms(1,4,5) distinct_card [of "map fst (new_peers n i ids [])"] by (simp add: rc_new_def)
  then show "rc_role (rl_nodes (campaign now n [v] c) n) = Leader" "rc_current_term (rl_nodes (campaign now n [v] c) n) = 1"
    using campaign_wins_nodes(1,2) [of "[v]" n c 2, where now = now] assms(1-3) by (simp_all add: rc_new_def up_to_date_def)
qed

lemma campaign_other: "m \<notin> insert n (set vs) \<Longrightarrow> rl_nodes (campaign now n vs c) m = rl_nodes c m"
  using ask_votes_other by (simp add: campaign_def begin_election_def set_node_def Let_def split_beta)

lemma restart_two_leaders:
  assumes "card {a, b, c} = 3"
  shows "\<exists>x. raft_reachable [a, b, c] x \<and>
    (let y = campaign 0 c [b] (restarted [a, b, c] b x)
     in rc_role (rl_nodes y a) = Leader \<and> rc_role (rl_nodes y c) = Leader
        \<and> rc_current_term (rl_nodes y a) = rc_current_term (rl_nodes y c))"
proof -
  let ?ids = "[a, b, c]"
  let ?x = "campaign 0 a [b] (initial_cluster ?ids 0)"
  let ?z = "restarted ?ids b ?x"
  let ?y = "campaign 0 c [b] ?z"
  have d: "a \<noteq> b" "a \<noteq> c" "b \<noteq> c" using assms by (auto simp: card_insert_if split: if_splits)
  have i: "rl_nodes (initial_cluster ?ids 0) n = rc_new n ?ids 0" for n by (simp add: initial_cluster_def)
  have "raft_reachable ?ids ?x"
    using d i by (intro campaign_reachable raft_reachable.start) (auto simp: rc_new_def)
  moreover have "rl_nodes ?y a = rl_nodes ?x a"
    using d campaign_other [of a c "[b]" 0 ?z] by (simp add: restarted_def set_node_def)
  moreover have "rl_nodes ?z c = rc_new c ?ids 0" "rl_nodes ?z b = rc_new b ?ids 0"
    using d i campaign_other [of c a "[b]" 0 "initial_cluster ?ids 0"] by (simp_all add: restarted_def set_node_def)
  ultimately show ?thesis
    using fresh_wins [OF i i d(1), of 0] fresh_wins [of ?z c ?ids 0 b 0 0] d assms
    by (intro exI [of _ ?x]) (auto simp: Let_def)
qed

end
