(* ===== verification/Raft_Progress.thy ===== *)
theory Raft_Progress
  imports Raft_Elections
begin

text \<open>
  A leader brings every peer of no later term up to its own log by repeated exchanges, at most as
  many as its position for that peer, and commits its whole log once it has done so for a majority.
\<close>

section \<open>One exchange\<close>

lemma append_outcome:
  assumes "handle_append_entries now req r = Ok (r', resp)" "rc_current_term r \<le> aq_term req" "length (rc_log r) < 2 ^ 64"
  shows "rc_current_term r' = aq_term req" "ar_term resp = aq_term req"
    "ar_success resp \<Longrightarrow> ar_match_index resp = log_len (rc_log r') \<and> append_loop (aq_entries req) (rc_log r) = Ok (rc_log r') \<and> unat (aq_prev_log_index req) \<le> length (rc_log r)
       \<and> (aq_prev_log_index req > 0 \<longrightarrow> en_term (rc_log r ! (unat (aq_prev_log_index req) - 1)) = aq_prev_log_term req)"
    "\<not> ar_success resp \<Longrightarrow> aq_prev_log_index req > 0"
proof -
  define r1 where "r1 = (if aq_term req > rc_current_term r
    then r\<lparr>rc_current_term := aq_term req, rc_role := Follower, rc_voted_for := None,
           rc_stats := (rc_stats r)\<lparr>rs_terms_advanced := rs_terms_advanced (rc_stats r) + 1\<rparr>\<rparr> else r)"
  define r2 where "r2 = r1\<lparr>rc_role := Follower, rc_leader_id := Some (aq_leader_id req)\<rparr>"
  let ?prev = "aq_prev_log_index req"
  have r2: "rc_current_term r2 = aq_term req" "rc_log r2 = rc_log r" "rc_current_term r1 = aq_term req"
    using assms(2) by (auto simp: r1_def r2_def)
  have len: "unat (log_len (rc_log r)) = length (rc_log r)" using assms(3) by simp
  note run = assms(1) [unfolded handle_append_entries_def r1_def [symmetric] Let_def, folded r2_def, unfolded r2]
  let ?goal = "rc_current_term r' = aq_term req \<and> ar_term resp = aq_term req
    \<and> (ar_success resp \<longrightarrow> ar_match_index resp = log_len (rc_log r') \<and> append_loop (aq_entries req) (rc_log r) = Ok (rc_log r') \<and> unat ?prev \<le> length (rc_log r)
         \<and> (?prev > 0 \<longrightarrow> en_term (rc_log r ! (unat ?prev - 1)) = aq_prev_log_term req))
    \<and> (\<not> ar_success resp \<longrightarrow> ?prev > 0)"
  have new: "rc_log (if b then apply_committed_entries now l t (r2\<lparr>rc_log := l, rc_commit_index := t\<rparr>) else r2\<lparr>rc_log := l\<rparr>) = l"
    "rc_current_term (if b then apply_committed_entries now l t (r2\<lparr>rc_log := l, rc_commit_index := t\<rparr>) else r2\<lparr>rc_log := l\<rparr>) = aq_term req"
    for b l t using r2(1) by (cases b; simp)+
  have accepted: ?goal
    if "(and_then (append_loop (aq_entries req) (rc_log r)) (\<lambda>l.
          Ok (f l, \<lparr>ar_term = aq_term req, ar_success = True, ar_match_index = log_len l,
                    ar_responder_id = g l\<rparr>)) :: (unit, _) res) = Ok (r', resp)"
      and "\<And>l. rc_log (f l) = l \<and> rc_current_term (f l) = aq_term req"
      and "?prev > 0 \<longrightarrow> en_term (rc_log r ! (unat ?prev - 1)) = aq_prev_log_term req" "unat ?prev \<le> length (rc_log r)" for f g
    using that by (cases "append_loop (aq_entries req) (rc_log r)") auto
  consider "?prev > 0" "?prev > log_len (rc_log r)"
    | "?prev > 0" "\<not> ?prev > log_len (rc_log r)" | "?prev = 0" by (auto simp: word_gt_0)
  then have ?goal
  proof cases
    case 1
    then show ?thesis using run r2(1,2) by auto
  next
    case 2
    then have i: "unat (?prev - 1) = unat ?prev - 1" "unat ?prev - 1 < length (rc_log r)" "unat ?prev \<le> length (rc_log r)"
      using len by (auto simp: unat_minus_1 word_less_nat_alt)
    then have e: "(index (rc_log r) (unat (?prev - 1)) :: (unit, raft_log_entry) res) = Ok (rc_log r ! (unat ?prev - 1))"
      by (simp add: index_def)
    show ?thesis
    proof (cases "en_term (rc_log r ! (unat ?prev - 1)) = aq_prev_log_term req")
      case True
      with run 2 i(3) r2(1) show ?thesis by (intro accepted) (simp add: e new, simp_all add: new)
    next
      case False
      with run 2 r2(1) show ?thesis by (auto simp: e)
    qed
  next
    case 3
    with run r2(1) show ?thesis by (intro accepted) (simp add: new, simp_all add: new)
  qed
  then show "rc_current_term r' = aq_term req" "ar_term resp = aq_term req"
    "ar_success resp \<Longrightarrow> ar_match_index resp = log_len (rc_log r') \<and> append_loop (aq_entries req) (rc_log r) = Ok (rc_log r') \<and> unat ?prev \<le> length (rc_log r)
       \<and> (?prev > 0 \<longrightarrow> en_term (rc_log r ! (unat ?prev - 1)) = aq_prev_log_term req)"
    "\<not> ar_success resp \<Longrightarrow> ?prev > 0" by blast+
qed

lemma create_append_fields:
  assumes "create_append_entries_for_peer p r = Ok (r', Some req)" "rc_role r = Leader" "map_of (rc_peers r) p = Some pp"
    and "1 \<le> unat (pp_next_index pp)" "unat (pp_next_index pp) \<le> Suc (length (rc_log r))" "length (rc_log r) < 2 ^ 64"
  shows "aq_term req = rc_current_term r" "aq_prev_log_index req = saturating_sub (pp_next_index pp) 1"
    "aq_entries req = drop (unat (aq_prev_log_index req)) (rc_log r)"
proof -
  have sub: "unat (pp_next_index pp - 1) = unat (pp_next_index pp) - 1"
    using assms(4) by (intro unat_minus_1) (auto simp: word_less_nat_alt)
  have prev: "unat (saturating_sub (pp_next_index pp) 1) = unat (pp_next_index pp) - 1"
    using assms(4) sub by (auto simp: saturating_sub_def word_le_nat_alt)
  show "aq_term req = rc_current_term r" "aq_prev_log_index req = saturating_sub (pp_next_index pp) 1"
    "aq_entries req = drop (unat (aq_prev_log_index req)) (rc_log r)"
    using assms by (auto simp: create_append_entries_for_peer_def Let_def res_simps slice_from_def word_le_nat_alt sub prev split: if_splits)
qed

lemma range_rev_Cons: "unat lo \<le> unat hi \<Longrightarrow> \<exists>ns. range_rev lo hi = hi # ns"
  by (simp add: range_rev_def)

lemma response_outcome:
  assumes "handle_append_response now inst p resp r = Ok r'" "rc_role r = Leader" "ar_term resp = rc_current_term r"
    and "map_of (rc_peers r) p = Some pp"
  shows "rc_role r' = Leader" "rc_current_term r' = rc_current_term r" "rc_log r' = rc_log r"
    "\<And>q. q \<noteq> p \<Longrightarrow> map_of (rc_peers r') q = map_of (rc_peers r) q"
    "\<not> ar_success resp \<Longrightarrow> map_of (rc_peers r') p = Some (pp\<lparr>pp_next_index := max (saturating_sub (pp_next_index pp) 1) 1\<rparr>)"
    "ar_success resp \<Longrightarrow> \<exists>pp'. map_of (rc_peers r') p = Some pp' \<and> pp_match_index pp' = ar_match_index resp"
    "rc_log r \<noteq> [] \<Longrightarrow> length (rc_log r) \<le> 2 ^ 63 \<Longrightarrow> en_term (last (rc_log r)) = rc_current_term r \<Longrightarrow>
       unat (rc_commit_index r) \<le> length (rc_log r) \<Longrightarrow>
       (length (rc_peers r') + 1) div 2 + 1 \<le> count_matches (rc_peers r') (log_len (rc_log r)) \<Longrightarrow> rc_commit_index r' = log_len (rc_log r)"
proof -
  define r1 where "r1 = r\<lparr>rc_peers := AList.update p (if ar_success resp
      then pp\<lparr>pp_match_index := ar_match_index resp, pp_next_index := ar_match_index resp + 1, pp_last_heartbeat := inst\<rparr>
      else pp\<lparr>pp_next_index := max (saturating_sub (pp_next_index pp) 1) 1\<rparr>) (rc_peers r)\<rparr>"
  obtain found where f: "commit_loop (rc_log r1) (rc_current_term r1) ((length (rc_peers r1) + 1) div 2 + 1) (rc_peers r1)
      (range_rev (rc_commit_index r1 + 1) (log_len (rc_log r1))) = Ok found"
    and r': "r' = (case found of Some n \<Rightarrow> apply_committed_entries now (rc_log r1) n (r1\<lparr>rc_commit_index := n\<rparr>) | None \<Rightarrow> r1)"
    using assms(1) unfolding handle_append_response_def assms(4) option.case r1_def [symmetric]
    by (auto simp: Let_def res_simps assms(2,3))
  have same: "rc_peers r' = rc_peers r1" "rc_log r1 = rc_log r" "rc_current_term r1 = rc_current_term r" "rc_commit_index r1 = rc_commit_index r"
    by (simp_all add: r' r1_def split: option.split)
  show "rc_role r' = Leader" "rc_current_term r' = rc_current_term r" "rc_log r' = rc_log r"
    using assms(2) by (simp_all add: r' r1_def split: option.split)
  show "\<And>q. q \<noteq> p \<Longrightarrow> map_of (rc_peers r') q = map_of (rc_peers r) q"
    unfolding same by (simp add: r1_def update_conv')
  show "\<not> ar_success resp \<Longrightarrow> map_of (rc_peers r') p = Some (pp\<lparr>pp_next_index := max (saturating_sub (pp_next_index pp) 1) 1\<rparr>)"
    "ar_success resp \<Longrightarrow> \<exists>pp'. map_of (rc_peers r') p = Some pp' \<and> pp_match_index pp' = ar_match_index resp"
    unfolding same by (simp_all add: r1_def update_conv')
  assume l: "rc_log r \<noteq> []" "length (rc_log r) \<le> 2 ^ 63" "en_term (last (rc_log r)) = rc_current_term r"
    "unat (rc_commit_index r) \<le> length (rc_log r)"
    "(length (rc_peers r') + 1) div 2 + 1 \<le> count_matches (rc_peers r') (log_len (rc_log r))"
  show "rc_commit_index r' = log_len (rc_log r)"
  proof (cases "unat (rc_commit_index r) = length (rc_log r)")
    case True
    then have "rc_commit_index r = log_len (rc_log r)" using l(2) by (simp add: word_unat_eq_iff)
    moreover from this have "range_rev (rc_commit_index r + 1) (log_len (rc_log r)) = []"
      using l(2) by (simp add: range_rev_def log_len_append unat_of_nat del: of_nat_Suc)
    ultimately show ?thesis using f same by (simp add: r')
  next
    case False
    have len: "unat (log_len (rc_log r)) = length (rc_log r)" "0 < length (rc_log r)" using l(1,2) by simp_all
    have "unat (rc_commit_index r + 1) = Suc (unat (rc_commit_index r))"
      using False l(4) len by (intro word_below_succ [of _ "log_len (rc_log r)"]) (simp add: word_less_nat_alt)
    then obtain ns where ns: "range_rev (rc_commit_index r + 1) (log_len (rc_log r)) = log_len (rc_log r) # ns"
      using range_rev_Cons [of "rc_commit_index r + 1" "log_len (rc_log r)"] False l(4) len by auto
    have "unat (log_len (rc_log r) - 1) = length (rc_log r) - 1" using len by (simp add: unat_minus_1 word_less_nat_alt)
    then have "(index (rc_log r) (unat (log_len (rc_log r) - 1)) :: (unit, raft_log_entry) res) = Ok (last (rc_log r))"
      using l(1) len(2) by (simp add: index_def last_conv_nth)
    then have "found = Some (log_len (rc_log r))" using f l(3,5) same by (simp add: ns)
    then show ?thesis using same by (simp add: r')
  qed
qed

section \<open>Catching up\<close>

text \<open>
  The leader knows that a peer has its whole log; what an exchange with one peer leaves alone; and
  the commitment that follows once enough peers are known to match.
\<close>

definition matched :: "raft_cluster \<Rightarrow> bytes \<Rightarrow> bytes \<Rightarrow> bool" where
  "matched c n q \<longleftrightarrow>
     (\<exists>pp. map_of (rc_peers (rl_nodes c n)) q = Some pp \<and> pp_match_index pp = log_len (rc_log (rl_nodes c n)))"

definition still_leads :: "bytes \<Rightarrow> bytes \<Rightarrow> raft_cluster \<Rightarrow> raft_cluster \<Rightarrow> bool" where
  "still_leads n p c c' \<longleftrightarrow>
     rc_role (rl_nodes c' n) = Leader \<and> rc_current_term (rl_nodes c' n) = rc_current_term (rl_nodes c n)
   \<and> rc_log (rl_nodes c' n) = rc_log (rl_nodes c n)
   \<and> (\<forall>q. q \<noteq> n \<longrightarrow> q \<noteq> p \<longrightarrow> rl_nodes c' q = rl_nodes c q)
   \<and> (\<forall>q. q \<noteq> p \<longrightarrow> map_of (rc_peers (rl_nodes c' n)) q = map_of (rc_peers (rl_nodes c n)) q)"

definition quorum_commits :: "bytes list \<Rightarrow> bytes \<Rightarrow> raft_cluster \<Rightarrow> bool" where
  "quorum_commits ids n c \<longleftrightarrow>
     (card (set ids) div 2 \<le> card {q. matched c n q} \<longrightarrow> rc_commit_index (rl_nodes c n) = log_len (rc_log (rl_nodes c n)))"

definition in_step :: "bytes list \<Rightarrow> bytes \<Rightarrow> bytes \<Rightarrow> raft_cluster \<Rightarrow> bool" where
  "in_step ids n p c \<longleftrightarrow> rc_log (rl_nodes c p) = rc_log (rl_nodes c n) \<and> matched c n p \<and> quorum_commits ids n c"

lemma still_leads_trans: "still_leads n p c c' \<Longrightarrow> still_leads n p c' c'' \<Longrightarrow> still_leads n p c c''"
  by (simp add: still_leads_def)

lemma matched_count: "card {q. matched c n q} < count_matches (rc_peers (rl_nodes c n)) (log_len (rc_log (rl_nodes c n)))"
proof -
  let ?ps = "filter (\<lambda>(q, pp). pp_match_index pp \<ge> log_len (rc_log (rl_nodes c n))) (rc_peers (rl_nodes c n))"
  have "{q. matched c n q} \<subseteq> fst ` set ?ps" by (force simp: matched_def dest: map_of_SomeD)
  then have "card {q. matched c n q} \<le> card (fst ` set ?ps)" by (intro card_mono) auto
  also have "\<dots> \<le> length ?ps" by (meson card_image_le card_length finite_set le_trans)
  finally show ?thesis by (simp add: count_matches_def split_beta)
qed

lemma leader_log:
  assumes "raft_reachable ids c" "n \<in> set ids" "rc_role (rl_nodes c n) = Leader"
  shows "rc_log (rl_nodes c n) \<noteq> []" "en_term (last (rc_log (rl_nodes c n))) = rc_current_term (rl_nodes c n)"
    "length (rc_log (rl_nodes c n)) \<le> 2 ^ 63" "unat (rc_commit_index (rl_nodes c n)) \<le> length (rc_log (rl_nodes c n))"
proof -
  obtain h where ok: "cluster_ok ids h c" using reachable_ok [OF assms(1)] by blast
  let ?r = "rl_nodes c n"
  note parts = cluster_parts [OF ok] and node = cluster_parts(4) [OF ok assms(2)]
  obtain il where il: "h_elect h (rc_current_term ?r) = Some (n, il)" "llog h (rc_current_term ?r) = rc_log ?r"
    using node_okD(4) [OF node] assms(3) by (auto simp: leader_ok_def)
  have "rc_log ?r = il @ h_own h (rc_current_term ?r)" using llog_elect [OF il(1)] il(2) by simp
  then show "rc_log ?r \<noteq> []" "en_term (last (rc_log ?r)) = rc_current_term ?r"
    using hist_elected [OF parts(1) il(1)] by (auto simp: elected_ok_def)
  show "length (rc_log ?r) \<le> 2 ^ 63" by (rule node_log_bound(1) [OF node parts(1)])
  show "unat (rc_commit_index ?r) \<le> length (rc_log ?r)" by (rule commit_bound [OF ok assms(2)])
qed

text \<open>One round either brings the peer in step or moves the leader's position for it back by one.\<close>

lemma round_progress:
  assumes "raft_reachable ids c" "n \<in> set ids" "p \<in> set ids" "p \<noteq> n" "rc_role (rl_nodes c n) = Leader"
    and "rc_current_term (rl_nodes c p) \<le> rc_current_term (rl_nodes c n)" "map_of (rc_peers (rl_nodes c n)) p = Some pp"
  shows "\<exists>c'. replicate_to now inst n p c = Ok c' \<and> raft_reachable ids c' \<and> still_leads n p c c'
    \<and> rc_current_term (rl_nodes c' p) = rc_current_term (rl_nodes c n)
    \<and> (in_step ids n p c' \<or>
       (\<exists>pp'. map_of (rc_peers (rl_nodes c' n)) p = Some pp' \<and> unat (pp_next_index pp') < unat (pp_next_index pp)))"
proof -
  obtain h where ok: "cluster_ok ids h c" using reachable_ok [OF assms(1)] by blast
  note parts = cluster_parts [OF ok]
  note node = parts(4) [OF assms(2)] and peer = parts(4) [OF assms(3)]
  let ?L = "rc_log (rl_nodes c n)" and ?T = "rc_current_term (rl_nodes c n)"
  obtain c' rn req rp resp r' where run: "replicate_to now inst n p c = Ok c'" "raft_reachable ids c'"
    "create_append_entries_for_peer p (rl_nodes c n) = Ok (rn, Some req)"
    "handle_append_entries now req (rl_nodes c p) = Ok (rp, resp)"
    "handle_append_response now inst p resp rn = Ok r'" "rl_nodes c' = (rl_nodes c)(p := rp, n := r')"
    using replicate_reachable [OF assms(1-5)] by metis
  have nodes: "rl_nodes c' n = r'" "rl_nodes c' p = rp" using assms(4) run(6) by simp_all
  have ll: "llog h ?T = ?L" using node_okD(4) [OF node] assms(5) by (simp add: leader_ok_def)
  have app: "append_ok ids (rl_net c) h p req" and rn: "rc_role rn = Leader" "rc_current_term rn = ?T" "rc_log rn = ?L"
      "rc_peers rn = rc_peers (rl_nodes c n)" "rc_commit_index rn = rc_commit_index (rl_nodes c n)"
    using create_append_ok [OF parts(1) node assms(5,7)] run(3) assms(5) by auto
  have nx: "1 \<le> unat (pp_next_index pp)" "unat (pp_next_index pp) \<le> Suc (length ?L)"
    using leader_peer(1) [OF node_okD(4) [OF node] assms(5) map_of_SomeD [OF assms(7)]] by auto
  have len: "length ?L < 2 ^ 64" "length (rc_log (rl_nodes c p)) < 2 ^ 64"
    using node_log_bound(2) [OF node parts(1)] node_log_bound(2) [OF peer parts(1)] by auto
  have req: "aq_term req = ?T" "aq_prev_log_index req = saturating_sub (pp_next_index pp) 1"
    "aq_entries req = drop (unat (aq_prev_log_index req)) ?L"
    using create_append_fields [OF run(3) assms(5,7) nx len(1)] by auto
  have prev: "unat (aq_prev_log_index req) = unat (pp_next_index pp) - 1"
    using nx(1) by (auto simp: req(2) saturating_sub_def word_le_nat_alt unat_minus_1 word_less_nat_alt)
  note out = append_outcome [OF run(4) _ len(2), unfolded req(1), OF assms(6)]
  have pp: "map_of (rc_peers rn) p = Some pp" using assms(7) rn(4) by simp
  note answer = response_outcome [OF run(5) rn(1) _ pp, unfolded rn(2,3,4,5), OF out(2)]
  have lead: "still_leads n p c c'" unfolding still_leads_def nodes using answer(1-4) run(6) by simp
  have "in_step ids n p c' \<or> (\<exists>pp'. map_of (rc_peers r') p = Some pp' \<and> unat (pp_next_index pp') < unat (pp_next_index pp))"
  proof (cases "ar_success resp")
    case True
    have terms: "\<forall>e \<in> set (rc_log (rl_nodes c p)). en_term e \<le> aq_term req"
      using log_okD(2) [OF node_okD(2) [OF peer]] assms(6) req(1) by fastforce
    have "append_loop (aq_entries req) (rc_log (rl_nodes c p)) = Ok (rc_log rp)" using out(3) [OF True] by blast
    then have "prefix (rc_log rp) ?L" "unat (aq_prev_log_index req) + length (aq_entries req) \<le> length (rc_log rp)"
      using append_entries_log [OF parts(1) log_okD(1) [OF node_okD(2) [OF peer]] terms app] out(3) [OF True] ll req(1) by auto
    moreover have "unat (aq_prev_log_index req) + length (aq_entries req) = length ?L" using prev nx(2) by (simp add: req(3))
    ultimately have eq: "rc_log rp = ?L" by (auto simp: prefix_def)
    then have "matched c' n p" using answer(3,6) True out(3) by (auto simp: matched_def nodes)
    moreover have "quorum_commits ids n c'"
      unfolding quorum_commits_def
    proof
      assume "card (set ids) div 2 \<le> card {q. matched c' n q}"
      then have "card (set ids) div 2 < count_matches (rc_peers r') (log_len ?L)"
        using matched_count [of c' n] answer(3) by (simp add: nodes)
      moreover have "length (rc_peers r') + 1 = card (set ids)"
        using peer_count(1) [OF run(2) assms(2)] card_gt_0_iff [of "set ids"] assms(2) by (auto simp: nodes)
      ultimately show "rc_commit_index (rl_nodes c' n) = log_len (rc_log (rl_nodes c' n))"
        using answer(7) leader_log [OF assms(1,2,5)] answer(3) by (simp add: nodes)
    qed
    ultimately show ?thesis using eq answer(3) by (simp add: in_step_def nodes)
  next
    case False
    then have "0 < unat (aq_prev_log_index req)" using out(4) by (simp add: word_less_nat_alt)
    then have "unat (max (saturating_sub (pp_next_index pp) 1) 1) < unat (pp_next_index pp)"
      using prev by (auto simp: req(2) max_def word_le_nat_alt)
    then show ?thesis using answer(5) [OF False] by auto
  qed
  then show ?thesis using run(1,2) lead out(1) by (auto simp: nodes)
qed

lemma catch_up:
  assumes "raft_reachable ids c" "n \<in> set ids" "p \<in> set ids" "p \<noteq> n" "rc_role (rl_nodes c n) = Leader"
    and "rc_current_term (rl_nodes c p) \<le> rc_current_term (rl_nodes c n)" "map_of (rc_peers (rl_nodes c n)) p = Some pp"
  shows "\<exists>k c'. k \<le> unat (pp_next_index pp) \<and> replicate_rounds k now inst n p c = Ok c' \<and> raft_reachable ids c'
    \<and> still_leads n p c c' \<and> in_step ids n p c'"
  using assms(1,5-7)
proof (induction "unat (pp_next_index pp)" arbitrary: c pp rule: less_induct)
  case less
  from round_progress [OF less(2) assms(2-4) less(3-5), of now inst]
  obtain c' where c': "replicate_to now inst n p c = Ok c'" "raft_reachable ids c'" "still_leads n p c c'"
    "rc_current_term (rl_nodes c' p) = rc_current_term (rl_nodes c n)"
    and or: "in_step ids n p c' \<or>
       (\<exists>pp'. map_of (rc_peers (rl_nodes c' n)) p = Some pp' \<and> unat (pp_next_index pp') < unat (pp_next_index pp))"
    by blast
  obtain h where ok: "cluster_ok ids h c" using reachable_ok [OF less(2)] by blast
  have one: "1 \<le> unat (pp_next_index pp)"
    using leader_peer(1) [OF node_okD(4) [OF cluster_parts(4) [OF ok assms(2)]] less(3) map_of_SomeD [OF less(5)]] by simp
  have lead: "rc_role (rl_nodes c' n) = Leader" "rc_current_term (rl_nodes c' p) \<le> rc_current_term (rl_nodes c' n)"
    using c'(3,4) by (simp_all add: still_leads_def)
  from or show ?case
  proof
    assume "in_step ids n p c'"
    then show ?thesis using c' one by (intro exI [of _ 1] exI [of _ c']) simp
  next
    assume "\<exists>pp'. map_of (rc_peers (rl_nodes c' n)) p = Some pp' \<and> unat (pp_next_index pp') < unat (pp_next_index pp)"
    then obtain pp' where pp': "map_of (rc_peers (rl_nodes c' n)) p = Some pp'" "unat (pp_next_index pp') < unat (pp_next_index pp)"
      by blast
    obtain k c'' where k: "k \<le> unat (pp_next_index pp')" "replicate_rounds k now inst n p c' = Ok c''" "raft_reachable ids c''"
      "still_leads n p c' c''" "in_step ids n p c''"
      using less(1) [OF pp'(2) c'(2) lead pp'(1)] by blast
    then show ?thesis using c'(1) pp'(2) still_leads_trans [OF c'(3) k(4)] by (intro exI [of _ "Suc k"] exI [of _ c'']) simp
  qed
qed

section \<open>Committing\<close>

text \<open>Rounds with several peers in turn, so many with each.\<close>

fun replicate_schedule :: "(bytes \<times> nat) list \<Rightarrow> u64 \<Rightarrow> u64 \<Rightarrow> bytes \<Rightarrow> raft_cluster \<Rightarrow> (unit, raft_cluster) res" where
  "replicate_schedule [] now inst n c = Ok c"
| "replicate_schedule ((p, k) # xs) now inst n c =
     and_then (replicate_rounds k now inst n p c) (replicate_schedule xs now inst n)"

lemma leader_peer_entry:
  assumes "raft_reachable ids c" "n \<in> set ids" "p \<in> set ids" "p \<noteq> n"
  obtains pp where "map_of (rc_peers (rl_nodes c n)) p = Some pp"
proof -
  obtain h where ok: "cluster_ok ids h c" using reachable_ok [OF assms(1)] by blast
  have "p \<in> fst ` set (rc_peers (rl_nodes c n))"
    using vote_okD(3) [OF node_okD(1) [OF cluster_parts(4) [OF ok assms(2)]]] assms(3,4) by auto
  then show thesis using that by (metis map_of_eq_None_iff not_None_eq)
qed

lemma schedule_progress:
  assumes "raft_reachable ids c" "n \<in> set ids" "rc_role (rl_nodes c n) = Leader" "distinct vs" "set vs \<subseteq> set ids - {n}"
    and "\<forall>v \<in> set vs. rc_current_term (rl_nodes c v) \<le> rc_current_term (rl_nodes c n)"
    and "finite D" "D \<inter> set vs = {}" "\<forall>q \<in> D. q \<noteq> n \<and> rc_log (rl_nodes c q) = rc_log (rl_nodes c n) \<and> matched c n q"
    and "vs \<noteq> []"
  shows "\<exists>ks c'. length ks = length vs \<and> replicate_schedule (zip vs ks) now inst n c = Ok c' \<and> raft_reachable ids c'
    \<and> rc_role (rl_nodes c' n) = Leader \<and> rc_current_term (rl_nodes c' n) = rc_current_term (rl_nodes c n)
    \<and> rc_log (rl_nodes c' n) = rc_log (rl_nodes c n) \<and> quorum_commits ids n c'
    \<and> (\<forall>q \<in> D \<union> set vs. rc_log (rl_nodes c' q) = rc_log (rl_nodes c n) \<and> matched c' n q)"
  using assms(1,3-)
proof (induction vs arbitrary: c D)
  case (Cons v vs)
  have v: "v \<in> set ids" "v \<noteq> n" using Cons.prems(4) by auto
  obtain pp where pp: "map_of (rc_peers (rl_nodes c n)) v = Some pp" by (rule leader_peer_entry [OF Cons.prems(1) assms(2) v])
  obtain k c1 where c1: "replicate_rounds k now inst n v c = Ok c1" "raft_reachable ids c1" "still_leads n v c c1" "in_step ids n v c1"
    using catch_up [OF Cons.prems(1) assms(2) v Cons.prems(2) _ pp] Cons.prems(5) by force
  have keep: "rc_role (rl_nodes c1 n) = Leader" "rc_current_term (rl_nodes c1 n) = rc_current_term (rl_nodes c n)"
      "rc_log (rl_nodes c1 n) = rc_log (rl_nodes c n)"
    and other: "\<And>q. q \<noteq> n \<Longrightarrow> q \<noteq> v \<Longrightarrow> rl_nodes c1 q = rl_nodes c q"
      "\<And>q. q \<noteq> v \<Longrightarrow> matched c1 n q = matched c n q"
    using c1(3) by (simp_all add: still_leads_def matched_def)
  have D: "\<forall>q \<in> insert v D. q \<noteq> n \<and> rc_log (rl_nodes c1 q) = rc_log (rl_nodes c1 n) \<and> matched c1 n q"
  proof
    fix q assume "q \<in> insert v D"
    then consider "q = v" | "q \<in> D" "q \<noteq> v" using Cons.prems(7) by auto
    then show "q \<noteq> n \<and> rc_log (rl_nodes c1 q) = rc_log (rl_nodes c1 n) \<and> matched c1 n q"
    proof cases
      case 1
      then show ?thesis using c1(4) v(2) by (simp add: in_step_def)
    next
      case 2
      then show ?thesis using Cons.prems(8) other keep(3) by auto
    qed
  qed
  show ?case
  proof (cases "vs = []")
    case True
    then show ?thesis using c1 keep D by (intro exI [of _ "[k]"] exI [of _ c1]) (auto simp: in_step_def)
  next
    case False
    have "\<exists>ks c'. length ks = length vs \<and> replicate_schedule (zip vs ks) now inst n c1 = Ok c' \<and> raft_reachable ids c'
      \<and> rc_role (rl_nodes c' n) = Leader \<and> rc_current_term (rl_nodes c' n) = rc_current_term (rl_nodes c1 n)
      \<and> rc_log (rl_nodes c' n) = rc_log (rl_nodes c1 n) \<and> quorum_commits ids n c'
      \<and> (\<forall>q \<in> insert v D \<union> set vs. rc_log (rl_nodes c' q) = rc_log (rl_nodes c1 n) \<and> matched c' n q)"
    proof (rule Cons.IH [OF c1(2) keep(1) _ _ _ _ _ D False])
      show "distinct vs" "set vs \<subseteq> set ids - {n}" "finite (insert v D)" "insert v D \<inter> set vs = {}" using Cons.prems(3,4,6,7) by auto
      show "\<forall>w \<in> set vs. rc_current_term (rl_nodes c1 w) \<le> rc_current_term (rl_nodes c1 n)"
      proof
        fix w assume w: "w \<in> set vs"
        then have "rl_nodes c1 w = rl_nodes c w" using Cons.prems(3,4) by (intro other(1)) auto
        then show "rc_current_term (rl_nodes c1 w) \<le> rc_current_term (rl_nodes c1 n)" using Cons.prems(5) w keep(2) by simp
      qed
    qed
    then obtain ks c' where "length ks = length vs" "replicate_schedule (zip vs ks) now inst n c1 = Ok c'" "raft_reachable ids c'"
      "rc_role (rl_nodes c' n) = Leader" "rc_current_term (rl_nodes c' n) = rc_current_term (rl_nodes c1 n)"
      "rc_log (rl_nodes c' n) = rc_log (rl_nodes c1 n)" "quorum_commits ids n c'"
      "\<forall>q \<in> insert v D \<union> set vs. rc_log (rl_nodes c' q) = rc_log (rl_nodes c1 n) \<and> matched c' n q" by blast
    then show ?thesis using c1(1) keep by (intro exI [of _ "k # ks"] exI [of _ c']) auto
  qed
qed simp

lemma matched_finite: "finite {q. matched c n q}"
proof (rule finite_subset)
  show "{q. matched c n q} \<subseteq> fst ` set (rc_peers (rl_nodes c n))" by (force simp: matched_def dest: map_of_SomeD)
qed simp

lemma majority_commits:
  assumes "raft_reachable ids c" "n \<in> set ids" "rc_role (rl_nodes c n) = Leader" "distinct vs" "set vs \<subseteq> set ids - {n}"
    and "\<forall>v \<in> set vs. rc_current_term (rl_nodes c v) \<le> rc_current_term (rl_nodes c n)"
    and "card (set ids) div 2 \<le> length vs" "vs \<noteq> []"
  shows "\<exists>ks c'. length ks = length vs \<and> replicate_schedule (zip vs ks) now inst n c = Ok c' \<and> raft_reachable ids c'
    \<and> rc_log (rl_nodes c' n) = rc_log (rl_nodes c n) \<and> rc_commit_index (rl_nodes c' n) = log_len (rc_log (rl_nodes c n))
    \<and> (\<forall>v \<in> set vs. rc_log (rl_nodes c' v) = rc_log (rl_nodes c n))"
proof -
  obtain ks c' where c': "length ks = length vs" "replicate_schedule (zip vs ks) now inst n c = Ok c'" "raft_reachable ids c'"
    "rc_log (rl_nodes c' n) = rc_log (rl_nodes c n)" "quorum_commits ids n c'"
    "\<forall>v \<in> set vs. rc_log (rl_nodes c' v) = rc_log (rl_nodes c n) \<and> matched c' n v"
    using schedule_progress [OF assms(1-6), of "{}" now inst] assms(8) by auto
  have "length vs = card (set vs)" using assms(4) by (simp add: distinct_card)
  also have "\<dots> \<le> card {q. matched c' n q}" using c'(6) matched_finite by (intro card_mono) auto
  finally have "rc_commit_index (rl_nodes c' n) = log_len (rc_log (rl_nodes c' n))"
    using c'(5) assms(7) by (simp add: quorum_commits_def)
  then show ?thesis using c' by metis
qed

text \<open>
  Together: a node that is not behind a majority takes over and commits all it has, the entries of
  earlier terms included.
\<close>

lemma majority_takes_over:
  assumes "raft_reachable ids c" "n \<in> set ids" "distinct vs" "set vs \<subseteq> set ids - {n}" "rc_current_term (rl_nodes c n) \<noteq> - 1"
    and "card (set ids) div 2 \<le> length vs" "2 \<le> card (set ids)"
    and "\<forall>v \<in> set vs. rc_current_term (rl_nodes c v) \<le> rc_current_term (rl_nodes c n)
      \<and> up_to_date (rc_log (rl_nodes c n)) (rc_log (rl_nodes c v))"
    and "length (rc_log (rl_nodes c n)) + length vs < 2 ^ 63"
  shows "\<exists>ks c'. length ks = length vs \<and> replicate_schedule (zip vs ks) now inst n (campaign now n vs c) = Ok c'
    \<and> raft_reachable ids c' \<and> prefix (rc_log (rl_nodes c n)) (rc_log (rl_nodes c' n))
    \<and> rc_commit_index (rl_nodes c' n) = log_len (rc_log (rl_nodes c' n))
    \<and> (\<forall>v \<in> set vs. rc_log (rl_nodes c' v) = rc_log (rl_nodes c' n))"
proof -
  have cond: "\<And>v. v \<in> set vs \<Longrightarrow> rc_current_term (rl_nodes c v) \<le> rc_current_term (rl_nodes c n)
      \<and> up_to_date (rc_log (rl_nodes c n)) (rc_log (rl_nodes c v))" using assms(8) by blast
  note wins = campaign_wins [OF assms(1-7) cond, where now = now]
  have "raft_reachable ids (campaign now n vs c)" by (rule campaign_reachable [OF assms(1,2,4,5,9)])
  moreover have "vs \<noteq> []" using assms(6,7) by auto
  ultimately have "\<exists>ks c'. length ks = length vs \<and> replicate_schedule (zip vs ks) now inst n (campaign now n vs c) = Ok c'
    \<and> raft_reachable ids c' \<and> rc_log (rl_nodes c' n) = rc_log (rl_nodes (campaign now n vs c) n)
    \<and> rc_commit_index (rl_nodes c' n) = log_len (rc_log (rl_nodes (campaign now n vs c) n))
    \<and> (\<forall>v \<in> set vs. rc_log (rl_nodes c' v) = rc_log (rl_nodes (campaign now n vs c) n))"
    using wins(1,2,4) assms(2,3,4,6) by (intro majority_commits) auto
  then show ?thesis using wins(3) by metis
qed

end
