(* ===== verification/Raft_Sample.thy ===== *)
theory Raft_Sample
  imports Raft_Progress
begin

text \<open>
  A concrete cluster of three nodes: the first wins the election of term 1 with the vote of the
  second, then sends it its log twice, after which both have committed the first entry.
\<close>

definition sample_ids :: "bytes list" where
  "sample_ids = [lit ''a'', lit ''b'', lit ''c'']"

definition sample_elected :: raft_cluster where
  "sample_elected = campaign 0 (lit ''a'') [lit ''b''] (initial_cluster sample_ids 0)"

definition sample_committed :: raft_cluster where
  "sample_committed =
     (case replicate_rounds 2 0 0 (lit ''a'') (lit ''b'') sample_elected of Ok c \<Rightarrow> c | _ \<Rightarrow> sample_elected)"

lemma sample_ids_set:
  "lit ''a'' \<in> set sample_ids" "lit ''b'' \<in> set sample_ids" "lit ''c'' \<in> set sample_ids"
  "lit ''a'' \<noteq> lit ''b''" "lit ''b'' \<noteq> lit ''a''" "lit ''c'' \<noteq> lit ''a''" "card (set sample_ids) = 3"
  by code_simp+

lemma sample_elected_reachable: "raft_reachable sample_ids sample_elected"
  unfolding sample_elected_def using sample_ids_set
  by (intro campaign_reachable raft_reachable.start) (simp_all add: initial_cluster_def rc_new_def)

lemma sample_elected_leader:
  "rc_role (rl_nodes sample_elected (lit ''a'')) = Leader" "rc_current_term (rl_nodes sample_elected (lit ''a'')) = 1"
  unfolding sample_elected_def using sample_ids_set
  by (auto intro!: fresh_wins [of _ _ sample_ids 0 _ 0] simp: initial_cluster_def)

lemma sample_committed_reachable: "raft_reachable sample_ids sample_committed"
  using replicate_rounds_reachable [OF sample_elected_reachable sample_ids_set(1,2,5), of 2 0 0]
  by (auto simp: sample_committed_def)

lemma sample_committed_values:
  "rc_role (rl_nodes sample_committed (lit ''a'')) = Leader"
  "rc_current_term (rl_nodes sample_committed (lit ''b'')) = rc_current_term (rl_nodes sample_committed (lit ''a''))"
  "rc_last_applied (rl_nodes sample_committed (lit ''a'')) = 1"
  "rc_last_applied (rl_nodes sample_committed (lit ''b'')) = 1"
  "rc_commit_index (rl_nodes sample_committed (lit ''b'')) = 1"
  "rc_log (rl_nodes sample_committed (lit ''a'')) = [\<lparr>en_index = 1, en_term = 1, en_command = Noop, en_timestamp = 0\<rparr>]"
  "rc_log (rl_nodes sample_committed (lit ''b'')) = [\<lparr>en_index = 1, en_term = 1, en_command = Noop, en_timestamp = 0\<rparr>]"
  "rc_current_term (rl_nodes sample_committed (lit ''c'')) \<le> rc_current_term (rl_nodes sample_committed (lit ''a''))"
  by code_simp+

end
