(* ===== verification/Galois_Field.thy ===== *)
theory Galois_Field
  imports Velcrux_Prelude
begin

text \<open>
  The arithmetic of \<open>transport/fec.rs\<close>: the tables of powers and logarithms of the field with 256
  elements, and the operations on bytes that look them up. They are shown to be the operations of
  a field, and bytes under them are made an instance of the type class \<open>field\<close>.
\<close>

unbundle bit_operations_syntax

section \<open>Definitions\<close>

definition GF_POLYNOMIAL :: "16 word" where
  "GF_POLYNOMIAL = 0x11d"

text \<open>The loop of \<open>init_gf_tables\<close> over \<open>i\<close>.\<close>

fun gf_tables_loop :: "nat list \<Rightarrow> 16 word \<Rightarrow> bytes \<Rightarrow> bytes \<Rightarrow> bytes \<times> bytes" where
  "gf_tables_loop [] val exp log = (exp, log)"
| "gf_tables_loop (i # is) val exp log =
     (let exp = exp[i := ucast val, i + 255 := ucast val];
          log = log[unat val := word_of_nat i];
          val = push_bit 1 val;
          val = (if val AND 0x100 \<noteq> 0 then val XOR GF_POLYNOMIAL else val)
      in gf_tables_loop is val exp log)"

definition init_gf_tables :: "bytes \<times> bytes" where
  "init_gf_tables =
     (let (exp, log) = gf_tables_loop [0..<255] 1 (replicate 512 0) (replicate 256 0)
      in (exp[510 := exp ! 0, 511 := exp ! 1], log))"

definition gf_add :: "u8 \<Rightarrow> u8 \<Rightarrow> u8" where
  "gf_add a b = a XOR b"

definition gf_sub :: "u8 \<Rightarrow> u8 \<Rightarrow> u8" where
  "gf_sub a b = a XOR b"

definition gf_mul :: "u8 \<Rightarrow> u8 \<Rightarrow> u8" where
  "gf_mul a b =
     (if a = 0 \<or> b = 0 then 0
      else let (exp, log) = init_gf_tables;
               sum = unat (log ! unat a) + unat (log ! unat b)
           in exp ! sum)"

definition gf_div :: "u8 \<Rightarrow> u8 \<Rightarrow> (unit, u8) res" where
  "gf_div a b =
     (if b = 0 then Panic
      else if a = 0 then Ok 0
      else let (exp, log) = init_gf_tables;
               diff = unat (log ! unat a) + 255 - unat (log ! unat b)
           in Ok (exp ! diff))"

definition gf_inv :: "u8 \<Rightarrow> (unit, u8) res" where
  "gf_inv a = gf_div 1 a"

section \<open>Doubling\<close>

text \<open>
  The loop multiplies by the element 2. On bytes this is a shift, reduced by the polynomial; it is
  linear, and the powers of 2 return to 1 after 255 steps and not before.
\<close>

definition gf_double :: "u8 \<Rightarrow> u8" where
  "gf_double b = push_bit 1 b XOR (if bit b 7 then 0x1d else 0)"

definition gf_pow :: "nat \<Rightarrow> u8" where
  "gf_pow i = (gf_double ^^ i) 1"

lemma bits_polynomial: "bit (0x11d :: int) n \<longleftrightarrow> n \<in> {0, 2, 3, 4, 8}" "bit (0x1d :: int) n \<longleftrightarrow> n \<in> {0, 2, 3, 4}"
  by (auto simp: bit_numeral_rec bit_1_iff split: nat.splits)

lemma double_word:
  "(let v = push_bit 1 (ucast b :: u16) in if v AND 0x100 \<noteq> 0 then v XOR GF_POLYNOMIAL else v) = ucast (gf_double b)"
proof -
  let ?v = "push_bit 1 (ucast b :: u16)"
  have "?v AND 0x100 \<noteq> 0 \<longleftrightarrow> bit ?v 8"
    using and_exp_eq_0_iff_not_bit [of ?v 8] by simp
  moreover have "bit ?v 8 \<longleftrightarrow> bit b 7" by (simp add: bit_simps del: push_bit_Suc)
  moreover have bits: "bit (if bit b 7 then ?v XOR 0x11d else ?v) n \<longleftrightarrow> bit (ucast (gf_double b) :: u16) n" if "n < 16" for n
  proof (cases "n = 8")
    case True
    then show ?thesis by (auto simp: gf_double_def bit_simps dest: bit_imp_le_length simp del: push_bit_Suc)
  next
    case False
    then show ?thesis using that bit_imp_le_length [of b "n - 1"]
      by (auto simp: gf_double_def bit_simps bits_polynomial simp del: push_bit_Suc)
  qed
  moreover have "(if bit b 7 then ?v XOR 0x11d else ?v) = ucast (gf_double b)" by (rule bit_word_eqI) (use bits in simp)
  ultimately show ?thesis by (cases "bit b 7") (simp_all add: Let_def GF_POLYNOMIAL_def del: push_bit_Suc)
qed

lemma double_xor: "gf_double (a XOR b) = gf_double a XOR gf_double b"
  by (auto simp: gf_double_def push_bit_xor bit_xor_iff ac_simps)

lemma double_zero: "gf_double b = 0 \<longleftrightarrow> b = 0"
proof
  assume "gf_double b = 0"
  then have zero: "\<not> bit (gf_double b) n" for n by simp
  have "\<not> bit b 7" using zero [of 0] by (auto simp: gf_double_def bit_simps bits_polynomial simp del: push_bit_Suc split: if_splits)
  moreover have "\<not> bit b n" if "n < 7" for n
    using zero [of "Suc n"] that \<open>\<not> bit b 7\<close> by (simp add: gf_double_def bit_simps possible_bit_def del: push_bit_Suc)
  ultimately have "\<not> bit b n" if "n < 8" for n using that by (cases "n = 7") auto
  then show "b = 0" by (intro bit_word_eqI) simp
qed (simp add: gf_double_def)

lemma xor_zero: "a XOR b = 0 \<longleftrightarrow> a = (b :: u8)"
proof
  assume "a XOR b = 0"
  then have "(a XOR b) XOR b = b" by simp
  then show "a = b" by (simp only: xor.assoc xor_self_eq xor.right_neutral)
qed simp

lemma double_inj: "gf_double a = gf_double b \<Longrightarrow> a = b"
  using double_xor [of a b] double_zero [of "a XOR b"] xor_zero by simp

lemma funpow_double_xor: "(gf_double ^^ i) (a XOR b) = (gf_double ^^ i) a XOR (gf_double ^^ i) b"
  by (induction i) (simp_all add: double_xor)

lemma funpow_double_inj: "(gf_double ^^ i) a = (gf_double ^^ i) b \<Longrightarrow> a = b"
  by (induction i) (auto dest: double_inj)

lemma pow_add: "gf_pow (i + j) = (gf_double ^^ i) (gf_pow j)"
  by (simp add: gf_pow_def funpow_add)

definition int_double :: "int \<Rightarrow> int" where
  "int_double x = (if x < 128 then 2 * x else (2 * x - 256) XOR 29)"

lemma int_double_numeral:
  "int_double 1 = 2" "int_double (numeral n) = (if numeral n < (128 :: int) then numeral (num.Bit0 n) else (numeral (num.Bit0 n) - 256) XOR 29)"
  by (simp_all add: int_double_def)

lemma funpow_numeral:
  "(f ^^ numeral num.One) x = f x" "(f ^^ numeral (num.Bit0 n)) x = (f ^^ numeral n) ((f ^^ numeral n) x)"
  "(f ^^ numeral (num.Bit1 n)) x = (f ^^ numeral n) ((f ^^ numeral n) (f x))"
  by (simp_all only: numeral.simps funpow_add comp_apply One_nat_def funpow.simps id_apply)

lemma int_orders: "(int_double ^^ 255) 1 = 1" "(int_double ^^ 85) 1 \<noteq> 1" "(int_double ^^ 51) 1 \<noteq> 1" "(int_double ^^ 15) 1 \<noteq> 1"
  by (simp_all add: funpow_numeral int_double_numeral)

lemma double_int: "0 \<le> x \<Longrightarrow> x < 256 \<Longrightarrow> gf_double (word_of_int x) = word_of_int (int_double x) \<and> 0 \<le> int_double x \<and> int_double x < 256"
proof -
  assume x: "0 \<le> x" "x < 256"
  have "x div 128 = (if x < 128 then 0 else 1)" using x by (auto intro: int_div_pos_eq [where r = "x - 128"])
  then have top: "bit (word_of_int x :: u8) 7 \<longleftrightarrow> \<not> x < 128"
    unfolding bit_word_of_int_iff by (simp add: bit_iff_odd)
  have push: "push_bit 1 (word_of_int x :: u8) = word_of_int (2 * x)" by (simp add: mult.commute)
  show ?thesis
  proof (cases "x < 128")
    case True
    then show ?thesis using x top push by (simp add: gf_double_def int_double_def del: push_bit_Suc)
  next
    case False
    have "word_of_int (2 * x) = (word_of_int (2 * x - 256) :: u8)" by simp
    then have "gf_double (word_of_int x) = word_of_int (2 * x - 256) XOR word_of_int 29"
      using False top push by (simp only: gf_double_def not_False_eq_True if_True of_int_numeral)
    also have "\<dots> = word_of_int (int_double x)" using False by (simp only: word_wi_log_defs int_double_def if_False)
    finally show ?thesis
      using False x XOR_lower [of "2 * x - 256" 29] XOR_upper [of "2 * x - 256" 8 29] by (simp add: int_double_def)
  qed
qed

lemma pow_int: "gf_pow i = word_of_int ((int_double ^^ i) 1) \<and> 0 \<le> (int_double ^^ i) 1 \<and> (int_double ^^ i) 1 < 256"
  by (induction i) (auto simp: gf_pow_def double_int)

lemma pow_one_iff: "gf_pow i = 1 \<longleftrightarrow> (int_double ^^ i) 1 = 1"
proof -
  have "uint (gf_pow i) = (int_double ^^ i) 1" using pow_int [of i] by (simp add: unsigned_of_int take_bit_int_eq_self)
  then show ?thesis by (metis uint_1 word_uint_eq_iff)
qed

lemma pow_orders: "gf_pow 255 = 1" "gf_pow 85 \<noteq> 1" "gf_pow 51 \<noteq> 1" "gf_pow 15 \<noteq> 1"
  unfolding pow_one_iff by (fact int_orders)+

section \<open>The powers are all nonzero bytes\<close>

lemma pow_0: "gf_pow 0 = 1"
  by (simp add: gf_pow_def)

lemma pow_period: "gf_pow (i + 255) = gf_pow i"
  using pow_add [of i 255] pow_orders(1) by (simp add: gf_pow_def)

lemma pow_mod: "gf_pow (i mod 255) = gf_pow i"
proof (induction i rule: less_induct)
  case (less i)
  then show ?case using pow_period [of "i - 255"] by (cases "i < 255") (auto simp: le_mod_geq)
qed

lemma pow_multiple: "gf_pow d = 1 \<Longrightarrow> gf_pow (d * n) = 1"
  by (induction n) (simp_all add: pow_0 pow_add [of d] gf_pow_def [symmetric])

lemma pow_gcd:
  assumes "gf_pow i = 1" "gf_pow j = 1"
  shows "gf_pow (gcd i j) = 1"
proof (cases "i = 0")
  case False
  then obtain x y where "x * i = y * j + gcd i j" using bezout_nat [of i j] by (metis add.commute mult.commute)
  then have "gf_pow (y * j + gcd i j) = 1" using pow_multiple [OF assms(1), of x] by (simp add: mult.commute)
  moreover have "gf_pow (y * j + gcd i j) = (gf_double ^^ gcd i j) (gf_pow (j * y))"
    using pow_add [of "gcd i j" "j * y"] by (simp add: ac_simps)
  ultimately show ?thesis using pow_multiple [OF assms(2), of y] by (simp add: gf_pow_def)
qed (use assms in simp)

lemma small_prime_dvd:
  assumes "p = 3 \<or> p = 5 \<or> p = (17 :: nat)" "\<not> coprime k p"
  shows "p dvd k"
proof -
  have all: "\<forall>p \<in> set [3, 5, 17 :: nat]. \<forall>d \<in> set [1..<Suc p]. p mod d = 0 \<longrightarrow> d = 1 \<or> d = p" by code_simp
  have p: "p \<in> set [3, 5, 17]" using assms(1) by auto
  have "gcd k p \<le> p" "0 < gcd k p" using assms(1) by (auto intro: gcd_le2_nat)
  then have "gcd k p \<in> set [1..<Suc p]" by (simp only: set_upt atLeastLessThan_iff) linarith
  moreover have "p mod gcd k p = 0" "gcd k p \<noteq> 1" using assms(2) by (auto simp: coprime_iff_gcd_eq_1)
  ultimately have "gcd k p = p" using bspec [OF bspec [OF all p], of "gcd k p"] by simp
  then show ?thesis by (metis gcd_dvd1)
qed

lemma divisors_255:
  assumes "g dvd (255 :: nat)" "g \<noteq> 255"
  shows "g dvd 85 \<or> g dvd 51 \<or> g dvd 15"
proof -
  obtain k where k: "g * k = 255" using assms(1) by (auto simp: dvd_def)
  have "\<not> coprime k (3 * 5 * 17)"
  proof
    assume "coprime k (3 * 5 * 17)"
    then have "coprime k (g * k)" using k by simp
    then have "k = 1" by simp
    then show False using k assms(2) by simp
  qed
  then have "3 dvd k \<or> 5 dvd k \<or> 17 dvd k" unfolding coprime_mult_right_iff using small_prime_dvd by blast
  then consider j where "k = 3 * j" | j where "k = 5 * j" | j where "k = 17 * j" by (auto simp: dvd_def)
  then show ?thesis
  proof cases
    case 1
    then have "g * j = 85" using k by simp
    then show ?thesis by (metis dvd_triv_left)
  next
    case 2
    then have "g * j = 51" using k by simp
    then show ?thesis by (metis dvd_triv_left)
  next
    case 3
    then have "g * j = 15" using k by simp
    then show ?thesis by (metis dvd_triv_left)
  qed
qed

lemma pow_order:
  assumes "0 < d" "d < 255"
  shows "gf_pow d \<noteq> 1"
proof
  assume "gf_pow d = 1"
  let ?g = "gcd d 255"
  have g: "gf_pow ?g = 1" by (rule pow_gcd [OF \<open>gf_pow d = 1\<close> pow_orders(1)])
  have "?g \<le> d" using assms(1) by (intro gcd_le1_nat) simp
  then have "?g dvd 255" "?g \<noteq> 255" using assms(2) by auto
  then have "?g dvd 85 \<or> ?g dvd 51 \<or> ?g dvd 15" by (rule divisors_255)
  then show False using pow_multiple [OF g] pow_orders(2-) by (metis dvd_def)
qed

lemma pow_inj: "inj_on gf_pow {..<255}"
proof -
  have "i = j" if "i \<le> j" "j < 255" "gf_pow i = gf_pow j" for i j
  proof -
    have "(gf_double ^^ i) (gf_pow (j - i)) = (gf_double ^^ i) 1" using that pow_add [of i "j - i"] by (simp add: gf_pow_def)
    then have "gf_pow (j - i) = 1" by (rule funpow_double_inj)
    then show ?thesis using pow_order [of "j - i"] that by (cases "i = j") auto
  qed
  then show ?thesis by (intro inj_onI) (metis lessThan_iff nat_le_linear)
qed

lemma pow_nonzero: "gf_pow i \<noteq> 0"
  by (induction i) (simp_all add: gf_pow_def double_zero)

lemma pow_surj: "b \<noteq> 0 \<Longrightarrow> \<exists>i < 255. gf_pow i = b"
proof -
  assume b: "b \<noteq> 0"
  have "card (UNIV :: u8 set) = 256" by (simp add: card_word)
  then have "card (UNIV - {0 :: u8}) = 255" by (simp only: card_Diff_singleton [OF UNIV_I])
  moreover have "card (gf_pow ` {..<255}) = 255" by (simp only: card_image [OF pow_inj] card_lessThan)
  moreover have "gf_pow ` {..<255} \<subseteq> UNIV - {0}" using pow_nonzero by auto
  ultimately have "gf_pow ` {..<255} = UNIV - {0}" by (intro card_subset_eq) simp_all
  then have "b \<in> gf_pow ` {..<255}" using b by simp
  then show ?thesis by (auto simp only: image_iff lessThan_iff Bex_def)
qed

section \<open>The tables\<close>

lemma tables_loop_step:
  "gf_tables_loop (i # is) (ucast (gf_pow i)) exp log =
     gf_tables_loop is (ucast (gf_pow (Suc i))) (exp[i := gf_pow i, i + 255 := gf_pow i]) (log[unat (gf_pow i) := word_of_nat i])"
proof -
  have "unat (gf_pow i) < 2 ^ 8" using unsigned_less [of "gf_pow i"] by simp
  also have "(2 :: nat) ^ 8 < 2 ^ 16" by simp
  finally have "unat (ucast (gf_pow i) :: u16) = unat (gf_pow i)" by (simp add: unsigned_ucast_eq take_bit_nat_eq_self_iff)
  moreover have "ucast (ucast (gf_pow i) :: u16) = gf_pow i" by (rule ucast_up_ucast_id) (simp add: is_up)
  moreover have "gf_double (gf_pow i) = gf_pow (Suc i)" by (simp add: gf_pow_def)
  ultimately show ?thesis using double_word [of "gf_pow i"] by (simp add: Let_def)
qed

lemma tables_loop:
  assumes "length exp = 512" "length log = 256" "i \<le> 255"
  defines "R \<equiv> gf_tables_loop [i..<255] (ucast (gf_pow i)) exp log"
  shows "length (fst R) = 512 \<and> length (snd R) = 256
    \<and> (\<forall>j < 512. fst R ! j = (if i \<le> j \<and> j < 255 then gf_pow j else if i + 255 \<le> j \<and> j < 510 then gf_pow (j - 255) else exp ! j))
    \<and> (\<forall>j. i \<le> j \<longrightarrow> j < 255 \<longrightarrow> snd R ! unat (gf_pow j) = word_of_nat j)
    \<and> (\<forall>n. n \<notin> (\<lambda>j. unat (gf_pow j)) ` {i..<255} \<longrightarrow> snd R ! n = log ! n)"
  unfolding R_def using assms(1-3)
proof (induction "255 - i" arbitrary: i exp log)
  case (Suc d)
  let ?e = "exp[i := gf_pow i, i + 255 := gf_pow i]" and ?l = "log[unat (gf_pow i) := word_of_nat i]"
  let ?R = "gf_tables_loop [Suc i..<255] (ucast (gf_pow (Suc i))) ?e ?l"
  have i: "i < 255" using Suc(2) by simp
  have b: "unat (gf_pow i) < 256" using unsigned_less [of "gf_pow i"] by simp
  have R: "gf_tables_loop [i..<255] (ucast (gf_pow i)) exp log = ?R"
    using i tables_loop_step by (simp add: upt_conv_Cons)
  have IH: "length (fst ?R) = 512" "length (snd ?R) = 256"
    "\<And>j. j < 512 \<Longrightarrow> fst ?R ! j = (if Suc i \<le> j \<and> j < 255 then gf_pow j else if Suc i + 255 \<le> j \<and> j < 510 then gf_pow (j - 255) else ?e ! j)"
    "\<And>j. Suc i \<le> j \<Longrightarrow> j < 255 \<Longrightarrow> snd ?R ! unat (gf_pow j) = word_of_nat j"
    "\<And>n. n \<notin> (\<lambda>j. unat (gf_pow j)) ` {Suc i..<255} \<Longrightarrow> snd ?R ! n = ?l ! n"
    using Suc(1) [of "Suc i" ?e ?l] Suc(2-) by auto
  have "fst ?R ! j = (if i \<le> j \<and> j < 255 then gf_pow j else if i + 255 \<le> j \<and> j < 510 then gf_pow (j - 255) else exp ! j)" if "j < 512" for j
    using IH(3) [OF that] i Suc(3) by (cases "j = i + 255") (auto simp: nth_list_update)
  moreover have "snd ?R ! unat (gf_pow j) = word_of_nat j" if "i \<le> j" "j < 255" for j
  proof (cases "i = j")
    case True
    have "unat (gf_pow i) \<notin> (\<lambda>j. unat (gf_pow j)) ` {Suc i..<255}"
      using i by (auto simp: word_unat_eq_iff [symmetric] dest!: inj_onD [OF pow_inj])
    then show ?thesis using IH(5) True b Suc(4) by simp
  qed (use IH(4) that in simp)
  moreover have "snd ?R ! n = log ! n" if "n \<notin> (\<lambda>j. unat (gf_pow j)) ` {i..<255}" for n
  proof -
    have "n \<noteq> unat (gf_pow i)" using that i by force
    moreover have "n \<notin> (\<lambda>j. unat (gf_pow j)) ` {Suc i..<255}" using that by force
    ultimately show ?thesis using IH(5) by simp
  qed
  ultimately show ?case unfolding R using IH(1,2) by blast
qed auto

lemma exp_table: "i < 512 \<Longrightarrow> fst init_gf_tables ! i = gf_pow i"
  and log_table: "j < 255 \<Longrightarrow> snd init_gf_tables ! unat (gf_pow j) = word_of_nat j"
proof -
  let ?R = "gf_tables_loop [0..<255] (ucast (gf_pow 0)) (replicate 512 0) (replicate 256 0)"
  obtain E L where EL: "?R = (E, L)" by fastforce
  have R: "length E = 512"
    "\<And>j. j < 512 \<Longrightarrow> E ! j = (if j < 255 then gf_pow j else if 255 \<le> j \<and> j < 510 then gf_pow (j - 255) else replicate 512 0 ! j)"
    "\<And>j. j < 255 \<Longrightarrow> L ! unat (gf_pow j) = word_of_nat j"
    using tables_loop [of "replicate 512 0" "replicate 256 0" 0] unfolding EL by auto
  have init: "init_gf_tables = (E[510 := E ! 0, 511 := E ! 1], L)"
    using EL by (simp add: init_gf_tables_def pow_0)
  show "snd init_gf_tables ! unat (gf_pow j) = word_of_nat j" if "j < 255" unfolding init using R(3) [OF that] by simp
  show "fst init_gf_tables ! i = gf_pow i" if lt: "i < 512"
  proof -
    consider "i < 255" | "255 \<le> i" "i < 510" | "i = 510" | "i = 511" using lt by linarith
    then show ?thesis
      using R(1,2) pow_period [of "i - 255"] pow_period [of 255] pow_period [of 0] pow_period [of 256] pow_period [of 1]
      by cases (auto simp: init nth_list_update)
  qed
qed

section \<open>A field\<close>

lemma mul_pow: "gf_mul (gf_pow i) (gf_pow j) = gf_pow (i + j)"
proof -
  let ?i = "i mod 255" and ?j = "j mod 255"
  have lt: "?i < 255" "?j < 255" by simp_all
  then have "unat (word_of_nat ?i :: u8) = ?i" "unat (word_of_nat ?j :: u8) = ?j"
    by (simp_all add: unat_of_nat)
  then have "gf_mul (gf_pow ?i) (gf_pow ?j) = gf_pow (?i + ?j)"
    using log_table [OF lt(1)] log_table [OF lt(2)] exp_table [of "?i + ?j"] lt pow_nonzero
    by (auto simp: gf_mul_def split_beta Let_def)
  moreover have "gf_pow (?i + ?j) = gf_pow (i + j)" by (metis pow_mod mod_add_eq)
  ultimately show ?thesis by (simp only: pow_mod)
qed

lemma mul_0 [simp]: "gf_mul 0 b = 0" "gf_mul a 0 = 0"
  by (simp_all add: gf_mul_def)

lemma byte_cases:
  obtains "b = 0" | i where "i < 255" "b = gf_pow i"
  using pow_surj by metis

lemma mul_as_double: "gf_mul (gf_pow i) b = (gf_double ^^ i) b"
proof (cases b rule: byte_cases)
  case 1
  have "(gf_double ^^ i) 0 = 0" by (induction i) (simp_all add: double_zero)
  then show ?thesis using 1 by simp
next
  case (2 j)
  then show ?thesis by (simp add: mul_pow pow_add)
qed

lemma mul_commute: "gf_mul a b = gf_mul b a"
  by (cases a rule: byte_cases; cases b rule: byte_cases) (simp_all add: mul_pow add.commute)

lemma mul_assoc: "gf_mul (gf_mul a b) c = gf_mul a (gf_mul b c)"
  by (cases a rule: byte_cases; cases b rule: byte_cases; cases c rule: byte_cases) (simp_all add: mul_pow add.assoc)

lemma mul_1: "gf_mul 1 b = b"
  using mul_as_double [of 0 b] by (simp add: pow_0)

lemma mul_xor: "gf_mul a (b XOR c) = gf_mul a b XOR gf_mul a c"
  by (cases a rule: byte_cases) (simp_all add: mul_as_double funpow_double_xor)

lemma div_pow:
  assumes "j < 255"
  shows "gf_div a (gf_pow j) = Ok (gf_mul a (gf_pow (255 - j)))"
proof (cases a rule: byte_cases)
  case 1
  then show ?thesis by (simp add: gf_div_def pow_nonzero)
next
  case (2 i)
  then have "unat (word_of_nat i :: u8) = i" "unat (word_of_nat j :: u8) = j" using assms by (simp_all add: unat_of_nat)
  moreover have "i + 255 - j = i + (255 - j)" using assms by simp
  ultimately show ?thesis
    using 2 assms exp_table [of "i + 255 - j"] pow_nonzero [of i] pow_nonzero [of j]
    by (simp add: gf_div_def split_beta Let_def log_table mul_pow)
qed

lemma inv_spec:
  assumes "b \<noteq> 0"
  obtains c where "gf_inv b = Ok c" "gf_mul c b = 1" "\<And>a. gf_div a b = Ok (gf_mul a c)"
proof -
  obtain j where j: "j < 255" "b = gf_pow j" using pow_surj [OF assms] by metis
  have "gf_mul (gf_pow (255 - j)) b = 1" using j pow_orders(1) by (simp add: mul_pow)
  moreover have "gf_inv b = Ok (gf_pow (255 - j))" using div_pow [OF j(1), of 1] j(2) mul_1 by (simp add: gf_inv_def)
  ultimately show thesis using that div_pow [OF j(1)] j(2) by metis
qed

typedef gf = "UNIV :: u8 set"
  morphisms byte_of GF by simp

lemma GF_eq [simp]: "GF a = GF b \<longleftrightarrow> a = b"
  by (simp add: GF_inject)

lemma byte_of_GF [simp]: "byte_of (GF a) = a"
  by (simp add: GF_inverse)

instantiation gf :: field
begin

definition zero_gf :: gf where
  "zero_gf = GF 0"

definition one_gf :: gf where
  "one_gf = GF 1"

definition plus_gf :: "gf \<Rightarrow> gf \<Rightarrow> gf" where
  "plus_gf x y = GF (gf_add (byte_of x) (byte_of y))"

definition minus_gf :: "gf \<Rightarrow> gf \<Rightarrow> gf" where
  "minus_gf x y = GF (gf_sub (byte_of x) (byte_of y))"

definition uminus_gf :: "gf \<Rightarrow> gf" where
  "uminus_gf x = x"

definition times_gf :: "gf \<Rightarrow> gf \<Rightarrow> gf" where
  "times_gf x y = GF (gf_mul (byte_of x) (byte_of y))"

definition inverse_gf :: "gf \<Rightarrow> gf" where
  "inverse_gf x = (case gf_inv (byte_of x) of Ok c \<Rightarrow> GF c | _ \<Rightarrow> GF 0)"

definition divide_gf :: "gf \<Rightarrow> gf \<Rightarrow> gf" where
  "divide_gf x y = x * inverse y"

lemmas gf_defs = zero_gf_def one_gf_def plus_gf_def minus_gf_def uminus_gf_def times_gf_def inverse_gf_def divide_gf_def

instance
proof
  fix x y z :: gf
  show "x + y + z = x + (y + z)" "x + y = y + x" by (simp_all add: gf_defs gf_add_def ac_simps)
  show "0 + x = x" "- x + x = 0" "x - y = x + - y" by (simp_all add: gf_defs gf_add_def gf_sub_def byte_of_inverse)
  show "x * y * z = x * (y * z)" by (simp add: gf_defs mul_assoc)
  show "x * y = y * x" by (simp add: gf_defs mul_commute)
  show "1 * x = x" by (simp add: gf_defs mul_1 byte_of_inverse)
  show "(x + y) * z = x * z + y * z"
    by (simp add: gf_defs gf_add_def mul_xor mul_commute [of _ "byte_of z"])
  show "0 \<noteq> (1 :: gf)" by (simp add: gf_defs)
  show "inverse (0 :: gf) = 0" by (simp add: gf_defs gf_inv_def gf_div_def)
  show "x div y = x * inverse y" by (rule divide_gf_def)
  assume "x \<noteq> 0"
  then have "byte_of x \<noteq> 0" by (metis byte_of_inverse zero_gf_def)
  then obtain c where "gf_inv (byte_of x) = Ok c" "gf_mul c (byte_of x) = 1" by (rule inv_spec)
  then show "inverse x * x = 1" by (simp add: gf_defs)
qed

end

lemma GF_simps [simp]:
  "GF 0 = 0" "GF 1 = 1" "GF (gf_add a b) = GF a + GF b" "GF (gf_sub a b) = GF a - GF b" "GF (a XOR b) = GF a + GF b"
  "GF (gf_mul a b) = GF a * GF b"
  by (simp_all add: gf_defs gf_add_def)

lemma GF_zero [simp]: "GF a = 0 \<longleftrightarrow> a = 0"
  using GF_eq [of a 0] by simp

lemma gf_inv_GF: "b \<noteq> 0 \<Longrightarrow> \<exists>c. gf_inv b = Ok c \<and> GF c = inverse (GF b)"
  by (rule inv_spec [of b]) (auto simp: inverse_gf_def)

end
