(* ===== verification/Fec_Algebra.thy ===== *)
theory Fec_Algebra
  imports Main
begin

text \<open>
  The linear algebra behind erasure coding, over any field: Gauss-Jordan elimination on a matrix
  augmented by the identity, one column at a time, and the kernel of a Cauchy matrix. A matrix is a
  function of row and column.
\<close>

section \<open>Elimination\<close>

definition swapped :: "nat \<Rightarrow> nat \<Rightarrow> (nat \<Rightarrow> 'a) \<Rightarrow> nat \<Rightarrow> 'a" where
  "swapped i j u = u(i := u j, j := u i)"

definition pivot_step :: "nat \<Rightarrow> nat \<Rightarrow> (nat \<Rightarrow> nat \<Rightarrow> 'a :: field) \<Rightarrow> nat \<Rightarrow> nat \<Rightarrow> 'a" where
  "pivot_step col p M =
     (let M1 = (\<lambda>r c. swapped col p (\<lambda>r. M r c) r);
          M2 = (\<lambda>r c. if r = col then M1 col c * inverse (M1 col col) else M1 r c)
      in (\<lambda>r c. if r = col then M2 col c else M2 r c - M2 r col * M2 col c))"

definition apply_mat :: "nat \<Rightarrow> (nat \<Rightarrow> nat \<Rightarrow> 'a :: field) \<Rightarrow> (nat \<Rightarrow> 'a) \<Rightarrow> nat \<Rightarrow> 'a" where
  "apply_mat n M v r = (\<Sum>c<n. M r c * v c)"

definition in_kernel :: "nat \<Rightarrow> (nat \<Rightarrow> nat \<Rightarrow> 'a :: field) \<Rightarrow> (nat \<Rightarrow> 'a) \<Rightarrow> bool" where
  "in_kernel n M v \<longleftrightarrow> (\<forall>r<n. apply_mat n M v r = 0)"

definition nonsingular :: "nat \<Rightarrow> (nat \<Rightarrow> nat \<Rightarrow> 'a :: field) \<Rightarrow> bool" where
  "nonsingular n M \<longleftrightarrow> (\<forall>v. in_kernel n M v \<longrightarrow> (\<forall>c<n. v c = 0))"

text \<open>A row of the augmented matrix records how it was combined from the rows of \<open>A\<close>.\<close>

definition tracks :: "nat \<Rightarrow> (nat \<Rightarrow> nat \<Rightarrow> 'a :: field) \<Rightarrow> (nat \<Rightarrow> 'a) \<Rightarrow> bool" where
  "tracks n A u \<longleftrightarrow> (\<forall>c<n. u c = (\<Sum>k<n. u (n + k) * A k c))"

definition eliminated :: "nat \<Rightarrow> (nat \<Rightarrow> nat \<Rightarrow> 'a :: field) \<Rightarrow> nat \<Rightarrow> (nat \<Rightarrow> nat \<Rightarrow> 'a) \<Rightarrow> bool" where
  "eliminated n A col M \<longleftrightarrow>
     (\<forall>r<n. tracks n A (M r)) \<and> (\<forall>r<n. \<forall>c<col. M r c = (if r = c then 1 else 0))
   \<and> (\<forall>v. in_kernel n M v \<longleftrightarrow> in_kernel n A v)"

definition augmented :: "nat \<Rightarrow> (nat \<Rightarrow> nat \<Rightarrow> 'a :: field) \<Rightarrow> nat \<Rightarrow> nat \<Rightarrow> 'a" where
  "augmented n A r c = (if c < n then A r c else if c = n + r then 1 else 0)"

lemma tracks_scale: "tracks n A u \<Longrightarrow> tracks n A (\<lambda>c. u c * a)"
proof -
  have "(\<Sum>k<n. u (n + k) * A k c) * a = (\<Sum>k<n. u (n + k) * a * A k c)" for c
    unfolding sum_distrib_right by (intro sum.cong) (simp_all add: ac_simps)
  then show "tracks n A u \<Longrightarrow> ?thesis" by (simp add: tracks_def)
qed

lemma tracks_diff: "tracks n A u \<Longrightarrow> tracks n A w \<Longrightarrow> tracks n A (\<lambda>c. u c - a * w c)"
proof -
  have "(\<Sum>k<n. u (n + k) * A k c) - a * (\<Sum>k<n. w (n + k) * A k c) = (\<Sum>k<n. (u (n + k) - a * w (n + k)) * A k c)" for c
    by (simp add: sum_distrib_left left_diff_distrib sum_subtractf mult.assoc)
  then show "tracks n A u \<Longrightarrow> tracks n A w \<Longrightarrow> ?thesis" by (simp add: tracks_def)
qed

lemma augmented_eliminated: "eliminated n A 0 (augmented n A)"
proof -
  have "tracks n A (augmented n A r)" if "r < n" for r
  proof -
    have "(\<Sum>k<n. augmented n A r (n + k) * A k c) = (\<Sum>k<n. if k = r then A r c else 0)" for c
      by (intro sum.cong) (auto simp: augmented_def)
    then show ?thesis using that by (simp add: tracks_def augmented_def)
  qed
  moreover have "in_kernel n (augmented n A) v \<longleftrightarrow> in_kernel n A v" for v
    by (simp add: in_kernel_def apply_mat_def augmented_def)
  ultimately show ?thesis by (simp add: eliminated_def)
qed

lemma eliminated_cong:
  assumes "eliminated n A col M" "\<And>r c. r < n \<Longrightarrow> c < 2 * n \<Longrightarrow> M' r c = M r c" "col \<le> n"
  shows "eliminated n A col M'"
proof -
  have "tracks n A (M' r)" if "r < n" for r
  proof -
    have "tracks n A (M r)" using assms(1) that by (simp add: eliminated_def)
    then show ?thesis using assms(2) that by (simp add: tracks_def)
  qed
  moreover have "in_kernel n M' v \<longleftrightarrow> in_kernel n M v" for v
    using assms(2) by (simp add: in_kernel_def apply_mat_def)
  ultimately show ?thesis using assms by (simp add: eliminated_def)
qed

lemma pivot_step_eliminated:
  assumes "eliminated n A col M" "col < n" "col \<le> p" "p < n" "M p col \<noteq> 0"
  shows "eliminated n A (Suc col) (pivot_step col p M)"
proof -
  define M1 where "M1 = (\<lambda>r c. swapped col p (\<lambda>r. M r c) r)"
  define M2 where "M2 = (\<lambda>r c. if r = col then M1 col c * inverse (M1 col col) else M1 r c)"
  define M3 where "M3 = (\<lambda>r c. if r = col then M2 col c else M2 r c - M2 r col * M2 col c)"
  have step: "pivot_step col p M = M3" by (simp only: pivot_step_def M1_def M2_def M3_def Let_def)
  have M1: "M1 r = M (if r = col then p else if r = p then col else r)" for r
    by (auto simp: M1_def swapped_def)
  have piv: "M1 col col \<noteq> 0" using assms(5) by (simp add: M1)
  have t1: "tracks n A (M1 r)" if "r < n" for r using assms that by (simp add: M1 eliminated_def)
  have t2: "tracks n A (M2 r)" if "r < n" for r
    using t1 [OF that] tracks_scale [OF t1 [OF assms(2)]] by (cases "r = col") (simp_all add: M2_def)
  have t3: "tracks n A (M3 r)" if "r < n" for r
    using t2 [OF that] t2 [OF assms(2)] tracks_diff [OF t2 [OF that] t2 [OF assms(2)]]
    by (cases "r = col") (simp_all add: M3_def)
  have u1: "M1 r c = (if r = c then 1 else 0)" if "r < n" "c < col" for r c
    using assms that by (auto simp: M1 eliminated_def)
  have u3: "M3 r c = (if r = c then 1 else 0)" if "r < n" "c < Suc col" for r c
    using that u1 [of _ c] assms(2) piv by (cases "c = col") (auto simp: M3_def M2_def)
  have k1: "in_kernel n M1 v \<longleftrightarrow> in_kernel n M v" for v
  proof -
    let ?f = "\<lambda>r. if r = col then p else if r = p then col else r"
    have a1: "apply_mat n M1 v r = apply_mat n M v (?f r)" for r by (simp add: apply_mat_def M1)
    have f: "?f (?f r) = r" "r < n \<Longrightarrow> ?f r < n" for r using assms(2,4) by simp_all
    show ?thesis
    proof
      assume k: "in_kernel n M1 v"
      have "apply_mat n M v r = 0" if "r < n" for r
        using k f(2) [OF that] a1 [of "?f r"] unfolding f(1) in_kernel_def by simp
      then show "in_kernel n M v" by (simp add: in_kernel_def)
    next
      assume k: "in_kernel n M v"
      then show "in_kernel n M1 v" using f(2) unfolding in_kernel_def a1 by blast
    qed
  qed
  have a2: "apply_mat n M2 v r = (if r = col then apply_mat n M1 v col * inverse (M1 col col) else apply_mat n M1 v r)" for v r
    by (cases "r = col") (simp_all add: apply_mat_def M2_def sum_distrib_right mult.assoc mult.commute [of "inverse (M1 col col)"])
  have k2: "in_kernel n M2 v \<longleftrightarrow> in_kernel n M1 v" for v
    using piv assms(2) by (auto simp: in_kernel_def a2)
  have a3: "apply_mat n M3 v r = (if r = col then apply_mat n M2 v col else apply_mat n M2 v r - M2 r col * apply_mat n M2 v col)" for v r
    by (simp add: apply_mat_def M3_def sum_distrib_left left_diff_distrib sum_subtractf mult.assoc)
  have k3: "in_kernel n M3 v \<longleftrightarrow> in_kernel n M2 v" for v
  proof
    assume "in_kernel n M3 v"
    then have z: "apply_mat n M3 v r = 0" if "r < n" for r using that by (simp add: in_kernel_def)
    have zc: "apply_mat n M2 v col = 0" using z [OF assms(2)] by (simp add: a3)
    have "apply_mat n M2 v r = 0" if "r < n" for r using z [OF that] zc by (cases "r = col") (simp_all add: a3)
    then show "in_kernel n M2 v" by (simp add: in_kernel_def)
  qed (use assms(2) in \<open>simp add: in_kernel_def a3\<close>)
  show ?thesis
    using t3 u3 k1 k2 k3 assms(1) by (simp add: step eliminated_def)
qed

text \<open>A column without pivot shows that the matrix is singular.\<close>

lemma no_pivot:
  assumes "eliminated n A col M" "col < n" "\<And>r. col \<le> r \<Longrightarrow> r < n \<Longrightarrow> M r col = 0"
  shows "\<not> nonsingular n A"
proof -
  define v where "v = (\<lambda>c. if c < col then - M c col else if c = col then 1 else 0)"
  have "apply_mat n M v r = 0" if "r < n" for r
  proof -
    have "apply_mat n M v r = (\<Sum>c<n. (if c = r \<and> r < col then - M r col else 0) + (if c = col then M r col else 0))"
      unfolding apply_mat_def using assms(1) that by (intro sum.cong) (auto simp: v_def eliminated_def)
    also have "\<dots> = (if r < col then - M r col else 0) + M r col"
    proof -
      have "(\<Sum>c<n. if c = r \<and> r < col then - M r col else 0) = (if r < col then - M r col else 0)"
        using that sum.delta [of "{..<n}" r "\<lambda>_. - M r col"] by auto
      moreover have "(\<Sum>c<n. if c = col then M r col else 0) = M r col"
        using assms(2) sum.delta [of "{..<n}" col "\<lambda>_. M r col"] by auto
      ultimately show ?thesis by (simp only: sum.distrib)
    qed
    also have "\<dots> = 0" using assms(3) [of r] that by simp
    finally show ?thesis .
  qed
  then have "in_kernel n A v" using assms(1) by (auto simp: eliminated_def in_kernel_def)
  moreover have "v col \<noteq> 0" by (simp add: v_def)
  ultimately show ?thesis using assms(2) by (auto simp: nonsingular_def)
qed

text \<open>After the last column the right half is a left inverse.\<close>

lemma eliminated_inverse:
  assumes "eliminated n A n M" "r < n" "c < n"
  shows "(\<Sum>k<n. M r (n + k) * A k c) = (if r = c then 1 else 0)"
  using assms by (metis eliminated_def tracks_def)

lemma eliminated_nonsingular:
  assumes "eliminated n A n M"
  shows "nonsingular n A"
proof -
  have "v r = 0" if "in_kernel n A v" "r < n" for v r
  proof -
    have "apply_mat n M v r = 0" using assms that by (auto simp: eliminated_def in_kernel_def)
    moreover have "apply_mat n M v r = (\<Sum>c<n. if c = r then v r else 0)"
      unfolding apply_mat_def using assms that(2) by (intro sum.cong) (auto simp: eliminated_def)
    ultimately show ?thesis using that(2) by simp
  qed
  then show ?thesis by (simp add: nonsingular_def)
qed

lemma left_inverse_recovers:
  fixes R x y :: "nat \<Rightarrow> 'a :: field"
  assumes "\<And>c. c < n \<Longrightarrow> (\<Sum>k<n. R k * A k c) = (if r = c then 1 else 0)" "r < n"
    and "\<And>k. k < n \<Longrightarrow> y k = (\<Sum>c<n. A k c * x c)"
  shows "(\<Sum>k<n. R k * y k) = x r"
proof -
  have "(\<Sum>k<n. R k * y k) = (\<Sum>k<n. \<Sum>c<n. R k * A k c * x c)"
    by (intro sum.cong) (simp_all add: assms(3) sum_distrib_left ac_simps)
  also have "\<dots> = (\<Sum>c<n. (\<Sum>k<n. R k * A k c) * x c)" by (subst sum.swap) (simp add: sum_distrib_right)
  also have "\<dots> = (\<Sum>c<n. if c = r then x r else 0)" using assms(1) by (intro sum.cong) auto
  also have "\<dots> = x r" using assms(2) sum.delta [of "{..<n}" r "\<lambda>_. x r"] by simp
  finally show ?thesis .
qed

section \<open>Cauchy matrices\<close>

lemma cauchy_reduce:
  fixes v x y :: "nat \<Rightarrow> 'a :: field"
  assumes "finite J" "j0 \<in> J" "\<And>j. j \<in> J \<Longrightarrow> x1 \<noteq> y j" "\<And>j. j \<in> J \<Longrightarrow> x0 \<noteq> y j" "x1 \<noteq> x0"
    and "(\<Sum>j\<in>J. v j / (x1 - y j)) = 0" "(\<Sum>j\<in>J. v j / (x0 - y j)) = 0"
  shows "(\<Sum>j\<in>J - {j0}. v j * (y j - y j0) / (x0 - y j) / (x1 - y j)) = 0"
proof -
  have eq: "(\<Sum>j\<in>J. v j) + (\<Sum>j\<in>J - {j0}. v j * (y j - y j0) / (z - y j)) = 0"
    if "\<And>j. j \<in> J \<Longrightarrow> z \<noteq> y j" "(\<Sum>j\<in>J. v j / (z - y j)) = 0" for z
  proof -
    have "v j / (z - y j) * (z - y j0) = v j + v j * (y j - y j0) / (z - y j)" if "j \<in> J" for j
      using \<open>\<And>j. j \<in> J \<Longrightarrow> z \<noteq> y j\<close> [OF that] by (simp add: field_simps)
    then have "(\<Sum>j\<in>J. v j / (z - y j)) * (z - y j0) = (\<Sum>j\<in>J. v j) + (\<Sum>j\<in>J. v j * (y j - y j0) / (z - y j))"
      by (simp add: sum_distrib_right sum.distrib)
    moreover have "(\<Sum>j\<in>J. v j * (y j - y j0) / (z - y j)) = (\<Sum>j\<in>J - {j0}. v j * (y j - y j0) / (z - y j))"
      using assms(1,2) by (simp add: sum.remove)
    ultimately show ?thesis using that(2) by simp
  qed
  have diff: "v j * (y j - y j0) / (x1 - y j) - v j * (y j - y j0) / (x0 - y j)
      = (x0 - x1) * (v j * (y j - y j0) / (x0 - y j) / (x1 - y j))" if "j \<in> J" for j
    using assms(3,4) [OF that] by (simp add: field_simps)
  have "(\<Sum>j\<in>J - {j0}. v j * (y j - y j0) / (x1 - y j)) = (\<Sum>j\<in>J - {j0}. v j * (y j - y j0) / (x0 - y j))"
    using eq [OF assms(3,6)] eq [OF assms(4,7)] by (metis add_left_cancel)
  moreover have "(x0 - x1) * (\<Sum>j\<in>J - {j0}. v j * (y j - y j0) / (x0 - y j) / (x1 - y j))
      = (\<Sum>j\<in>J - {j0}. v j * (y j - y j0) / (x1 - y j) - v j * (y j - y j0) / (x0 - y j))"
    unfolding sum_distrib_left by (intro sum.cong) (auto simp only: diff Diff_iff)
  ultimately have "(x0 - x1) * (\<Sum>j\<in>J - {j0}. v j * (y j - y j0) / (x0 - y j) / (x1 - y j)) = 0"
    by (simp only: sum_subtractf diff_self)
  then show ?thesis using assms(5) by simp
qed

lemma cauchy_kernel:
  fixes v y :: "nat \<Rightarrow> 'a :: field"
  assumes "finite J" "finite X" "card J \<le> card X" "inj_on y J" "\<And>x j. x \<in> X \<Longrightarrow> j \<in> J \<Longrightarrow> x \<noteq> y j"
    and "\<And>x. x \<in> X \<Longrightarrow> (\<Sum>j\<in>J. v j / (x - y j)) = 0"
  shows "\<forall>j \<in> J. v j = 0"
  using assms
proof (induction "card J" arbitrary: J X v)
  case (Suc n)
  then have "J \<noteq> {}" "X \<noteq> {}" by auto
  then obtain j0 x0 where j0: "j0 \<in> J" and x0: "x0 \<in> X" by blast
  let ?w = "\<lambda>j. v j * (y j - y j0) / (x0 - y j)"
  have "\<forall>j \<in> J - {j0}. ?w j = 0"
  proof (rule Suc(1) [of "J - {j0}" "X - {x0}"])
    show "n = card (J - {j0})" "finite (J - {j0})" "finite (X - {x0})" "card (J - {j0}) \<le> card (X - {x0})"
      using Suc(2-5) j0 x0 by auto
    show "inj_on y (J - {j0})" using Suc(6) by (rule inj_on_subset) auto
    show "\<And>x j. x \<in> X - {x0} \<Longrightarrow> j \<in> J - {j0} \<Longrightarrow> x \<noteq> y j" using Suc(7) by auto
    show "\<And>x. x \<in> X - {x0} \<Longrightarrow> (\<Sum>j\<in>J - {j0}. ?w j / (x - y j)) = 0"
      using Suc(3,7,8) j0 x0 by (intro cauchy_reduce) auto
  qed
  moreover have "y j \<noteq> y j0" "x0 \<noteq> y j" if "j \<in> J - {j0}" for j
    using Suc(6,7) that j0 x0 by (auto dest: inj_onD)
  ultimately have rest: "v j = 0" if "j \<in> J - {j0}" for j using that by fastforce
  have "(\<Sum>j\<in>J. v j / (x0 - y j)) = v j0 / (x0 - y j0)" using rest j0 Suc(3) by (simp add: sum.remove [of J j0])
  then have "v j0 = 0" using Suc(8) [OF x0] Suc(7) [OF x0 j0] by simp
  then show ?case using rest by auto
qed simp

end
