(* ===== verification/Fec_Matrix.thy ===== *)
theory Fec_Matrix
  imports Galois_Field Fec_Algebra
begin

text \<open>
  \<open>GfMatrix\<close> of \<open>transport/fec.rs\<close>: a matrix of bytes in one flat vector, the Cauchy matrix, and
  inversion by Gauss-Jordan elimination, whose loops are shown to compute the column steps of
  Fec_Algebra. An access outside the vector panics.
\<close>

unbundle bit_operations_syntax

section \<open>Definitions\<close>

record gf_matrix =
  gm_rows :: nat
  gm_cols :: nat
  gm_data :: bytes

definition gm_zeros :: "nat \<Rightarrow> nat \<Rightarrow> gf_matrix" where
  "gm_zeros rows cols = \<lparr>gm_rows = rows, gm_cols = cols, gm_data = replicate (rows * cols) 0\<rparr>"

definition gm_get :: "gf_matrix \<Rightarrow> nat \<Rightarrow> nat \<Rightarrow> (unit, u8) res" where
  "gm_get m r c = index (gm_data m) (r * gm_cols m + c)"

definition gm_set :: "nat \<Rightarrow> nat \<Rightarrow> u8 \<Rightarrow> gf_matrix \<Rightarrow> (unit, gf_matrix) res" where
  "gm_set r c val m = and_then (set_index (gm_data m) (r * gm_cols m + c) val) (\<lambda>d. Ok (m\<lparr>gm_data := d\<rparr>))"

definition cauchy :: "nat \<Rightarrow> nat \<Rightarrow> (unit, gf_matrix) res" where
  "cauchy rows cols =
     for_loop (\<lambda>i.
       let x = word_of_nat i :: u8 in
       for_loop (\<lambda>j m.
         let y = word_of_nat (rows + j); denom = x XOR y in
         if denom = 0 then Panic else and_then (gf_inv denom) (\<lambda>v. gm_set i j v m)) [0..<cols])
     [0..<rows] (gm_zeros rows cols)"

text \<open>The parts of \<open>invert\<close>, in its order.\<close>

definition augment :: "nat \<Rightarrow> gf_matrix \<Rightarrow> (unit, gf_matrix) res" where
  "augment n m =
     for_loop (\<lambda>r aug.
       and_then (for_loop (\<lambda>c aug. and_then (gm_get m r c) (\<lambda>v. gm_set r c v aug)) [0..<n] aug) (gm_set r (n + r) 1))
     [0..<n] (gm_zeros n (2 * n))"

function find_pivot :: "nat \<Rightarrow> nat \<Rightarrow> gf_matrix \<Rightarrow> nat \<Rightarrow> (unit, nat) res" where
  "find_pivot n col aug pivot_row =
     (if pivot_row < n then
        and_then (gm_get aug pivot_row col) (\<lambda>v. if v = 0 then find_pivot n col aug (pivot_row + 1) else Ok pivot_row)
      else Ok pivot_row)"
  by pat_completeness auto
termination
  by (relation "measure (\<lambda>(n, col, aug, pivot_row). n - pivot_row)") auto

declare find_pivot.simps [simp del]

definition swap_rows :: "nat \<Rightarrow> nat \<Rightarrow> nat \<Rightarrow> gf_matrix \<Rightarrow> (unit, gf_matrix) res" where
  "swap_rows n col pivot_row =
     for_loop (\<lambda>c aug.
       and_then (gm_get aug col c) (\<lambda>tmp.
       and_then (gm_get aug pivot_row c) (\<lambda>v.
       and_then (gm_set col c v aug) (gm_set pivot_row c tmp)))) [0..<2 * n]"

definition normalize_row :: "nat \<Rightarrow> nat \<Rightarrow> u8 \<Rightarrow> gf_matrix \<Rightarrow> (unit, gf_matrix) res" where
  "normalize_row n col inv_pivot =
     for_loop (\<lambda>c aug. and_then (gm_get aug col c) (\<lambda>v. gm_set col c (gf_mul v inv_pivot) aug)) [0..<2 * n]"

definition eliminate_row :: "nat \<Rightarrow> nat \<Rightarrow> nat \<Rightarrow> gf_matrix \<Rightarrow> (unit, gf_matrix) res" where
  "eliminate_row n col r aug =
     (if r \<noteq> col then
        and_then (gm_get aug r col) (\<lambda>factor.
        if factor \<noteq> 0 then
          for_loop (\<lambda>c aug.
            and_then (gm_get aug col c) (\<lambda>v.
            let sub = gf_mul factor v in
            and_then (gm_get aug r c) (\<lambda>w. gm_set r c (gf_sub w sub) aug))) [0..<2 * n] aug
        else Ok aug)
      else Ok aug)"

fun invert_loop :: "nat \<Rightarrow> nat list \<Rightarrow> gf_matrix \<Rightarrow> (unit, gf_matrix option) res" where
  "invert_loop n [] aug = Ok (Some aug)"
| "invert_loop n (col # cols) aug =
     and_then (find_pivot n col aug col) (\<lambda>pivot_row.
     if pivot_row = n then Ok None
     else
       and_then (if pivot_row \<noteq> col then swap_rows n col pivot_row aug else Ok aug) (\<lambda>aug.
       and_then (gm_get aug col col) (\<lambda>pivot_val.
       and_then (gf_inv pivot_val) (\<lambda>inv_pivot.
       and_then (normalize_row n col inv_pivot aug) (\<lambda>aug.
       and_then (for_loop (eliminate_row n col) [0..<n] aug) (invert_loop n cols))))))"

definition invert :: "gf_matrix \<Rightarrow> (unit, gf_matrix option) res" where
  "invert m =
     (if gm_rows m \<noteq> gm_cols m then Panic
      else
        let n = gm_rows m in
        and_then (augment n m) (\<lambda>aug.
        and_then (invert_loop n [0..<n] aug) (\<lambda>done.
        case done of
          None \<Rightarrow> Ok None
        | Some aug \<Rightarrow>
            and_then (for_loop (\<lambda>r. for_loop (\<lambda>c inv. and_then (gm_get aug r (n + c)) (\<lambda>v. gm_set r c v inv)) [0..<n])
                        [0..<n] (gm_zeros n n))
              (\<lambda>inv. Ok (Some inv)))))"

section \<open>Entries\<close>

definition gm_ok :: "nat \<Rightarrow> nat \<Rightarrow> gf_matrix \<Rightarrow> bool" where
  "gm_ok R C m \<longleftrightarrow> gm_rows m = R \<and> gm_cols m = C \<and> length (gm_data m) = R * C"

definition mat :: "gf_matrix \<Rightarrow> nat \<Rightarrow> nat \<Rightarrow> gf" where
  "mat m r c = (if r < gm_rows m \<and> c < gm_cols m then GF (gm_data m ! (r * gm_cols m + c)) else 0)"

lemma flat_bound:
  assumes "r < R" "c < C"
  shows "r * C + c < R * (C :: nat)"
proof -
  have "r * C + c < Suc r * C" using assms(2) by simp
  also have "\<dots> \<le> R * C" using assms(1) by (intro mult_right_mono) auto
  finally show ?thesis .
qed

lemma flat_inj:
  assumes "c < C" "c' < C" "r * C + c = r' * C + (c' :: nat)"
  shows "r = r' \<and> c = c'"
proof -
  have "(r * C + c) div C = r" "(r' * C + c') div C = r'" "(r * C + c) mod C = c" "(r' * C + c') mod C = c'"
    using assms(1,2) by simp_all
  then show ?thesis using assms(3) by metis
qed

lemma gm_get_ok:
  assumes "gm_ok R C m" "r < R" "c < C"
  shows "\<exists>v. gm_get m r c = Ok v \<and> GF v = mat m r c"
  using assms flat_bound [OF assms(2,3)] by (simp add: gm_get_def gm_ok_def mat_def)

lemma gm_set_ok:
  assumes "gm_ok R C m" "r < R" "c < C"
  shows "\<exists>m'. gm_set r c v m = Ok m' \<and> gm_ok R C m' \<and> mat m' = (\<lambda>r' c'. if r' = r \<and> c' = c then GF v else mat m r' c')"
proof -
  let ?m = "m\<lparr>gm_data := (gm_data m)[r * C + c := v]\<rparr>"
  have b: "r * C + c < length (gm_data m)" using assms flat_bound [OF assms(2,3)] by (simp add: gm_ok_def)
  have "mat ?m r' c' = (if r' = r \<and> c' = c then GF v else mat m r' c')" for r' c'
  proof (cases "r' < R \<and> c' < C \<and> \<not> (r' = r \<and> c' = c)")
    case True
    then have "r' * C + c' \<noteq> r * C + c" using flat_inj [of c' C c r' r] assms(3) by blast
    then show ?thesis using assms(1) True by (auto simp: mat_def gm_ok_def)
  next
    case False
    then show ?thesis using assms b by (cases "r' = r \<and> c' = c") (auto simp: mat_def gm_ok_def)
  qed
  then show ?thesis using assms b by (auto simp: gm_set_def gm_ok_def)
qed

lemma zeros_ok: "gm_ok R C (gm_zeros R C)" "mat (gm_zeros R C) = (\<lambda>r c. 0)"
  using flat_bound by (fastforce simp: gm_ok_def gm_zeros_def mat_def)+

lemma mat_outside: "gm_ok R C m \<Longrightarrow> C \<le> c \<Longrightarrow> mat m r c = 0"
  by (simp add: mat_def gm_ok_def)

lemma mat_below: "gm_ok R C m \<Longrightarrow> R \<le> r \<Longrightarrow> mat m r c = 0"
  by (simp add: mat_def gm_ok_def)

text \<open>Loops that change one column in each round, and loops that fill a row.\<close>

lemma column_loop:
  assumes "gm_ok R C m" "h (\<lambda>r. 0) = (\<lambda>r. 0)"
    and "\<And>c m. c < C \<Longrightarrow> gm_ok R C m \<Longrightarrow>
      \<exists>m'. f c m = Ok m' \<and> gm_ok R C m' \<and> mat m' = (\<lambda>r c'. if c' = c then h (\<lambda>r. mat m r c) r else mat m r c')"
  shows "\<exists>m'. for_loop f [0..<C] m = Ok m' \<and> gm_ok R C m' \<and> mat m' = (\<lambda>r c. h (\<lambda>r. mat m r c) r)"
proof -
  let ?I = "\<lambda>i s. gm_ok R C s \<and> mat s = (\<lambda>r c. if c < i then h (\<lambda>r. mat m r c) r else mat m r c)"
  have "\<exists>m'. for_loop f [0..<C] m = Ok m' \<and> ?I C m'"
  proof (rule for_loop_range [where I = ?I])
    fix i s assume i: "i < C" and s: "?I i s"
    then obtain s' where s': "f i s = Ok s'" "gm_ok R C s'" "mat s' = (\<lambda>r c'. if c' = i then h (\<lambda>r. mat s r i) r else mat s r c')"
      using assms(3) by blast
    have "(\<lambda>r. mat s r i) = (\<lambda>r. mat m r i)" using s by simp
    then have "mat s' = (\<lambda>r c. if c < Suc i then h (\<lambda>r. mat m r c) r else mat m r c)"
      using s s'(3) by (simp add: fun_eq_iff less_Suc_eq)
    then show "\<exists>s'. f i s = Ok s' \<and> ?I (Suc i) s'" using s' by blast
  qed (use assms(1) in simp)
  then obtain m' where m': "for_loop f [0..<C] m = Ok m'" "gm_ok R C m'"
    "mat m' = (\<lambda>r c. if c < C then h (\<lambda>r. mat m r c) r else mat m r c)" by blast
  have "h (\<lambda>r. mat m r c) r = mat m r c" if "\<not> c < C" for r c
    using that mat_outside [OF assms(1)] assms(2) by (simp add: not_less)
  then show ?thesis using m' by (auto simp: fun_eq_iff)
qed

lemma fill_row:
  assumes "gm_ok R C m" "r < R" "w \<le> C"
    and "\<And>c. c < w \<Longrightarrow> \<exists>v. g c = Ok v \<and> GF v = x c"
  shows "\<exists>m'. for_loop (\<lambda>c m. and_then (g c) (\<lambda>v. gm_set r c v m)) [0..<w] m = Ok m' \<and> gm_ok R C m'
    \<and> mat m' = (\<lambda>r' c. if r' = r \<and> c < w then x c else mat m r' c)"
proof -
  let ?I = "\<lambda>i s. gm_ok R C s \<and> mat s = (\<lambda>r' c. if r' = r \<and> c < i then x c else mat m r' c)"
  have "\<exists>m'. for_loop (\<lambda>c m. and_then (g c) (\<lambda>v. gm_set r c v m)) [0..<w] m = Ok m' \<and> ?I w m'"
  proof (rule for_loop_range [where I = ?I])
    fix i s assume i: "i < w" and s: "?I i s"
    obtain v where v: "g i = Ok v" "GF v = x i" using assms(4) [OF i] by blast
    obtain s' where s': "gm_set r i v s = Ok s'" "gm_ok R C s'" "mat s' = (\<lambda>r' c'. if r' = r \<and> c' = i then GF v else mat s r' c')"
      using gm_set_ok [of R C s r i v] s assms(2,3) i by auto
    have "mat s' = (\<lambda>r' c. if r' = r \<and> c < Suc i then x c else mat m r' c)"
      using s s'(3) v(2) by (simp add: fun_eq_iff less_Suc_eq)
    then show "\<exists>s'. and_then (g i) (\<lambda>v. gm_set r i v s) = Ok s' \<and> ?I (Suc i) s'" using v(1) s'(1,2) by (intro exI [of _ s']) simp
  qed (use assms(1) in simp)
  then show ?thesis by blast
qed

lemma fill_rows:
  assumes "gm_ok R C m" "n \<le> R" "w \<le> C" and "\<And>r c. r < n \<Longrightarrow> c < w \<Longrightarrow> \<exists>v. g r c = Ok v \<and> GF v = x r c"
  shows "\<exists>m'. for_loop (\<lambda>r. for_loop (\<lambda>c m. and_then (g r c) (\<lambda>v. gm_set r c v m)) [0..<w]) [0..<n] m = Ok m' \<and> gm_ok R C m'
    \<and> mat m' = (\<lambda>r c. if r < n \<and> c < w then x r c else mat m r c)"
proof -
  let ?I = "\<lambda>i s. gm_ok R C s \<and> mat s = (\<lambda>r c. if r < i \<and> c < w then x r c else mat m r c)"
  have "\<exists>m'. for_loop (\<lambda>r. for_loop (\<lambda>c m. and_then (g r c) (\<lambda>v. gm_set r c v m)) [0..<w]) [0..<n] m = Ok m' \<and> ?I n m'"
  proof (rule for_loop_range [where I = ?I])
    fix i s assume i: "i < n" and s: "?I i s"
    obtain s' where s': "for_loop (\<lambda>c m. and_then (g i c) (\<lambda>v. gm_set i c v m)) [0..<w] s = Ok s'" "gm_ok R C s'"
      "mat s' = (\<lambda>r c. if r = i \<and> c < w then x i c else mat s r c)"
      using fill_row [of R C s i w "g i" "x i"] s assms(2-4) i by auto
    have "mat s' = (\<lambda>r c. if r < Suc i \<and> c < w then x r c else mat m r c)"
      using s s'(3) by (auto simp: fun_eq_iff less_Suc_eq)
    then show "\<exists>s'. for_loop (\<lambda>c m. and_then (g i c) (\<lambda>v. gm_set i c v m)) [0..<w] s = Ok s' \<and> ?I (Suc i) s'"
      using s'(1,2) by blast
  qed (use assms(1) in simp)
  then show ?thesis by blast
qed

section \<open>The Cauchy matrix\<close>

definition field_point :: "nat \<Rightarrow> gf" where
  "field_point i = GF (word_of_nat i)"

lemma field_point_inj: "i < 256 \<Longrightarrow> j < 256 \<Longrightarrow> field_point i = field_point j \<longleftrightarrow> i = j"
  by (simp add: field_point_def word_of_nat_eq_iff take_bit_nat_eq_self)

lemma cauchy_ok:
  assumes "rows + cols \<le> 256"
  shows "\<exists>m. cauchy rows cols = Ok m \<and> gm_ok rows cols m
    \<and> (\<forall>i<rows. \<forall>j<cols. mat m i j = inverse (field_point i - field_point (rows + j)))"
proof -
  define d :: "nat \<Rightarrow> nat \<Rightarrow> u8" where "d = (\<lambda>i j. word_of_nat i XOR word_of_nat (rows + j))"
  define g where "g = (\<lambda>i j. if d i j = 0 then Panic else gf_inv (d i j))"
  have g: "\<exists>v. g i j = Ok v \<and> GF v = inverse (field_point i - field_point (rows + j))" if "i < rows" "j < cols" for i j
  proof -
    have "field_point i \<noteq> field_point (rows + j)" using that assms by (subst field_point_inj) auto
    moreover have d: "GF (d i j) = field_point i - field_point (rows + j)"
      unfolding d_def field_point_def using GF_simps(4) by (simp only: gf_sub_def)
    ultimately have "d i j \<noteq> 0" using GF_zero [of "d i j"] by auto
    then show ?thesis using gf_inv_GF [of "d i j"] d by (simp add: g_def)
  qed
  have body: "(let y = word_of_nat (rows + j); denom = word_of_nat i XOR y
       in if denom = 0 then Panic else and_then (gf_inv denom) (\<lambda>v. gm_set i j v m)) = and_then (g i j) (\<lambda>v. gm_set i j v m)" for i j m
    by (simp add: g_def d_def Let_def)
  have "cauchy rows cols = for_loop (\<lambda>r. for_loop (\<lambda>c m. and_then (g r c) (\<lambda>v. gm_set r c v m)) [0..<cols]) [0..<rows] (gm_zeros rows cols)"
    unfolding cauchy_def by (intro arg_cong [where f = "\<lambda>f. for_loop f _ _"] ext) (simp only: Let_def body [unfolded Let_def])
  moreover obtain m where "for_loop (\<lambda>r. for_loop (\<lambda>c m. and_then (g r c) (\<lambda>v. gm_set r c v m)) [0..<cols]) [0..<rows] (gm_zeros rows cols) = Ok m"
    "gm_ok rows cols m" "mat m = (\<lambda>r c. if r < rows \<and> c < cols then inverse (field_point r - field_point (rows + c)) else mat (gm_zeros rows cols) r c)"
    using fill_rows [OF zeros_ok(1) order_refl order_refl, of rows cols g "\<lambda>i j. inverse (field_point i - field_point (rows + j))"] g by auto
  ultimately show ?thesis by simp
qed

section \<open>Inversion\<close>

lemma augment_ok:
  assumes "gm_ok n n m"
  shows "\<exists>aug. augment n m = Ok aug \<and> gm_ok n (2 * n) aug \<and> (\<forall>r<n. \<forall>c<2 * n. mat aug r c = augmented n (mat m) r c)"
proof -
  let ?f = "\<lambda>r aug. and_then (for_loop (\<lambda>c aug. and_then (gm_get m r c) (\<lambda>v. gm_set r c v aug)) [0..<n] aug) (gm_set r (n + r) 1)"
  let ?I = "\<lambda>i s. gm_ok n (2 * n) s \<and> mat s = (\<lambda>r c. if r < i \<and> c < 2 * n then augmented n (mat m) r c else 0)"
  have "\<exists>aug. for_loop ?f [0..<n] (gm_zeros n (2 * n)) = Ok aug \<and> ?I n aug"
  proof (rule for_loop_range [where I = ?I])
    fix i s assume i: "i < n" and s: "?I i s"
    obtain s1 where s1: "for_loop (\<lambda>c aug. and_then (gm_get m i c) (\<lambda>v. gm_set i c v aug)) [0..<n] s = Ok s1" "gm_ok n (2 * n) s1"
      "mat s1 = (\<lambda>r c. if r = i \<and> c < n then mat m i c else mat s r c)"
      using fill_row [of n "2 * n" s i n "gm_get m i" "mat m i"] s i gm_get_ok [OF assms] by auto
    obtain s2 where s2: "gm_set i (n + i) 1 s1 = Ok s2" "gm_ok n (2 * n) s2"
      "mat s2 = (\<lambda>r c. if r = i \<and> c = n + i then GF 1 else mat s1 r c)"
      using gm_set_ok [OF s1(2) i, of "n + i" 1] i by auto
    have "mat s2 = (\<lambda>r c. if r < Suc i \<and> c < 2 * n then augmented n (mat m) r c else 0)"
      using s s1(3) s2(3) i by (auto simp: fun_eq_iff less_Suc_eq augmented_def)
    then show "\<exists>s'. ?f i s = Ok s' \<and> ?I (Suc i) s'" using s1(1) s2(1,2) by (intro exI [of _ s2]) simp
  qed (use zeros_ok in simp)
  then show ?thesis by (auto simp: augment_def)
qed

lemma find_pivot_ok:
  assumes "gm_ok n (2 * n) aug" "col < n" "p \<le> n"
  shows "\<exists>q. find_pivot n col aug p = Ok q \<and> p \<le> q \<and> q \<le> n \<and> (\<forall>r. p \<le> r \<longrightarrow> r < q \<longrightarrow> mat aug r col = 0)
    \<and> (q < n \<longrightarrow> mat aug q col \<noteq> 0)"
  using assms(3)
proof (induction "n - p" arbitrary: p)
  case 0
  then show ?case by (simp add: find_pivot.simps)
next
  case (Suc d)
  then have p: "p < n" by simp
  obtain v where v: "gm_get aug p col = Ok v" "GF v = mat aug p col" using gm_get_ok [OF assms(1) p, of col] assms(2) by auto
  show ?case
  proof (cases "v = 0")
    case True
    have "d = n - (p + 1)" "p + 1 \<le> n" using Suc(2) p by simp_all
    then obtain q where q: "find_pivot n col aug (p + 1) = Ok q" "p + 1 \<le> q" "q \<le> n" "\<forall>r. p + 1 \<le> r \<longrightarrow> r < q \<longrightarrow> mat aug r col = 0"
      "q < n \<longrightarrow> mat aug q col \<noteq> 0" using Suc(1) [of "p + 1"] by blast
    have "mat aug r col = 0" if "p \<le> r" "r < q" for r
      using q(4) that v(2) True by (cases "r = p") auto
    then show ?thesis using q v(1) True p by (auto simp: find_pivot.simps [of n col aug p])
  next
    case False
    then show ?thesis using v p GF_zero [of v] by (simp add: find_pivot.simps [of n col aug p])
  qed
qed

lemma swap_rows_ok:
  assumes "gm_ok n (2 * n) aug" "col < n" "p < n"
  shows "\<exists>aug'. swap_rows n col p aug = Ok aug' \<and> gm_ok n (2 * n) aug' \<and> mat aug' = (\<lambda>r c. swapped col p (\<lambda>r. mat aug r c) r)"
  unfolding swap_rows_def
proof (rule column_loop [OF assms(1)])
  fix c m assume c: "c < 2 * n" and m: "gm_ok n (2 * n) m"
  obtain t v where g: "gm_get m col c = Ok t" "GF t = mat m col c" "gm_get m p c = Ok v" "GF v = mat m p c"
    using gm_get_ok [OF m assms(2) c] gm_get_ok [OF m assms(3) c] by auto
  obtain m1 where m1: "gm_set col c v m = Ok m1" "gm_ok n (2 * n) m1" "mat m1 = (\<lambda>r c'. if r = col \<and> c' = c then GF v else mat m r c')"
    using gm_set_ok [OF m assms(2) c] by blast
  obtain m2 where m2: "gm_set p c t m1 = Ok m2" "gm_ok n (2 * n) m2" "mat m2 = (\<lambda>r c'. if r = p \<and> c' = c then GF t else mat m1 r c')"
    using gm_set_ok [OF m1(2) assms(3) c] by blast
  have "mat m2 = (\<lambda>r c'. if c' = c then swapped col p (\<lambda>r. mat m r c) r else mat m r c')"
    using m1(3) m2(3) g by (auto simp: fun_eq_iff swapped_def)
  then show "\<exists>m'. and_then (gm_get m col c) (\<lambda>tmp. and_then (gm_get m p c) (\<lambda>v. and_then (gm_set col c v m) (gm_set p c tmp))) = Ok m'
      \<and> gm_ok n (2 * n) m' \<and> mat m' = (\<lambda>r c'. if c' = c then swapped col p (\<lambda>r. mat m r c) r else mat m r c')"
    using g m1(1) m2(1,2) by (intro exI [of _ m2]) simp
qed (auto simp: swapped_def)

lemma normalize_row_ok:
  assumes "gm_ok n (2 * n) aug" "col < n"
  shows "\<exists>aug'. normalize_row n col b aug = Ok aug' \<and> gm_ok n (2 * n) aug'
    \<and> mat aug' = (\<lambda>r c. if r = col then mat aug col c * GF b else mat aug r c)"
  unfolding normalize_row_def
proof (rule column_loop [OF assms(1), where h = "\<lambda>u r. if r = col then u col * GF b else u r"])
  fix c m assume c: "c < 2 * n" and m: "gm_ok n (2 * n) m"
  obtain v where v: "gm_get m col c = Ok v" "GF v = mat m col c" using gm_get_ok [OF m assms(2) c] by auto
  obtain m1 where m1: "gm_set col c (gf_mul v b) m = Ok m1" "gm_ok n (2 * n) m1"
    "mat m1 = (\<lambda>r c'. if r = col \<and> c' = c then GF (gf_mul v b) else mat m r c')"
    using gm_set_ok [OF m assms(2) c] by blast
  have "mat m1 = (\<lambda>r c'. if c' = c then (if r = col then mat m col c * GF b else mat m r c) else mat m r c')"
    using m1(3) v(2) by (auto simp: fun_eq_iff)
  then show "\<exists>m'. and_then (gm_get m col c) (\<lambda>v. gm_set col c (gf_mul v b) m) = Ok m' \<and> gm_ok n (2 * n) m'
      \<and> mat m' = (\<lambda>r c'. if c' = c then (if r = col then mat m col c * GF b else mat m r c) else mat m r c')"
    using v(1) m1(1,2) by (intro exI [of _ m1]) simp
qed auto

lemma eliminate_row_ok:
  assumes "gm_ok n (2 * n) aug" "col < n" "r < n" "r \<noteq> col"
  shows "\<exists>aug'. eliminate_row n col r aug = Ok aug' \<and> gm_ok n (2 * n) aug'
    \<and> mat aug' = (\<lambda>r' c. if r' = r then mat aug r c - mat aug r col * mat aug col c else mat aug r' c)"
proof -
  obtain f where f: "gm_get aug r col = Ok f" "GF f = mat aug r col" using gm_get_ok [OF assms(1,3), of col] assms(2) by auto
  have "\<exists>aug'. for_loop (\<lambda>c aug. and_then (gm_get aug col c) (\<lambda>v. let sub = gf_mul f v in
        and_then (gm_get aug r c) (\<lambda>w. gm_set r c (gf_sub w sub) aug))) [0..<2 * n] aug = Ok aug' \<and> gm_ok n (2 * n) aug'
      \<and> mat aug' = (\<lambda>r' c. if r' = r then mat aug r c - GF f * mat aug col c else mat aug r' c)"
  proof (rule column_loop [OF assms(1), where h = "\<lambda>u r'. if r' = r then u r - GF f * u col else u r'"])
    fix c m assume c: "c < 2 * n" and m: "gm_ok n (2 * n) m"
    obtain v w where g: "gm_get m col c = Ok v" "GF v = mat m col c" "gm_get m r c = Ok w" "GF w = mat m r c"
      using gm_get_ok [OF m assms(2) c] gm_get_ok [OF m assms(3) c] by auto
    let ?x = "gf_sub w (gf_mul f v)"
    obtain m1 where m1: "gm_set r c ?x m = Ok m1" "gm_ok n (2 * n) m1" "mat m1 = (\<lambda>r' c'. if r' = r \<and> c' = c then GF ?x else mat m r' c')"
      using gm_set_ok [OF m assms(3) c] by blast
    have "mat m1 = (\<lambda>r' c'. if c' = c then (if r' = r then mat m r c - GF f * mat m col c else mat m r' c) else mat m r' c')"
      using m1(3) g by (auto simp: fun_eq_iff)
    then show "\<exists>m'. and_then (gm_get m col c) (\<lambda>v. let sub = gf_mul f v in and_then (gm_get m r c) (\<lambda>w. gm_set r c (gf_sub w sub) m)) = Ok m'
        \<and> gm_ok n (2 * n) m'
        \<and> mat m' = (\<lambda>r' c'. if c' = c then (if r' = r then mat m r c - GF f * mat m col c else mat m r' c) else mat m r' c')"
      using g m1(1,2) by (intro exI [of _ m1]) simp
  qed auto
  then show ?thesis using f assms(1,4) by (cases "f = 0") (auto simp: eliminate_row_def fun_eq_iff)
qed

lemma eliminate_rows_ok:
  assumes "gm_ok n (2 * n) aug" "col < n"
  shows "\<exists>aug'. for_loop (eliminate_row n col) [0..<n] aug = Ok aug' \<and> gm_ok n (2 * n) aug'
    \<and> mat aug' = (\<lambda>r c. if r = col then mat aug col c else mat aug r c - mat aug r col * mat aug col c)"
proof -
  let ?I = "\<lambda>i s. gm_ok n (2 * n) s
    \<and> mat s = (\<lambda>r c. if r < i \<and> r \<noteq> col then mat aug r c - mat aug r col * mat aug col c else mat aug r c)"
  have "\<exists>aug'. for_loop (eliminate_row n col) [0..<n] aug = Ok aug' \<and> ?I n aug'"
  proof (rule for_loop_range [where I = ?I])
    fix i s assume i: "i < n" and s: "?I i s"
    show "\<exists>s'. eliminate_row n col i s = Ok s' \<and> ?I (Suc i) s'"
    proof (cases "i = col")
      case True
      then have "eliminate_row n col i s = Ok s" by (simp add: eliminate_row_def)
      moreover have "?I (Suc i) s" using s True by (auto simp: fun_eq_iff less_Suc_eq)
      ultimately show ?thesis by blast
    next
      case False
      obtain s' where s': "eliminate_row n col i s = Ok s'" "gm_ok n (2 * n) s'"
        "mat s' = (\<lambda>r' c. if r' = i then mat s i c - mat s i col * mat s col c else mat s r' c)"
        using eliminate_row_ok [OF _ assms(2) i False] s by blast
      have "?I (Suc i) s'" using s s'(2,3) False by (auto simp: fun_eq_iff less_Suc_eq)
      then show ?thesis using s'(1) by blast
    qed
  qed (use assms(1) in simp)
  then show ?thesis using mat_below [OF assms(1)] by (auto simp: fun_eq_iff)
qed

lemma invert_step:
  assumes "gm_ok n (2 * n) aug" "col < n" "p < n" "mat aug p col \<noteq> 0"
  shows "\<exists>aug'. and_then (if p \<noteq> col then swap_rows n col p aug else Ok aug) (\<lambda>aug.
       and_then (gm_get aug col col) (\<lambda>pivot_val.
       and_then (gf_inv pivot_val) (\<lambda>inv_pivot.
       and_then (normalize_row n col inv_pivot aug) (for_loop (eliminate_row n col) [0..<n])))) = Ok aug'
    \<and> gm_ok n (2 * n) aug' \<and> mat aug' = pivot_step col p (mat aug)"
proof -
  have "\<exists>s. (if p \<noteq> col then swap_rows n col p aug else Ok aug) = Ok s \<and> gm_ok n (2 * n) s \<and> mat s = (\<lambda>r c. swapped col p (\<lambda>r. mat aug r c) r)"
    using swap_rows_ok [OF assms(1-3)] assms(1) by (auto simp: swapped_def fun_eq_iff)
  then obtain s where s: "(if p \<noteq> col then swap_rows n col p aug else Ok aug) = Ok s" "gm_ok n (2 * n) s"
    "mat s = (\<lambda>r c. swapped col p (\<lambda>r. mat aug r c) r)" by blast
  obtain v where v: "gm_get s col col = Ok v" "GF v = mat s col col" using gm_get_ok [OF s(2) assms(2), of col] assms(2) by auto
  have "GF v \<noteq> 0" using v(2) s(3) assms(4) by (cases "p = col") (simp_all add: swapped_def)
  then obtain b where b: "gf_inv v = Ok b" "GF b = inverse (GF v)" using gf_inv_GF [of v] by auto
  obtain s2 where s2: "normalize_row n col b s = Ok s2" "gm_ok n (2 * n) s2"
    "mat s2 = (\<lambda>r c. if r = col then mat s col c * GF b else mat s r c)" using normalize_row_ok [OF s(2) assms(2)] by blast
  obtain s3 where s3: "for_loop (eliminate_row n col) [0..<n] s2 = Ok s3" "gm_ok n (2 * n) s3"
    "mat s3 = (\<lambda>r c. if r = col then mat s2 col c else mat s2 r c - mat s2 r col * mat s2 col c)"
    using eliminate_rows_ok [OF s2(2) assms(2)] by blast
  have "mat s3 = pivot_step col p (mat aug)"
    unfolding s3(3) s2(3) b(2) v(2) s(3) pivot_step_def Let_def by simp
  then show ?thesis using s(1) v(1) b(1) s2(1) s3(1,2) by (intro exI [of _ s3]) simp
qed

lemma invert_loop_ok:
  assumes "gm_ok n (2 * n) aug" "eliminated n A col (mat aug)" "col \<le> n"
  shows "\<exists>res. invert_loop n [col..<n] aug = Ok res \<and> (case res of None \<Rightarrow> \<not> nonsingular n A
    | Some aug' \<Rightarrow> gm_ok n (2 * n) aug' \<and> eliminated n A n (mat aug'))"
  using assms
proof (induction "n - col" arbitrary: col aug)
  case 0
  then show ?case by simp
next
  case (Suc d)
  then have col: "col < n" "[col..<n] = col # [Suc col..<n]" by (simp_all add: upt_conv_Cons)
  obtain q where q: "find_pivot n col aug col = Ok q" "col \<le> q" "q \<le> n" "\<forall>r. col \<le> r \<longrightarrow> r < q \<longrightarrow> mat aug r col = 0"
    "q < n \<longrightarrow> mat aug q col \<noteq> 0" using find_pivot_ok [OF Suc.prems(1) col(1), of col] col(1) by auto
  show ?case
  proof (cases "q = n")
    case True
    then show ?thesis using q no_pivot [OF Suc.prems(2) col(1)] col(2) by simp
  next
    case False
    then have lt: "q < n" using q(3) by simp
    then obtain aug' where a: "and_then (if q \<noteq> col then swap_rows n col q aug else Ok aug) (\<lambda>aug.
       and_then (gm_get aug col col) (\<lambda>pivot_val.
       and_then (gf_inv pivot_val) (\<lambda>inv_pivot.
       and_then (normalize_row n col inv_pivot aug) (for_loop (eliminate_row n col) [0..<n])))) = Ok aug'"
      "gm_ok n (2 * n) aug'" "mat aug' = pivot_step col q (mat aug)" using invert_step [OF Suc.prems(1) col(1)] q(5) by blast
    have "eliminated n A (Suc col) (mat aug')" using pivot_step_eliminated [OF Suc.prems(2) col(1) q(2) lt] q(5) lt a(3) by simp
    moreover have "invert_loop n [col..<n] aug = invert_loop n [Suc col..<n] aug'"
    proof -
      have "invert_loop n [col..<n] aug = and_then (and_then (if q \<noteq> col then swap_rows n col q aug else Ok aug) (\<lambda>aug.
       and_then (gm_get aug col col) (\<lambda>pivot_val.
       and_then (gf_inv pivot_val) (\<lambda>inv_pivot.
       and_then (normalize_row n col inv_pivot aug) (for_loop (eliminate_row n col) [0..<n]))))) (invert_loop n [Suc col..<n])"
        using q(1) False by (simp add: col(2) and_then_assoc)
      then show ?thesis by (simp add: a(1))
    qed
    ultimately show ?thesis using Suc.hyps(1) [of "Suc col" aug'] Suc.hyps(2) a(2) col(1) by simp
  qed
qed

lemma invert_ok:
  assumes "gm_ok n n m"
  shows "\<exists>res. invert m = Ok res \<and> (case res of None \<Rightarrow> \<not> nonsingular n (mat m)
    | Some b \<Rightarrow> gm_ok n n b \<and> nonsingular n (mat m) \<and> (\<forall>r<n. \<forall>c<n. (\<Sum>k<n. mat b r k * mat m k c) = (if r = c then 1 else 0)))"
proof -
  have m: "gm_rows m = n" "gm_cols m = n" using assms by (simp_all add: gm_ok_def)
  obtain aug where aug: "augment n m = Ok aug" "gm_ok n (2 * n) aug" "\<forall>r<n. \<forall>c<2 * n. mat aug r c = augmented n (mat m) r c"
    using augment_ok [OF assms] by blast
  have "eliminated n (mat m) 0 (mat aug)" by (rule eliminated_cong [OF augmented_eliminated]) (use aug(3) in simp_all)
  then obtain res where res: "invert_loop n [0..<n] aug = Ok res" "case res of None \<Rightarrow> \<not> nonsingular n (mat m)
    | Some aug' \<Rightarrow> gm_ok n (2 * n) aug' \<and> eliminated n (mat m) n (mat aug')" using invert_loop_ok [OF aug(2)] by blast
  show ?thesis
  proof (cases res)
    case None
    then show ?thesis using res aug(1) m by (simp add: invert_def)
  next
    case (Some a)
    then have a: "gm_ok n (2 * n) a" "eliminated n (mat m) n (mat a)" using res(2) by simp_all
    have "\<exists>v. gm_get a r (n + c) = Ok v \<and> GF v = mat a r (n + c)" if "r < n" "c < n" for r c
      using gm_get_ok [OF a(1), of r "n + c"] that by simp
    then obtain b where b: "for_loop (\<lambda>r. for_loop (\<lambda>c inv. and_then (gm_get a r (n + c)) (\<lambda>v. gm_set r c v inv)) [0..<n]) [0..<n] (gm_zeros n n) = Ok b"
      "gm_ok n n b" "mat b = (\<lambda>r c. if r < n \<and> c < n then mat a r (n + c) else mat (gm_zeros n n) r c)"
      using fill_rows [OF zeros_ok(1) order_refl order_refl, of n n "\<lambda>r c. gm_get a r (n + c)" "\<lambda>r c. mat a r (n + c)"] by auto
    have "(\<Sum>k<n. mat b r k * mat m k c) = (if r = c then 1 else 0)" if "r < n" "c < n" for r c
      using eliminated_inverse [OF a(2) that] that by (simp add: b(3))
    then show ?thesis using res(1) aug(1) m b(1,2) Some eliminated_nonsingular [OF a(2)] by (simp add: invert_def)
  qed
qed

end
