(* ===== verification/Fec_Codec.thy ===== *)
theory Fec_Codec
  imports Fec_Matrix
begin

text \<open>
  The erasure codec of \<open>transport/fec.rs\<close>: \<open>FecCodec\<close>, which computes repair symbols and recovers
  sources from any sufficient set of symbols, and the block encoder and decoder around it. Sizes
  are natural numbers: where \<open>k + m\<close> would leave 64 bits, building the codec panics in the code as
  it does here, either at its guard, or when the matrix is allocated or filled.
\<close>

section \<open>Definitions\<close>

record fec_symbol =
  sym_index :: nat
  sym_data :: bytes

record fec_codec =
  fc_k :: nat
  fc_m :: nat
  fc_cauchy_matrix :: gf_matrix

definition fec_new :: "nat \<Rightarrow> nat \<Rightarrow> (unit, fec_codec) res" where
  "fec_new k m =
     (if \<not> k > 0 then Panic
      else if \<not> k + m \<le> 256 then Panic
      else
        and_then (if m > 0 then cauchy m k else Ok (gm_zeros 0 k)) (\<lambda>cauchy_matrix.
        Ok \<lparr>fc_k = k, fc_m = m, fc_cauchy_matrix = cauchy_matrix\<rparr>))"

text \<open>The loop over \<open>dst.iter_mut().zip(src.iter())\<close>, which ends with the shorter of the two.\<close>

fun xor_into :: "bytes \<Rightarrow> bytes \<Rightarrow> bytes" where
  "xor_into (s # src) (d # dst) = (d XOR s) # xor_into src dst"
| "xor_into src dst = dst"

text \<open>The sum of the vectors, scaled by one row of a matrix; coefficients that are zero are skipped.\<close>

definition add_scaled :: "u8 \<Rightarrow> bytes \<Rightarrow> nat \<Rightarrow> bytes \<Rightarrow> (unit, bytes) res" where
  "add_scaled coeff src symbol_len =
     for_loop (\<lambda>b dst.
       and_then (index dst b) (\<lambda>d.
       and_then (index src b) (\<lambda>s. set_index dst b (gf_add d (gf_mul coeff s))))) [0..<symbol_len]"

definition combine :: "gf_matrix \<Rightarrow> nat \<Rightarrow> nat \<Rightarrow> bytes list \<Rightarrow> nat \<Rightarrow> bytes \<Rightarrow> (unit, bytes) res" where
  "combine mx i k vectors symbol_len =
     for_loop (\<lambda>j dst.
       and_then (gm_get mx i j) (\<lambda>coeff.
       if coeff \<noteq> 0 then and_then (index vectors j) (\<lambda>src. add_scaled coeff src symbol_len dst) else Ok dst)) [0..<k]"

definition fec_encode :: "fec_codec \<Rightarrow> bytes list \<Rightarrow> (unit, fec_symbol list) res" where
  "fec_encode codec source_symbols =
     (if length source_symbols \<noteq> fc_k codec then Panic
      else if fc_m codec = 0 then Ok []
      else
        and_then (index source_symbols 0) (\<lambda>first.
        let symbol_len = length first in
        if list_ex (\<lambda>s. length s \<noteq> symbol_len) source_symbols then Panic
        else if fc_m codec = 1 then
          Ok [\<lparr>sym_index = fc_k codec, sym_data = fold xor_into source_symbols (replicate symbol_len 0)\<rparr>]
        else
          for_loop (\<lambda>i repair.
            and_then (combine (fc_cauchy_matrix codec) i (fc_k codec) source_symbols symbol_len (replicate symbol_len 0)) (\<lambda>parity.
            Ok (repair @ [\<lparr>sym_index = fc_k codec + i, sym_data = parity\<rparr>]))) [0..<fc_m codec] []))"

text \<open>Symbols whose index is new, in the order of their arrival, and which indices were seen.\<close>

fun dedup_loop :: "fec_symbol list \<Rightarrow> nat \<Rightarrow> fec_symbol list \<Rightarrow> bool list \<Rightarrow> fec_symbol list \<times> bool list" where
  "dedup_loop [] n dist seen = (dist, seen)"
| "dedup_loop (s # received) n dist seen =
     (if sym_index s < n \<and> \<not> seen ! sym_index s
      then dedup_loop received n (dist @ [s]) (seen[sym_index s := True])
      else dedup_loop received n dist seen)"

definition place_sources :: "nat \<Rightarrow> fec_symbol list \<Rightarrow> bytes list" where
  "place_sources k dist =
     fold (\<lambda>s result. if sym_index s < k then result[sym_index s := sym_data s] else result) dist (replicate k [])"

definition submatrix :: "fec_codec \<Rightarrow> fec_symbol list \<Rightarrow> (unit, gf_matrix) res" where
  "submatrix codec selected =
     (let k = fc_k codec in
      for_loop (\<lambda>(row_idx, sym) mx.
        if sym_index sym < k then gm_set row_idx (sym_index sym) 1 mx
        else
          let parity_row = sym_index sym - k in
          for_loop (\<lambda>col mx. and_then (gm_get (fc_cauchy_matrix codec) parity_row col) (\<lambda>v. gm_set row_idx col v mx)) [0..<k] mx)
      (enumerate 0 selected) (gm_zeros k k))"

text \<open>The path for a single repair symbol, and the general one.\<close>

definition decode_parity :: "nat \<Rightarrow> nat \<Rightarrow> nat \<Rightarrow> fec_symbol list \<Rightarrow> (unit, bytes list option) res" where
  "decode_parity k symbol_len missing dist =
     and_then (unwrap (find (\<lambda>s. sym_index s = k) dist)) (\<lambda>parity_sym.
     let reconstructed = take symbol_len (sym_data parity_sym) @ replicate (symbol_len - length (sym_data parity_sym)) 0;
         reconstructed = fold (\<lambda>s r. if sym_index s < k \<and> sym_index s \<noteq> missing then xor_into (sym_data s) r else r) dist reconstructed
     in and_then (set_index (place_sources k dist) missing reconstructed) (\<lambda>result. Ok (Some result)))"

definition decode_general :: "fec_codec \<Rightarrow> nat \<Rightarrow> fec_symbol list \<Rightarrow> (unit, bytes list option) res" where
  "decode_general codec symbol_len dist =
     (let k = fc_k codec in
      and_then (slice dist 0 k) (\<lambda>selected.
      and_then (submatrix codec selected) (\<lambda>mx.
      and_then (invert mx) (\<lambda>inverted.
      case inverted of
        None \<Rightarrow> Ok None
      | Some mx_inv \<Rightarrow>
          and_then (for_loop (\<lambda>src_idx result.
              and_then (index result src_idx) (\<lambda>dst.
              and_then (combine mx_inv src_idx k (map sym_data selected) symbol_len dst) (set_index result src_idx)))
            [0..<k] (replicate k (replicate symbol_len 0)))
            (\<lambda>result. Ok (Some result))))))"

definition fec_decode :: "fec_codec \<Rightarrow> fec_symbol list \<Rightarrow> (unit, bytes list option) res" where
  "fec_decode codec received =
     (let k = fc_k codec; m = fc_m codec in
      if length received < k then Ok None
      else
        let (dist, seen) = dedup_loop received (k + m) [] (replicate (k + m) False) in
        if length dist < k then Ok None
        else
          and_then (index dist 0) (\<lambda>first.
          let symbol_len = length (sym_data first) in
          if list_all (\<lambda>i. seen ! i) [0..<k] then Ok (Some (place_sources k dist))
          else if m = 1 then
            (case (find (\<lambda>i. \<not> seen ! i) [0..<k], seen ! k) of
               (Some missing, True) \<Rightarrow> decode_parity k symbol_len missing dist
             | _ \<Rightarrow> decode_general codec symbol_len dist)
          else decode_general codec symbol_len dist))"

record fec_block_header =
  bh_block_id :: u64
  bh_original_len :: nat
  bh_k :: nat
  bh_m :: nat
  bh_symbol_size :: nat

record fec_recovery_report =
  rr_block_id :: u64
  rr_k :: nat
  rr_m :: nat
  rr_received_source_count :: nat
  rr_received_repair_count :: nat
  rr_lost_source_count :: nat
  rr_recovered_source_count :: nat
  rr_is_successful :: bool
  rr_bytes_recovered :: nat

definition source_symbol :: "bytes \<Rightarrow> nat \<Rightarrow> nat \<Rightarrow> (unit, bytes) res" where
  "source_symbol data symbol_size i =
     (let start = i * symbol_size; stop = min (start + symbol_size) (length data); sym = replicate symbol_size 0 in
      if start < length data then and_then (slice data start stop) (copy_at sym 0) else Ok sym)"

definition encode_block :: "u64 \<Rightarrow> bytes \<Rightarrow> nat \<Rightarrow> nat \<Rightarrow> (unit, fec_block_header \<times> fec_symbol list) res" where
  "encode_block block_id data k m =
     (if \<not> k > 0 then Panic
      else
        let original_len = length data;
            symbol_size = max ((original_len + (k - 1)) div k) 1 in
        and_then (for_loop (\<lambda>i sources. and_then (source_symbol data symbol_size i) (\<lambda>sym. Ok (sources @ [sym]))) [0..<k] []) (\<lambda>sources.
        and_then (fec_new k m) (\<lambda>codec.
        and_then (fec_encode codec sources) (\<lambda>repair_symbols.
        let all_symbols = map (\<lambda>(i, s). \<lparr>sym_index = i, sym_data = s\<rparr>) (enumerate 0 sources) @ repair_symbols
        in Ok (\<lparr>bh_block_id = block_id, bh_original_len = original_len, bh_k = k, bh_m = m, bh_symbol_size = symbol_size\<rparr>, all_symbols)))))"

text \<open>\<open>Vec::with_capacity\<close> panics if the size, reduced to 64 bits, is above \<open>isize::MAX\<close>.\<close>

definition decode_block :: "fec_block_header \<Rightarrow> fec_symbol list \<Rightarrow> (unit, bytes option \<times> fec_recovery_report) res" where
  "decode_block header received =
     (let k = bh_k header; m = bh_m header;
          source_count = length (filter (\<lambda>s. sym_index s < k) received);
          repair_count = length (filter (\<lambda>s. \<not> sym_index s < k \<and> sym_index s < k + m) received);
          lost_source = k - source_count in
      and_then (fec_new k m) (\<lambda>codec.
      and_then (fec_decode codec received) (\<lambda>decoded_symbols.
      let is_successful = (decoded_symbols \<noteq> None);
          recovered_count = (if is_successful \<and> lost_source > 0 then lost_source else 0);
          report = \<lparr>rr_block_id = bh_block_id header, rr_k = k, rr_m = m, rr_received_source_count = source_count,
            rr_received_repair_count = repair_count, rr_lost_source_count = lost_source,
            rr_recovered_source_count = recovered_count, rr_is_successful = is_successful,
            rr_bytes_recovered = recovered_count * bh_symbol_size header mod 2 ^ 64\<rparr> in
      case decoded_symbols of
        None \<Rightarrow> Ok (None, report)
      | Some symbols \<Rightarrow>
          if k * bh_symbol_size header mod 2 ^ 64 < 2 ^ 63
          then Ok (Some (take (bh_original_len header) (concat symbols)), report)
          else Panic)))"

section \<open>Code words\<close>

text \<open>
  Row \<open>i\<close> of the generator: the sources themselves, then the rows of the Cauchy matrix, or the row
  of ones if there is a single repair symbol. A symbol is coded if each of its bytes is the
  combination of the sources that the row of its index prescribes.
\<close>

definition code_row :: "nat \<Rightarrow> nat \<Rightarrow> nat \<Rightarrow> nat \<Rightarrow> gf" where
  "code_row k m i j =
     (if i < k then (if i = j then 1 else 0) else if m = 1 then 1 else inverse (field_point (i - k) - field_point (m + j)))"

definition sources_ok :: "nat \<Rightarrow> nat \<Rightarrow> bytes list \<Rightarrow> bool" where
  "sources_ok k len xs \<longleftrightarrow> length xs = k \<and> (\<forall>x \<in> set xs. length x = len)"

definition coded :: "nat \<Rightarrow> nat \<Rightarrow> nat \<Rightarrow> bytes list \<Rightarrow> fec_symbol \<Rightarrow> bool" where
  "coded k m len xs s \<longleftrightarrow> sym_index s < k + m \<and> length (sym_data s) = len
     \<and> (\<forall>b<len. GF (sym_data s ! b) = (\<Sum>j<k. code_row k m (sym_index s) j * GF (xs ! j ! b)))"

definition codec_ok :: "nat \<Rightarrow> nat \<Rightarrow> fec_codec \<Rightarrow> bool" where
  "codec_ok k m c \<longleftrightarrow> 0 < k \<and> k + m \<le> 256 \<and> fc_k c = k \<and> fc_m c = m \<and> gm_ok m k (fc_cauchy_matrix c)
     \<and> (\<forall>i<m. \<forall>j<k. mat (fc_cauchy_matrix c) i j = inverse (field_point i - field_point (m + j)))"

lemma fec_new_ok:
  assumes "0 < k" "k + m \<le> 256"
  shows "\<exists>c. fec_new k m = Ok c \<and> codec_ok k m c"
proof -
  have "\<exists>mx. (if m > 0 then cauchy m k else Ok (gm_zeros 0 k)) = Ok mx \<and> gm_ok m k mx
      \<and> (\<forall>i<m. \<forall>j<k. mat mx i j = inverse (field_point i - field_point (m + j)))"
  proof (cases "m > 0")
    case True
    then show ?thesis using cauchy_ok [of m k] assms(2) by (simp add: add.commute)
  next
    case False
    then show ?thesis using zeros_ok(1) [of 0 k] by simp
  qed
  then obtain mx where mx: "(if m > 0 then cauchy m k else Ok (gm_zeros 0 k)) = Ok mx" "gm_ok m k mx"
    "\<forall>i<m. \<forall>j<k. mat mx i j = inverse (field_point i - field_point (m + j))" by blast
  have "fec_new k m = Ok \<lparr>fc_k = k, fc_m = m, fc_cauchy_matrix = mx\<rparr>"
    unfolding fec_new_def mx(1) using assms by simp
  then show ?thesis using assms mx(2,3) by (simp add: codec_ok_def)
qed

lemma add_scaled_ok:
  assumes "length dst = len" "length src = len"
  shows "\<exists>dst'. add_scaled a src len dst = Ok dst' \<and> length dst' = len \<and> (\<forall>b<len. GF (dst' ! b) = GF (dst ! b) + GF a * GF (src ! b))"
proof -
  let ?I = "\<lambda>i s. length s = len \<and> (\<forall>b<len. s ! b = (if b < i then gf_add (dst ! b) (gf_mul a (src ! b)) else dst ! b))"
  have "\<exists>dst'. add_scaled a src len dst = Ok dst' \<and> ?I len dst'"
    unfolding add_scaled_def
  proof (rule for_loop_range [where I = ?I])
    fix i s assume i: "i < len" and s: "?I i s"
    let ?s = "s[i := gf_add (dst ! i) (gf_mul a (src ! i))]"
    have "?I (Suc i) ?s" using s i by (auto simp: nth_list_update less_Suc_eq)
    then show "\<exists>s'. and_then (index s i) (\<lambda>d. and_then (index src i) (\<lambda>x. set_index s i (gf_add d (gf_mul a x)))) = Ok s' \<and> ?I (Suc i) s'"
      using s i assms(2) by (intro exI [of _ ?s]) simp
  qed (use assms(1) in simp)
  then show ?thesis by auto
qed

lemma combine_ok:
  assumes "gm_ok R C mx" "i < R" "k \<le> C" "length dst = len" "sources_ok k len xs"
  shows "\<exists>dst'. combine mx i k xs len dst = Ok dst' \<and> length dst' = len
    \<and> (\<forall>b<len. GF (dst' ! b) = GF (dst ! b) + (\<Sum>j<k. mat mx i j * GF (xs ! j ! b)))"
  unfolding combine_def
proof -
  let ?f = "\<lambda>j dst. and_then (gm_get mx i j) (\<lambda>coeff. if coeff \<noteq> 0 then and_then (index xs j) (\<lambda>src. add_scaled coeff src len dst) else Ok dst)"
  let ?I = "\<lambda>n s. length s = len \<and> (\<forall>b<len. GF (s ! b) = GF (dst ! b) + (\<Sum>j<n. mat mx i j * GF (xs ! j ! b)))"
  show "\<exists>dst'. for_loop ?f [0..<k] dst = Ok dst' \<and> ?I k dst'"
  proof (rule for_loop_range [where I = ?I])
    fix n s assume n: "n < k" and s: "?I n s"
    obtain a where a: "gm_get mx i n = Ok a" "GF a = mat mx i n" using gm_get_ok [OF assms(1,2), of n] n assms(3) by auto
    have x: "n < length xs" "length (xs ! n) = len" using assms(5) n by (auto simp: sources_ok_def)
    obtain s' where s': "add_scaled a (xs ! n) len s = Ok s'" "length s' = len" "\<forall>b<len. GF (s' ! b) = GF (s ! b) + GF a * GF (xs ! n ! b)"
      using add_scaled_ok [of s len "xs ! n" a] s x(2) by blast
    show "\<exists>s'. ?f n s = Ok s' \<and> ?I (Suc n) s'"
    proof (cases "a = 0")
      case True
      then have "mat mx i n = 0" using a(2) by simp
      then have "?I (Suc n) s" using s by simp
      then show ?thesis using a(1) True by (intro exI [of _ s]) simp
    next
      case False
      have "?I (Suc n) s'" using s s'(2,3) a(2) by (simp add: add.assoc)
      then show ?thesis using a(1) False x(1) s'(1) by (intro exI [of _ s']) simp
    qed
  qed (use assms(4) in simp)
qed

lemma code_row_source: "i < k \<Longrightarrow> (\<Sum>j<k. code_row k m i j * f j) = f i"
  by (simp add: code_row_def if_distrib [where f = "\<lambda>x. x * _"] cong: if_cong)

lemma coded_source:
  assumes "coded k m len xs s" "sources_ok k len xs" "sym_index s < k"
  shows "sym_data s = xs ! sym_index s"
proof (rule nth_equalityI)
  show "length (sym_data s) = length (xs ! sym_index s)" using assms by (simp add: coded_def sources_ok_def)
next
  fix b assume "b < length (sym_data s)"
  then have "GF (sym_data s ! b) = GF (xs ! sym_index s ! b)"
    using assms(1) code_row_source [OF assms(3), of m "\<lambda>j. GF (xs ! j ! b)"] by (simp add: coded_def)
  then show "sym_data s ! b = xs ! sym_index s ! b" by simp
qed

lemma source_coded:
  assumes "sources_ok k len xs" "i < k"
  shows "coded k m len xs \<lparr>sym_index = i, sym_data = xs ! i\<rparr>"
  using assms code_row_source [OF assms(2)] by (simp add: coded_def sources_ok_def)

section \<open>Encoding\<close>

lemma xor_into_ok:
  assumes "length src = length dst"
  shows "length (xor_into src dst) = length dst \<and> (\<forall>b<length dst. GF (xor_into src dst ! b) = GF (dst ! b) + GF (src ! b))"
  using assms by (induction src dst rule: list_induct2) (auto simp: nth_Cons split: nat.split)

lemma fold_xor_ok:
  assumes "\<forall>x \<in> set xs. length x = len" "length dst = len"
  shows "length (fold xor_into xs dst) = len \<and> (\<forall>b<len. GF (fold xor_into xs dst ! b) = GF (dst ! b) + (\<Sum>x\<leftarrow>xs. GF (x ! b)))"
  using assms
proof (induction xs arbitrary: dst)
  case (Cons x xs)
  then have "length (xor_into x dst) = len" "\<forall>b<len. GF (xor_into x dst ! b) = GF (dst ! b) + GF (x ! b)"
    using xor_into_ok [of x dst] by simp_all
  then show ?case using Cons.IH [of "xor_into x dst"] Cons.prems(1) by (simp add: add.assoc)
qed simp

lemma sum_nth: "length xs = k \<Longrightarrow> (\<Sum>x\<leftarrow>xs. f x) = (\<Sum>j<k. f (xs ! j) :: gf)"
  by (simp add: sum_list_sum_nth atLeast0LessThan)

lemma parity_coded:
  assumes "sources_ok k len xs"
  shows "coded k 1 len xs \<lparr>sym_index = k, sym_data = fold xor_into xs (replicate len 0)\<rparr>"
proof -
  have "length xs = k" "\<forall>x \<in> set xs. length x = len" using assms by (simp_all add: sources_ok_def)
  then show ?thesis using fold_xor_ok [of xs len "replicate len 0"] by (simp add: coded_def code_row_def sum_nth)
qed

lemma repair_coded:
  assumes "codec_ok k m c" "sources_ok k len xs" "i < m" "m \<noteq> 1"
  shows "\<exists>p. combine (fc_cauchy_matrix c) i k xs len (replicate len 0) = Ok p \<and> coded k m len xs \<lparr>sym_index = k + i, sym_data = p\<rparr>"
proof -
  have mx: "gm_ok m k (fc_cauchy_matrix c)" "\<And>j. j < k \<Longrightarrow> mat (fc_cauchy_matrix c) i j = code_row k m (k + i) j"
    using assms by (simp_all add: codec_ok_def code_row_def)
  obtain p where "combine (fc_cauchy_matrix c) i k xs len (replicate len 0) = Ok p" "length p = len"
    "\<forall>b<len. GF (p ! b) = GF (replicate len 0 ! b) + (\<Sum>j<k. mat (fc_cauchy_matrix c) i j * GF (xs ! j ! b))"
    using combine_ok [OF mx(1) assms(3) order_refl _ assms(2), of "replicate len 0"] by auto
  then show ?thesis using assms(3) mx(2) by (simp add: coded_def)
qed

lemma fec_encode_ok:
  assumes "codec_ok k m c" "sources_ok k len xs"
  shows "\<exists>rep. fec_encode c xs = Ok rep \<and> map sym_index rep = [k..<k + m] \<and> (\<forall>s \<in> set rep. coded k m len xs s)"
proof -
  have c: "fc_k c = k" "fc_m c = m" "0 < k" "length xs = k" "\<not> list_ex (\<lambda>s. length s \<noteq> len) xs" "length (xs ! 0) = len"
    using assms by (auto simp: codec_ok_def sources_ok_def list_ex_iff)
  consider "m = 0" | "m = 1" | "m \<noteq> 0" "m \<noteq> 1" by blast
  then show ?thesis
  proof cases
    case 1
    then show ?thesis using c by (simp add: fec_encode_def)
  next
    case 2
    then show ?thesis using c parity_coded [OF assms(2)] by (simp add: fec_encode_def Let_def)
  next
    case 3
    let ?f = "\<lambda>i repair. and_then (combine (fc_cauchy_matrix c) i k xs len (replicate len 0)) (\<lambda>parity.
            Ok (repair @ [\<lparr>sym_index = k + i, sym_data = parity\<rparr>]))"
    let ?I = "\<lambda>i rep. map sym_index rep = [k..<k + i] \<and> (\<forall>s \<in> set rep. coded k m len xs s)"
    have "\<exists>rep. for_loop ?f [0..<m] [] = Ok rep \<and> ?I m rep"
    proof (rule for_loop_range [where I = ?I])
      fix i rep assume i: "i < m" and rep: "?I i rep"
      obtain p where p: "combine (fc_cauchy_matrix c) i k xs len (replicate len 0) = Ok p" "coded k m len xs \<lparr>sym_index = k + i, sym_data = p\<rparr>"
        using repair_coded [OF assms i 3(2)] by blast
      then show "\<exists>s'. ?f i rep = Ok s' \<and> ?I (Suc i) s'" using rep by simp
    qed simp
    then show ?thesis using c 3 by (simp add: fec_encode_def Let_def)
  qed
qed


section \<open>Decoding\<close>

lemma dedup_loop_ok:
  assumes "dedup_loop received n dist seen = (dist', seen')"
    and "length seen = n" "distinct (map sym_index dist)" "\<forall>i<n. seen ! i \<longleftrightarrow> i \<in> sym_index ` set dist" "sym_index ` set dist \<subseteq> {..<n}"
  shows "distinct (map sym_index dist') \<and> (\<forall>i<n. seen' ! i \<longleftrightarrow> i \<in> sym_index ` set dist') \<and> set dist' \<subseteq> set dist \<union> set received
    \<and> sym_index ` set dist' = sym_index ` set dist \<union> {i \<in> sym_index ` set received. i < n}"
  using assms
proof (induction received n dist seen arbitrary: dist' seen' rule: dedup_loop.induct)
  case (2 s received n dist seen)
  show ?case
  proof (cases "sym_index s < n \<and> \<not> seen ! sym_index s")
    case True
    have "dedup_loop received n (dist @ [s]) (seen[sym_index s := True]) = (dist', seen')" using 2(3) True by simp
    moreover have "\<forall>i<n. seen[sym_index s := True] ! i \<longleftrightarrow> i \<in> sym_index ` set (dist @ [s])"
      using 2(4,6) True by (auto simp: nth_list_update)
    moreover have "distinct (map sym_index (dist @ [s]))" "sym_index ` set (dist @ [s]) \<subseteq> {..<n}" using 2(5-7) True by auto
    ultimately have "distinct (map sym_index dist') \<and> (\<forall>i<n. seen' ! i \<longleftrightarrow> i \<in> sym_index ` set dist')
      \<and> set dist' \<subseteq> set (dist @ [s]) \<union> set received
      \<and> sym_index ` set dist' = sym_index ` set (dist @ [s]) \<union> {i \<in> sym_index ` set received. i < n}"
      using 2(1) [OF True] 2(4) by simp
    then show ?thesis using True by auto
  next
    case False
    then have "dedup_loop received n dist seen = (dist', seen')" using 2(3) by auto
    then have "distinct (map sym_index dist') \<and> (\<forall>i<n. seen' ! i \<longleftrightarrow> i \<in> sym_index ` set dist') \<and> set dist' \<subseteq> set dist \<union> set received
      \<and> sym_index ` set dist' = sym_index ` set dist \<union> {i \<in> sym_index ` set received. i < n}"
      using 2(2) [OF False] 2(4-7) by blast
    moreover have "sym_index s < n \<longrightarrow> sym_index s \<in> sym_index ` set dist" using False 2(6) by blast
    ultimately show ?thesis by auto
  qed
qed auto

lemma place_sources_ok:
  assumes "\<forall>s \<in> set dist. sym_index s < k \<longrightarrow> sym_data s = xs ! sym_index s"
  shows "length (place_sources k dist) = k \<and> (\<forall>i<k. i \<in> sym_index ` set dist \<longrightarrow> place_sources k dist ! i = xs ! i)"
proof -
  let ?f = "\<lambda>s result. if sym_index s < k then result[sym_index s := sym_data s] else result"
  have "length (fold ?f dist r) = k \<and> (\<forall>i<k. fold ?f dist r ! i = (if i \<in> sym_index ` set dist then xs ! i else r ! i))" if "length r = k" for r
    using assms that
  proof (induction dist arbitrary: r)
    case (Cons s dist)
    have "length (?f s r) = k" using Cons.prems(2) by simp
    moreover have "\<forall>i<k. ?f s r ! i = (if i = sym_index s then xs ! i else r ! i)" using Cons.prems by (auto simp: nth_list_update)
    ultimately show ?case using Cons.IH [of "?f s r"] Cons.prems(1) by auto
  qed simp
  then show ?thesis by (simp add: place_sources_def)
qed

lemma gf_double_zero: "x + x = (0 :: gf)"
proof -
  have "x - x = x + x" by (simp only: minus_gf_def plus_gf_def gf_sub_def gf_add_def)
  then show ?thesis by simp
qed

lemma fold_when: "fold (\<lambda>x s. if P x then f x s else s) xs = fold f (filter P xs)"
  by (induction xs) (auto simp: fun_eq_iff)

lemma sum_by_index:
  assumes "distinct (map sym_index dist)" "\<And>s. s \<in> set dist \<Longrightarrow> g s = f (sym_index s)"
  shows "(\<Sum>s\<leftarrow>dist. g s :: gf) = (\<Sum>i \<in> sym_index ` set dist. f i)"
proof -
  have "(\<Sum>s\<leftarrow>dist. g s) = (\<Sum>i\<leftarrow>map sym_index dist. f i)" using assms(2) by (simp add: comp_def cong: map_cong)
  also have "\<dots> = (\<Sum>i \<in> set (map sym_index dist). f i)" by (rule sum_list_distinct_conv_sum_set [OF assms(1)])
  finally show ?thesis by simp
qed

text \<open>The parity, with all sources but one added to it again, is the one that is missing.\<close>

lemma xor_recovers:
  assumes "sources_ok k len xs" "length p = len" "\<forall>b<len. GF (p ! b) = (\<Sum>j<k. GF (xs ! j ! b))"
    and "distinct (map sym_index ds)" "\<forall>s \<in> set ds. sym_data s = xs ! sym_index s" "sym_index ` set ds = {..<k} - {missing}" "missing < k"
  shows "fold xor_into (map sym_data ds) p = xs ! missing"
proof (rule nth_equalityI)
  let ?r = "fold xor_into (map sym_data ds) p"
  have "\<forall>x \<in> set (map sym_data ds). length x = len"
  proof
    fix x assume "x \<in> set (map sym_data ds)"
    then obtain s where "s \<in> set ds" "x = sym_data s" by auto
    then have "x = xs ! sym_index s" "sym_index s < k" using assms(5,6) by auto
    then show "length x = len" using assms(1) by (simp add: sources_ok_def)
  qed
  then have r: "length ?r = len" "\<forall>b<len. GF (?r ! b) = GF (p ! b) + (\<Sum>x\<leftarrow>map sym_data ds. GF (x ! b))"
    using fold_xor_ok [of "map sym_data ds" len p] assms(2) by blast+
  then show "length ?r = length (xs ! missing)" using assms(1,7) by (simp add: sources_ok_def)
  fix b assume "b < length ?r"
  then have b: "b < len" using r(1) by simp
  have "(\<Sum>s\<leftarrow>ds. GF (sym_data s ! b)) = (\<Sum>i \<in> {..<k} - {missing}. GF (xs ! i ! b))"
    using sum_by_index [OF assms(4), of "\<lambda>s. GF (sym_data s ! b)" "\<lambda>i. GF (xs ! i ! b)"] assms(5,6) by simp
  moreover have "(\<Sum>j<k. GF (xs ! j ! b)) = GF (xs ! missing ! b) + (\<Sum>i \<in> {..<k} - {missing}. GF (xs ! i ! b))"
    using assms(7) by (simp add: sum.remove [of "{..<k}" missing])
  ultimately have "GF (?r ! b) = GF (xs ! missing ! b)"
    using r(2) b assms(3) gf_double_zero by (simp add: comp_def add.assoc)
  then show "?r ! b = xs ! missing ! b" by simp
qed

lemma decode_parity_ok:
  assumes "sources_ok k len xs" "\<forall>s \<in> set dist. coded k 1 len xs s" "distinct (map sym_index dist)"
    and "missing < k" "sym_index ` set dist = {..k} - {missing}"
  shows "decode_parity k len missing dist = Ok (Some xs)"
proof -
  have xs: "length xs = k" using assms(1) by (simp add: sources_ok_def)
  have src: "\<forall>s \<in> set dist. sym_index s < k \<longrightarrow> sym_data s = xs ! sym_index s" using coded_source assms(1,2) by blast
  have "k \<in> sym_index ` set dist" using assms(4,5) by auto
  then obtain p where p: "find (\<lambda>s. sym_index s = k) dist = Some p"
    by (cases "find (\<lambda>s. sym_index s = k) dist") (auto simp: find_None_iff)
  then have "p \<in> set dist" "sym_index p = k" by (auto simp: find_Some_iff)
  then have pc: "length (sym_data p) = len" "\<forall>b<len. GF (sym_data p ! b) = (\<Sum>j<k. GF (xs ! j ! b))"
    using assms(2) by (auto simp: coded_def code_row_def)
  let ?D = "filter (\<lambda>s. sym_index s < k \<and> sym_index s \<noteq> missing) dist"
  have "sym_index ` set ?D = {i \<in> sym_index ` set dist. i < k \<and> i \<noteq> missing}" by auto
  then have "sym_index ` set ?D = {..<k} - {missing}" using assms(5) by auto
  then have "fold xor_into (map sym_data ?D) (sym_data p) = xs ! missing"
    using xor_recovers [OF assms(1) pc, of ?D missing] assms(3,4) src by (simp add: distinct_map_filter)
  moreover have "(place_sources k dist)[missing := xs ! missing] = xs"
    by (rule nth_equalityI) (use place_sources_ok [OF src] xs assms(4,5) in \<open>auto simp: nth_list_update\<close>)
  ultimately show ?thesis
    using p pc(1) assms(4) place_sources_ok [OF src] by (simp add: decode_parity_def Let_def fold_when fold_map comp_def)
qed

text \<open>Any choice of as many rows of the generator as there are sources has an inverse.\<close>

lemma code_rows_nonsingular:
  assumes "k + m \<le> 256" "m \<noteq> 1" "inj_on idx {..<k}" "\<And>r. r < k \<Longrightarrow> idx r < k + m"
  shows "nonsingular k (\<lambda>r. code_row k m (idx r))"
  unfolding nonsingular_def
proof (intro allI impI)
  fix v c assume "in_kernel k (\<lambda>r. code_row k m (idx r)) v" and c: "c < k"
  then have ker: "(\<Sum>j<k. code_row k m (idx r) j * v j) = 0" if "r < k" for r using that by (simp add: in_kernel_def apply_mat_def)
  define S where "S = {r \<in> {..<k}. idx r < k}"
  define P where "P = {r \<in> {..<k}. \<not> idx r < k}"
  define J where "J = {..<k} - idx ` S"
  define X where "X = (\<lambda>r. field_point (idx r - k)) ` P"
  have fin: "finite S" "finite P" "finite J" "finite X" by (simp_all add: S_def P_def J_def X_def)
  have vS: "v i = 0" if "i \<in> idx ` S" for i
    using that ker code_row_source [of i k m v] by (auto simp: S_def)
  have "S \<union> P = {..<k}" "S \<inter> P = {}" by (auto simp: S_def P_def)
  then have "card S + card P = k" using card_Un_disjoint [OF fin(1,2)] by simp
  moreover have "card (idx ` S) = card S" using assms(3) by (intro card_image) (auto simp: S_def inj_on_def)
  moreover have "card J = k - card (idx ` S)" unfolding J_def using fin(1) by (subst card_Diff_subset) (auto simp: S_def)
  moreover have "inj_on (\<lambda>r. field_point (idx r - k)) P"
  proof (rule inj_onI)
    fix r r' assume r: "r \<in> P" "r' \<in> P" and eq: "field_point (idx r - k) = field_point (idx r' - k)"
    then have "r < k" "r' < k" "k \<le> idx r" "k \<le> idx r'" by (auto simp: P_def)
    moreover have "idx r < k + m" "idx r' < k + m" using r assms(4) by (auto simp: P_def)
    ultimately have "idx r = idx r'" using eq assms(1) by (subst (asm) field_point_inj) auto
    then show "r = r'" using inj_onD [OF assms(3)] \<open>r < k\<close> \<open>r' < k\<close> by simp
  qed
  then have "card X = card P" unfolding X_def by (rule card_image)
  ultimately have "card J \<le> card X" by simp
  moreover have "inj_on (\<lambda>j. field_point (m + j)) J"
    using assms(1) by (intro inj_onI) (auto simp: J_def field_point_inj)
  moreover have "x \<noteq> field_point (m + j)" if x: "x \<in> X" and j: "j \<in> J" for x j
  proof -
    obtain r where r: "r \<in> P" "x = field_point (idx r - k)" using x by (auto simp: X_def)
    then have "idx r - k < m" "j < k" using assms(4) [of r] j by (auto simp: P_def J_def)
    then show ?thesis using r(2) assms(1) by (simp add: field_point_inj)
  qed
  moreover have "(\<Sum>j\<in>J. v j / (x - field_point (m + j))) = 0" if x: "x \<in> X" for x
  proof -
    obtain r where r: "r < k" "\<not> idx r < k" "x = field_point (idx r - k)" using x by (auto simp: X_def P_def)
    have "(\<Sum>j\<in>J. v j / (x - field_point (m + j))) = (\<Sum>j\<in>J. code_row k m (idx r) j * v j)"
      using r assms(2) by (simp add: code_row_def divide_inverse mult.commute)
    also have "\<dots> = (\<Sum>j<k. code_row k m (idx r) j * v j)"
      using vS by (intro sum.mono_neutral_left) (auto simp: J_def)
    finally show ?thesis using ker [OF r(1)] by simp
  qed
  ultimately have "\<forall>j \<in> J. v j = 0" using cauchy_kernel [OF fin(3,4)] by blast
  then show "v c = 0" using vS [of c] c by (auto simp: J_def)
qed

lemma for_loop_map: "for_loop f (map g xs) s = for_loop (\<lambda>x. f (g x)) xs s"
proof (induction xs arbitrary: s)
  case (Cons x xs)
  then show ?case by (cases "f (g x) s") simp_all
qed simp

lemma enumerate_upt: "enumerate 0 xs = map (\<lambda>i. (i, xs ! i)) [0..<length xs]"
  by (rule nth_equalityI) (simp_all add: nth_enumerate_eq)

lemma submatrix_ok:
  assumes "codec_ok k m c" "length sel = k" "\<And>r. r < k \<Longrightarrow> sym_index (sel ! r) < k + m" "m \<noteq> 1"
  shows "\<exists>mx. submatrix c sel = Ok mx \<and> gm_ok k k mx \<and> (\<forall>r<k. \<forall>j<k. mat mx r j = code_row k m (sym_index (sel ! r)) j)"
proof -
  let ?row = "\<lambda>r j. if j < k then code_row k m (sym_index (sel ! r)) j else 0"
  let ?f = "\<lambda>r mx. if sym_index (sel ! r) < k then gm_set r (sym_index (sel ! r)) 1 mx
    else for_loop (\<lambda>j mx. and_then (gm_get (fc_cauchy_matrix c) (sym_index (sel ! r) - k) j) (\<lambda>v. gm_set r j v mx)) [0..<k] mx"
  let ?I = "\<lambda>i mx. gm_ok k k mx \<and> mat mx = (\<lambda>r j. if r < i then ?row r j else 0)"
  have "\<exists>mx. for_loop ?f [0..<k] (gm_zeros k k) = Ok mx \<and> ?I k mx"
  proof (rule for_loop_range [where I = ?I])
    fix i s assume i: "i < k" and s: "?I i s"
    let ?x = "sym_index (sel ! i)"
    have "\<exists>s'. ?f i s = Ok s' \<and> gm_ok k k s' \<and> mat s' = (\<lambda>r j. if r = i then ?row i j else mat s r j)"
    proof (cases "?x < k")
      case True
      obtain s' where "gm_set i ?x 1 s = Ok s'" "gm_ok k k s'" "mat s' = (\<lambda>r j. if r = i \<and> j = ?x then GF 1 else mat s r j)"
        using gm_set_ok [of k k s i ?x 1] s i True by blast
      then show ?thesis using True s by (intro exI [of _ s']) (auto simp: fun_eq_iff code_row_def)
    next
      case False
      have "\<exists>v. gm_get (fc_cauchy_matrix c) (?x - k) j = Ok v \<and> GF v = code_row k m ?x j" if "j < k" for j
        using gm_get_ok [of m k "fc_cauchy_matrix c" "?x - k" j] that False assms(1,4) assms(3) [OF i] by (auto simp: codec_ok_def code_row_def)
      then obtain s' where "?f i s = Ok s'" "gm_ok k k s'" "mat s' = (\<lambda>r j. if r = i \<and> j < k then code_row k m ?x j else mat s r j)"
        using fill_row [of k k s i k "gm_get (fc_cauchy_matrix c) (?x - k)" "code_row k m ?x"] s i False by auto
      then show ?thesis using s by (intro exI [of _ s']) (auto simp: fun_eq_iff)
    qed
    then obtain s' where s': "?f i s = Ok s'" "gm_ok k k s'" "mat s' = (\<lambda>r j. if r = i then ?row i j else mat s r j)" by blast
    have "mat s' = (\<lambda>r j. if r < Suc i then ?row r j else 0)"
      using s s'(3) by (auto simp: fun_eq_iff less_Suc_eq)
    then show "\<exists>s'. ?f i s = Ok s' \<and> ?I (Suc i) s'" using s'(1,2) by blast
  qed (use zeros_ok in simp)
  then show ?thesis using assms(1,2) by (auto simp: submatrix_def Let_def enumerate_upt for_loop_map codec_ok_def cong: if_cong)
qed


lemma combine_inverse:
  assumes "gm_ok k k b" "\<And>r j. r < k \<Longrightarrow> j < k \<Longrightarrow> (\<Sum>i<k. mat b r i * A i j) = (if r = j then 1 else 0)"
    and "sources_ok k len xs" "sources_ok k len ys" "i < k"
    and "\<And>j t. j < k \<Longrightarrow> t < len \<Longrightarrow> GF (ys ! j ! t) = (\<Sum>q<k. A j q * GF (xs ! q ! t))"
  shows "combine b i k ys len (replicate len 0) = Ok (xs ! i)"
proof -
  obtain p where p: "combine b i k ys len (replicate len 0) = Ok p" "length p = len"
    "\<forall>t<len. GF (p ! t) = GF (replicate len 0 ! t) + (\<Sum>j<k. mat b i j * GF (ys ! j ! t))"
    using combine_ok [OF assms(1,5) order_refl _ assms(4), of "replicate len 0"] by auto
  have "p = xs ! i"
  proof (rule nth_equalityI)
    show "length p = length (xs ! i)" using p(2) assms(3,5) by (simp add: sources_ok_def)
    fix t assume "t < length p"
    then have t: "t < len" using p(2) by simp
    then have "(\<Sum>j<k. mat b i j * GF (ys ! j ! t)) = GF (xs ! i ! t)"
      by (intro left_inverse_recovers [where A = A and x = "\<lambda>q. GF (xs ! q ! t)"] assms(2,5,6))
    then have "GF (p ! t) = GF (xs ! i ! t)" using p(3) t by simp
    then show "p ! t = xs ! i ! t" by (simp only: GF_eq)
  qed
  then show ?thesis using p(1) by simp
qed

lemma decode_loop_ok:
  assumes "\<And>i. i < k \<Longrightarrow> combine b i k ys len (replicate len 0) = Ok (xs ! i)" "length xs = k"
  shows "for_loop (\<lambda>i result. and_then (index result i) (\<lambda>dst. and_then (combine b i k ys len dst) (set_index result i)))
    [0..<k] (replicate k (replicate len 0)) = Ok xs"
proof -
  let ?f = "\<lambda>i result. and_then (index result i) (\<lambda>dst. and_then (combine b i k ys len dst) (set_index result i))"
  let ?I = "\<lambda>i result. length result = k \<and> (\<forall>r<k. result ! r = (if r < i then xs ! r else replicate len 0))"
  have "\<exists>result. for_loop ?f [0..<k] (replicate k (replicate len 0)) = Ok result \<and> ?I k result"
  proof (rule for_loop_range [where I = ?I])
    fix i s assume i: "i < k" and s: "?I i s"
    have "?I (Suc i) (s[i := xs ! i])" using s i by (auto simp: nth_list_update less_Suc_eq)
    then show "\<exists>s'. ?f i s = Ok s' \<and> ?I (Suc i) s'" using s i assms(1) [OF i] by (intro exI [of _ "s[i := xs ! i]"]) simp
  qed simp
  then obtain result where result: "for_loop ?f [0..<k] (replicate k (replicate len 0)) = Ok result" "?I k result" by blast
  have "result = xs" by (rule nth_equalityI) (use result(2) assms(2) in simp_all)
  then show ?thesis using result(1) by simp
qed

lemma decode_general_ok:
  assumes "codec_ok k m c" "sources_ok k len xs" "m \<noteq> 1" "k \<le> length dist" "\<forall>s \<in> set dist. coded k m len xs s" "distinct (map sym_index dist)"
  shows "decode_general c len dist = Ok (Some xs)"
proof -
  define sel where "sel = take k dist"
  have k: "fc_k c = k" "k + m \<le> 256" "length xs = k" using assms(1,2) by (simp_all add: codec_ok_def sources_ok_def)
  have sel: "(slice dist 0 k :: (unit, fec_symbol list) res) = Ok sel" "length sel = k" "\<And>r. r < k \<Longrightarrow> coded k m len xs (sel ! r)"
    using assms(4,5) by (simp_all add: sel_def)
  have "distinct (map sym_index sel)" using assms(6) by (simp add: sel_def take_map [symmetric])
  then have inj: "inj_on (\<lambda>r. sym_index (sel ! r)) {..<k}"
    using sel(2) by (auto simp: inj_on_def distinct_conv_nth)
  obtain mx where mx: "submatrix c sel = Ok mx" "gm_ok k k mx" "\<forall>r<k. \<forall>j<k. mat mx r j = code_row k m (sym_index (sel ! r)) j"
    using submatrix_ok [OF assms(1) sel(2) _ assms(3)] sel(3) by (auto simp: coded_def)
  have "nonsingular k (\<lambda>r. code_row k m (sym_index (sel ! r)))"
    by (rule code_rows_nonsingular [OF k(2) assms(3) inj]) (use sel(3) in \<open>simp add: coded_def\<close>)
  then have "nonsingular k (mat mx)" using mx(3) by (simp add: nonsingular_def in_kernel_def apply_mat_def)
  then obtain b where b: "invert mx = Ok (Some b)" "gm_ok k k b"
    "\<And>r j. r < k \<Longrightarrow> j < k \<Longrightarrow> (\<Sum>i<k. mat b r i * mat mx i j) = (if r = j then 1 else 0)"
    using invert_ok [OF mx(2)] by (auto split: option.splits)
  have ys: "sources_ok k len (map sym_data sel)" using sel(2,3) by (auto simp: sources_ok_def coded_def in_set_conv_nth)
  have "combine b i k (map sym_data sel) len (replicate len 0) = Ok (xs ! i)" if "i < k" for i
    by (rule combine_inverse [OF b(2,3) assms(2) ys that]) (use sel mx(3) in \<open>simp_all add: coded_def\<close>)
  then show ?thesis using sel(1) mx(1) b(1) decode_loop_ok [OF _ k(3)] k(1) by (simp add: decode_general_def Let_def)
qed

text \<open>With one repair symbol and one source missing, everything else has arrived.\<close>

lemma one_missing:
  assumes "I \<subseteq> {..k}" "i < k" "i \<notin> I" "k \<le> card I"
  shows "I = {..k} - {i}"
proof (rule card_subset_eq)
  show "I \<subseteq> {..k} - {i}" using assms(1,3) by auto
  then have "card I \<le> card ({..k} - {i})" by (intro card_mono) auto
  then show "card I = card ({..k} - {i})" using assms(2,4) by simp
qed simp

lemma fec_decode_enough:
  assumes "codec_ok k m c" "sources_ok k len xs" "\<forall>s \<in> set dist. coded k m len xs s" "distinct (map sym_index dist)"
    and "\<And>i. i < k + m \<Longrightarrow> seen ! i \<longleftrightarrow> i \<in> sym_index ` set dist" "k \<le> length dist"
    and "dedup_loop received (k + m) [] (replicate (k + m) False) = (dist, seen)" "k \<le> length received"
  shows "fec_decode c received = Ok (Some xs)"
proof -
  have c: "fc_k c = k" "fc_m c = m" "0 < k" "length xs = k" using assms(1,2) by (simp_all add: codec_ok_def sources_ok_def)
  have "dist \<noteq> []" using assms(6) c(3) by auto
  then have "(index dist 0 :: (unit, fec_symbol) res) = Ok (dist ! 0)" "length (sym_data (dist ! 0)) = len" using assms(3) by (simp_all add: coded_def)
  then have dec: "fec_decode c received = (if list_all (\<lambda>i. seen ! i) [0..<k] then Ok (Some (place_sources k dist))
      else if m = 1 then (case (find (\<lambda>i. \<not> seen ! i) [0..<k], seen ! k) of
        (Some missing, True) \<Rightarrow> decode_parity k len missing dist | _ \<Rightarrow> decode_general c len dist)
      else decode_general c len dist)"
    using assms(6-8) c by (simp add: fec_decode_def Let_def split: option.split bool.split)
  consider (all) "list_all (\<lambda>i. seen ! i) [0..<k]" | (parity) "\<not> list_all (\<lambda>i. seen ! i) [0..<k]" "m = 1"
    | (general) "\<not> list_all (\<lambda>i. seen ! i) [0..<k]" "m \<noteq> 1" by blast
  then show ?thesis
  proof cases
    case all
    have "\<forall>s \<in> set dist. sym_index s < k \<longrightarrow> sym_data s = xs ! sym_index s" using coded_source assms(2,3) by blast
    moreover have "\<forall>i<k. i \<in> sym_index ` set dist" using all assms(5) by (simp add: list_all_iff)
    ultimately have "\<forall>i<k. place_sources k dist ! i = xs ! i" "length (place_sources k dist) = k"
      using place_sources_ok [of dist k xs] by simp_all
    then have "place_sources k dist = xs" using c(4) by (simp add: list_eq_iff_nth_eq)
    then show ?thesis using dec all by simp
  next
    case parity
    obtain i where i: "find (\<lambda>i. \<not> seen ! i) [0..<k] = Some i"
      using parity(1) by (cases "find (\<lambda>i. \<not> seen ! i) [0..<k]") (auto simp: find_None_iff list_all_iff)
    then have ik: "i < k" "\<not> seen ! i" by (auto simp: find_Some_iff)
    have "sym_index ` set dist = {..k} - {i}"
      by (rule one_missing) (use ik assms(3) assms(5) [of i] distinct_card [OF assms(4)] assms(6) parity(2) in \<open>auto simp: coded_def\<close>)
    then have "decode_parity k len i dist = Ok (Some xs)" "seen ! k"
      using decode_parity_ok [OF assms(2) _ assms(4) ik(1)] assms(3) parity(2) assms(5) [of k] ik(1) by auto
    then show ?thesis using dec parity i by simp
  next
    case general
    then show ?thesis using dec decode_general_ok [OF assms(1,2) _ assms(6,3,4)] by simp
  qed
qed

lemma fec_decode_ok:
  assumes "codec_ok k m c" "sources_ok k len xs" "\<forall>s \<in> set received. coded k m len xs s"
  shows "fec_decode c received = Ok (if k \<le> card (sym_index ` set received) then Some xs else None)"
proof -
  obtain dist seen where d: "dedup_loop received (k + m) [] (replicate (k + m) False) = (dist, seen)" by fastforce
  then have dd: "distinct (map sym_index dist)" "\<And>i. i < k + m \<Longrightarrow> seen ! i \<longleftrightarrow> i \<in> sym_index ` set dist" "set dist \<subseteq> set received"
      "sym_index ` set dist = {i \<in> sym_index ` set received. i < k + m}"
    using dedup_loop_ok [OF d] by auto
  have "sym_index ` set dist = sym_index ` set received" using dd(4) assms(3) by (auto simp: coded_def)
  then have len: "length dist = card (sym_index ` set received)" using distinct_card [OF dd(1)] by simp
  have all: "card (sym_index ` set received) \<le> length received"
    using card_image_le [of "set received" sym_index] card_length [of received] by simp
  show ?thesis
  proof (cases "k \<le> length dist")
    case True
    have "\<forall>s \<in> set dist. coded k m len xs s" using assms(3) dd(3) by blast
    then show ?thesis using fec_decode_enough [OF assms(1,2) _ dd(1,2) True d] True len all by simp
  next
    case False
    then show ?thesis using d assms(1) len by (simp add: fec_decode_def Let_def codec_ok_def)
  qed
qed


section \<open>Blocks\<close>

lemma source_symbol_ok:
  assumes "i < k" "length data \<le> k * sz"
  shows "source_symbol data sz i = Ok (take sz (drop (i * sz) (data @ replicate (k * sz - length data) 0)))"
proof (cases "i * sz < length data")
  case True
  have "Suc i * sz \<le> k * sz" using assms(1) by (intro mult_right_mono) auto
  then have "sz - (length data - i * sz) \<le> k * sz - length data" using True by simp
  then show ?thesis using True assms(2)
    by (cases "i * sz + sz \<le> length data") (auto simp: source_symbol_def Let_def min_def)
next
  case False
  have "Suc i * sz \<le> k * sz" using assms(1) by (intro mult_right_mono) auto
  then show ?thesis using False by (simp add: source_symbol_def Let_def min_def)
qed

lemma concat_pieces: "n * sz \<le> length p \<Longrightarrow> concat (map (\<lambda>i. take sz (drop (i * sz) p)) [0..<n]) = take (n * sz) p"
proof (induction n)
  case (Suc n)
  then show ?case by (simp add: take_add add.commute [of sz])
qed simp

lemma source_symbols_ok:
  assumes "length data \<le> k * sz"
  shows "\<exists>xs. for_loop (\<lambda>i sources. and_then (source_symbol data sz i) (\<lambda>sym. Ok (sources @ [sym]))) [0..<k] [] = Ok xs
    \<and> sources_ok k sz xs \<and> take (length data) (concat xs) = data"
proof -
  let ?p = "data @ replicate (k * sz - length data) 0"
  let ?x = "\<lambda>i. take sz (drop (i * sz) ?p)"
  let ?I = "\<lambda>i xs. xs = map ?x [0..<i]"
  have "\<exists>xs. for_loop (\<lambda>i sources. and_then (source_symbol data sz i) (\<lambda>sym. Ok (sources @ [sym]))) [0..<k] [] = Ok xs \<and> ?I k xs"
    by (rule for_loop_range [where I = ?I]) (use source_symbol_ok [OF _ assms] in simp_all)
  moreover have "length (?x i) = sz" if "i < k" for i
  proof -
    have "Suc i * sz \<le> k * sz" using that by (intro mult_right_mono) auto
    then show ?thesis using assms by simp
  qed
  then have "sources_ok k sz (map ?x [0..<k])" by (auto simp: sources_ok_def)
  moreover have "concat (map ?x [0..<k]) = ?p" using concat_pieces [of k sz ?p] assms by simp
  then have "take (length data) (concat (map ?x [0..<k])) = data" by simp
  ultimately show ?thesis by blast
qed

lemma symbol_size_bounds:
  fixes n k :: nat
  assumes "0 < k"
  shows "n \<le> k * max ((n + (k - 1)) div k) 1" "k * max ((n + (k - 1)) div k) 1 \<le> n + k"
proof -
  have "k * ((n + (k - 1)) div k) + (n + (k - 1)) mod k = n + (k - 1)" "(n + (k - 1)) mod k < k" using assms by simp_all
  then have d: "n \<le> k * ((n + (k - 1)) div k)" "k * ((n + (k - 1)) div k) \<le> n + k" by linarith+
  have "k * ((n + (k - 1)) div k) \<le> k * max ((n + (k - 1)) div k) 1" by (intro mult_left_mono) auto
  then show "n \<le> k * max ((n + (k - 1)) div k) 1" using d(1) by (rule order_trans [rotated])
  show "k * max ((n + (k - 1)) div k) 1 \<le> n + k" using d(2) by (cases "(n + (k - 1)) div k \<le> 1") (simp_all add: max_def)
qed

lemma encode_block_ok:
  assumes "0 < k" "k + m \<le> 256"
  shows "\<exists>h syms xs. encode_block block_id data k m = Ok (h, syms) \<and> map sym_index syms = [0..<k + m]
    \<and> bh_k h = k \<and> bh_m h = m \<and> bh_original_len h = length data \<and> k * bh_symbol_size h \<le> length data + k
    \<and> sources_ok k (bh_symbol_size h) xs \<and> take (length data) (concat xs) = data \<and> (\<forall>s \<in> set syms. coded k m (bh_symbol_size h) xs s)"
proof -
  define sz where "sz = max ((length data + (k - 1)) div k) 1"
  note sz = symbol_size_bounds [OF assms(1), of "length data", folded sz_def]
  obtain xs where xs: "for_loop (\<lambda>i sources. and_then (source_symbol data sz i) (\<lambda>sym. Ok (sources @ [sym]))) [0..<k] [] = Ok xs"
    "sources_ok k sz xs" "take (length data) (concat xs) = data" using source_symbols_ok [OF sz(1)] by blast
  obtain c where c: "fec_new k m = Ok c" "codec_ok k m c" using fec_new_ok [OF assms] by blast
  obtain rep where rep: "fec_encode c xs = Ok rep" "map sym_index rep = [k..<k + m]" "\<forall>s \<in> set rep. coded k m sz xs s"
    using fec_encode_ok [OF c(2) xs(2)] by blast
  let ?h = "\<lparr>bh_block_id = block_id, bh_original_len = length data, bh_k = k, bh_m = m, bh_symbol_size = sz\<rparr>"
  let ?syms = "map (\<lambda>(i, s). \<lparr>sym_index = i, sym_data = s\<rparr>) (enumerate 0 xs) @ rep"
  have len: "length xs = k" using xs(2) by (simp add: sources_ok_def)
  have "encode_block block_id data k m = Ok (?h, ?syms)"
    using assms(1) xs(1) c(1) rep(1) by (simp add: encode_block_def Let_def sz_def)
  moreover have "map sym_index ?syms = [0..<k + m]"
    using rep(2) len by (simp add: enumerate_upt comp_def upt_add_eq_append [of 0 k m])
  moreover have "\<forall>s \<in> set ?syms. coded k m sz xs s"
    using rep(3) source_coded [OF xs(2)] len by (auto simp: enumerate_upt)
  ultimately show ?thesis using xs(2,3) sz(2) by (intro exI [of _ ?h] exI [of _ ?syms] exI [of _ xs]) simp
qed

lemma decode_block_ok:
  assumes "bh_k h = k" "bh_m h = m" "0 < k" "k + m \<le> 256" "k * bh_symbol_size h < 2 ^ 63"
    and "sources_ok k len xs" "\<forall>s \<in> set received. coded k m len xs s"
  shows "\<exists>rep. decode_block h received
      = Ok (if k \<le> card (sym_index ` set received) then Some (take (bh_original_len h) (concat xs)) else None, rep)
    \<and> rr_is_successful rep = (k \<le> card (sym_index ` set received))"
proof -
  obtain c where c: "fec_new k m = Ok c" "codec_ok k m c" using fec_new_ok [OF assms(3,4)] by blast
  have "k * bh_symbol_size h mod 2 ^ 64 < 2 ^ 63" using assms(5) by simp
  then show ?thesis using assms(1,2) c(1) fec_decode_ok [OF c(2) assms(6,7)] by (simp add: decode_block_def Let_def)
qed


lemma symbols_by_index:
  assumes "map sym_index syms = [0..<n]" "set received \<subseteq> set syms"
  shows "card (sym_index ` set received) = card (set received)"
proof (rule card_image)
  have "inj_on sym_index (set syms)" using assms(1) distinct_upt [of 0 n] by (metis distinct_map)
  then show "inj_on sym_index (set received)" using assms(2) by (rule inj_on_subset)
qed

lemma four_symbols:
  assumes "map sym_index syms = [0..<2 + 2]"
  shows "\<exists>a b c d. syms = [a, b, c, d] \<and> c \<noteq> d"
proof -
  have "map sym_index syms = [0, 1, 2, 3]" using assms by (simp add: upt_rec)
  then show ?thesis by (auto simp: map_eq_Cons_conv)
qed

text \<open>What the report says when a source arrives twice.\<close>

lemma repeated_source_report:
  assumes "length data < 2 ^ 62"
  shows "\<exists>h a b p rep. encode_block block_id data 2 1 = Ok (h, [a, b, p]) \<and> decode_block h [a, a, p] = Ok (Some data, rep)
    \<and> rr_lost_source_count rep = 0 \<and> rr_recovered_source_count rep = 0
    \<and> (\<exists>rep'. decode_block h [a, p] = Ok (Some data, rep') \<and> rr_lost_source_count rep' = 1 \<and> rr_recovered_source_count rep' = 1)"
proof -
  obtain h syms xs where e: "encode_block block_id data 2 1 = Ok (h, syms)" "map sym_index syms = [0..<2 + 1]"
    and h: "bh_k h = 2" "bh_m h = 1" "bh_original_len h = length data" "2 * bh_symbol_size h \<le> length data + 2"
    and xs: "sources_ok 2 (bh_symbol_size h) xs" "take (length data) (concat xs) = data" "\<forall>s \<in> set syms. coded 2 1 (bh_symbol_size h) xs s"
    using encode_block_ok [of 2 1 block_id data] by auto
  have "map sym_index syms = [0, 1, 2]" using e(2) by (simp add: upt_rec)
  then obtain a b p where s: "syms = [a, b, p]" "sym_index a = 0" "sym_index p = 2" by (auto simp: map_eq_Cons_conv)
  obtain c where c: "fec_new 2 1 = Ok c" "codec_ok 2 1 c" using fec_new_ok [of 2 1] by auto
  have "fec_decode c r = Ok (Some xs)" if "set r = {a, p}" for r
    using fec_decode_ok [OF c(2) xs(1), of r] xs(3) s that by auto
  moreover have "2 * bh_symbol_size h mod 2 ^ 64 < 2 ^ 63" using h(4) assms by simp
  ultimately show ?thesis using e(1) s h(1-3) c(1) xs(2) by (simp add: decode_block_def Let_def)
qed


end
