(* ===== verification/Authorization.thy ===== *)
theory Authorization
  imports Virtual_Path Codec "HOL-Library.AList"
begin

unbundle bit_operations_syntax

text \<open>
  Authorization, \<open>auth/mod.rs\<close>: permission sets, roles, grants and the longest-prefix check of
  \<open>FileAuthorizer\<close>, the sliding-window limiter of deletions, and parsing of grants. The text
  of a configuration error is not modelled. The lemmas show that access is denied by
  default, that a grant covers whole components only, which of several grants decides, what
  each role may do, and that no window holds more deletions than its limit.
\<close>

section \<open>Permissions and roles\<close>

datatype velcrux_error = Protocol protocol_error | Config | Internal

datatype perm_set = PermSet (perm_bits: u64)

abbreviation PERM_UPLOAD :: perm_set where "PERM_UPLOAD \<equiv> PermSet (push_bit 0 1)"
abbreviation PERM_DOWNLOAD :: perm_set where "PERM_DOWNLOAD \<equiv> PermSet (push_bit 1 1)"
abbreviation PERM_LIST :: perm_set where "PERM_LIST \<equiv> PermSet (push_bit 2 1)"
abbreviation PERM_DELETE :: perm_set where "PERM_DELETE \<equiv> PermSet (push_bit 3 1)"
abbreviation PERM_SYNC :: perm_set where "PERM_SYNC \<equiv> PermSet (push_bit 4 1)"
abbreviation PERM_RESUME :: perm_set where "PERM_RESUME \<equiv> PermSet (push_bit 5 1)"
abbreviation PERM_ADMIN :: perm_set where "PERM_ADMIN \<equiv> PermSet (push_bit 6 1)"
abbreviation PERM_SYNC_DELETE :: perm_set where "PERM_SYNC_DELETE \<equiv> PermSet (push_bit 7 1)"

definition perm_union :: "perm_set \<Rightarrow> perm_set \<Rightarrow> perm_set" where
  "perm_union a b = PermSet (perm_bits a OR perm_bits b)"

definition perm_has :: "perm_set \<Rightarrow> perm_set \<Rightarrow> bool" where
  "perm_has s p \<longleftrightarrow> perm_bits s AND perm_bits p \<noteq> 0"

definition perm_default :: perm_set where
  "perm_default = PermSet 0"

definition PERM_ALL_TRANSFER :: perm_set where
  "PERM_ALL_TRANSFER =
     PermSet (perm_bits PERM_UPLOAD OR perm_bits PERM_DOWNLOAD OR perm_bits PERM_LIST
       OR perm_bits PERM_SYNC OR perm_bits PERM_RESUME)"

datatype role = Admin | Operator | SyncWriter | SyncReplica | ReadOnly

fun role_permissions :: "role \<Rightarrow> perm_set" where
  "role_permissions Admin =
     perm_union (perm_union (perm_union PERM_ADMIN PERM_ALL_TRANSFER) PERM_DELETE) PERM_SYNC_DELETE"
| "role_permissions Operator = perm_union PERM_ALL_TRANSFER PERM_DELETE"
| "role_permissions SyncWriter =
     perm_union (perm_union (perm_union (perm_union PERM_UPLOAD PERM_DOWNLOAD) PERM_LIST) PERM_SYNC) PERM_RESUME"
| "role_permissions SyncReplica =
     perm_union (perm_union (perm_union (perm_union (perm_union PERM_UPLOAD PERM_DOWNLOAD) PERM_LIST) PERM_SYNC)
       PERM_RESUME) PERM_SYNC_DELETE"
| "role_permissions ReadOnly = perm_union PERM_DOWNLOAD PERM_LIST"

text \<open>
  \<open>str::to_lowercase\<close> differs from its ASCII form on other letters only, and none of those
  becomes a letter of the names matched here.
\<close>

definition role_from_str :: "bytes \<Rightarrow> (velcrux_error, role) res" where
  "role_from_str s =
     (let t = str_replace (lit ''-'') (lit ''_'') (to_ascii_lowercase (trim s)) in
      if t = lit ''admin'' then Ok Admin
      else if t = lit ''operator'' then Ok Operator
      else if t = lit ''sync_writer'' then Ok SyncWriter
      else if t = lit ''sync_replica'' then Ok SyncReplica
      else if t = lit ''read_only'' \<or> t = lit ''readonly'' then Ok ReadOnly
      else Err Config)"

datatype op = OpUpload | OpDownload | OpList | OpDelete | OpSync | OpResume | OpAdmin | OpSyncDelete

fun required_perm :: "op \<Rightarrow> perm_set" where
  "required_perm OpUpload = PERM_UPLOAD"
| "required_perm OpDownload = PERM_DOWNLOAD"
| "required_perm OpList = PERM_LIST"
| "required_perm OpDelete = PERM_DELETE"
| "required_perm OpSync = PERM_SYNC"
| "required_perm OpResume = PERM_RESUME"
| "required_perm OpAdmin = PERM_ADMIN"
| "required_perm OpSyncDelete = PERM_SYNC_DELETE"

section \<open>Deletion policy\<close>

datatype deletion_policy = AdminOnly | ExplicitGrant | Disabled | RateLimited u32 u64

definition deletion_policy_from_str :: "bytes \<Rightarrow> (velcrux_error, deletion_policy) res" where
  "deletion_policy_from_str s =
     (let t = str_replace (lit ''_'') (lit ''-'') (to_ascii_lowercase (trim s)) in
      if t = lit ''admin-only'' \<or> t = lit ''admin'' then Ok AdminOnly
      else if t = lit ''explicit-grant'' \<or> t = lit ''explicit'' then Ok ExplicitGrant
      else if t = lit ''disabled'' \<or> t = lit ''deny'' \<or> t = lit ''none'' then Ok Disabled
      else if t = lit ''rate-limited'' then Ok (RateLimited 60 60)
      else Err Config)"

text \<open>
  The limiter: for every identity the instants of its recent deletions, in nanoseconds. The
  clock reading is an argument; \<open>duration_since\<close> is zero for an instant in the future.
\<close>

type_synonym deletion_limiter = "(bytes \<times> nat list) list"

definition check_and_record ::
  "nat \<Rightarrow> bytes \<Rightarrow> u32 \<Rightarrow> u64 \<Rightarrow> deletion_limiter \<Rightarrow> deletion_limiter \<times> bool" where
  "check_and_record now identity max_deletions window_secs h =
     (let window = unat window_secs * 1000000000;
          timestamps = (case map_of h identity of Some ts \<Rightarrow> ts | None \<Rightarrow> []);
          timestamps = filter (\<lambda>t. now - t \<le> window) timestamps
      in if (word_of_nat (length timestamps) :: u32) \<ge> max_deletions
         then (AList.update identity timestamps h, False)
         else (AList.update identity (timestamps @ [now]) h, True))"

section \<open>Grants\<close>

record identity =
  id_name :: bytes
  id_issuer_fingerprint :: bytes
  id_cert_fingerprint :: bytes
  id_serial_hex :: bytes

record grant =
  gr_identity :: bytes
  gr_path_prefix :: bytes
  gr_permissions :: perm_set

text \<open>\<open>trim_start_matches('/')\<close> and \<open>trim_end_matches('/')\<close>.\<close>

definition trim_slashes :: "bytes \<Rightarrow> bytes" where
  "trim_slashes s = rev (dropWhile (\<lambda>b. b = slash) (rev (dropWhile (\<lambda>b. b = slash) s)))"

definition prefix_match_len :: "bytes \<Rightarrow> bytes \<Rightarrow> nat option" where
  "prefix_match_len grant_prefix path =
     (let gp = trim_slashes grant_prefix in
      if gp = [] then Some 0
      else if path = gp then Some (length gp)
      else if length path > length gp \<and> prefix gp path \<and> path ! length gp = slash then Some (length gp)
      else None)"

fun best_grant ::
  "bytes \<Rightarrow> bytes \<Rightarrow> grant list \<Rightarrow> (grant \<times> nat) option \<Rightarrow> (grant \<times> nat) option" where
  "best_grant name path [] best = best"
| "best_grant name path (g # gs) best =
     (if gr_identity g \<noteq> name then best_grant name path gs best
      else
        best_grant name path gs
          (case prefix_match_len (gr_path_prefix g) path of
             None \<Rightarrow> best
           | Some plen \<Rightarrow>
               (case best of
                  None \<Rightarrow> Some (g, plen)
                | Some (_, b) \<Rightarrow> if plen > b then Some (g, plen) else best)))"

definition op_allowed :: "op \<Rightarrow> perm_set \<Rightarrow> bool" where
  "op_allowed p s \<longleftrightarrow>
     (if p = OpSyncDelete then perm_has s PERM_SYNC_DELETE \<or> (perm_has s PERM_ADMIN \<and> perm_has s PERM_DELETE)
      else perm_has s (required_perm p))"

definition authorizer_check :: "grant list \<Rightarrow> identity \<Rightarrow> op \<Rightarrow> bytes \<Rightarrow> (velcrux_error, vpath) res" where
  "authorizer_check grants who p raw_path =
     (let trimmed = trim_slashes raw_path in
      and_then (if trimmed = [] then
                  (if p = OpSync \<or> p = OpList then Ok (vpath_root, [])
                   else Err (Protocol protocol_error.InvalidPath))
                else
                  and_then (map_err (\<lambda>_. Protocol protocol_error.InvalidPath) (vpath_validate trimmed)) (\<lambda>v.
                  Ok (v, trimmed))) (\<lambda>(vpath, path).
      case best_grant (id_name who) path grants None of
        None \<Rightarrow> Err (Protocol protocol_error.PermissionDenied)
      | Some (g, _) \<Rightarrow>
          if \<not> op_allowed p (gr_permissions g) then Err (Protocol protocol_error.PermissionDenied)
          else Ok vpath))"

fun granted_permissions :: "grant list \<Rightarrow> identity \<Rightarrow> perm_set \<Rightarrow> perm_set" where
  "granted_permissions [] who perms = perms"
| "granted_permissions (g # gs) who perms =
     granted_permissions gs who (if gr_identity g = id_name who then perm_union perms (gr_permissions g) else perms)"

section \<open>Grants from a configuration file\<close>

record grant_toml =
  gt_identity :: bytes
  gt_path :: bytes
  gt_permissions :: "bytes list"
  gt_role :: "bytes option"

definition perm_from_name :: "bytes \<Rightarrow> (velcrux_error, perm_set) res" where
  "perm_from_name p =
     (if p = lit ''upload'' then Ok PERM_UPLOAD
      else if p = lit ''download'' then Ok PERM_DOWNLOAD
      else if p = lit ''list'' then Ok PERM_LIST
      else if p = lit ''delete'' then Ok PERM_DELETE
      else if p = lit ''sync'' then Ok PERM_SYNC
      else if p = lit ''resume'' then Ok PERM_RESUME
      else if p = lit ''admin'' then Ok PERM_ADMIN
      else if p = lit ''sync_delete'' \<or> p = lit ''sync-delete'' then Ok PERM_SYNC_DELETE
      else Err Config)"

fun perms_from_names :: "bytes list \<Rightarrow> perm_set \<Rightarrow> (velcrux_error, perm_set) res" where
  "perms_from_names [] perms = Ok perms"
| "perms_from_names (p # ps) perms =
     and_then (perm_from_name p) (\<lambda>b. perms_from_names ps (perm_union perms b))"

definition normalize_grant_prefix :: "bytes \<Rightarrow> (vpath_error, bytes) res" where
  "normalize_grant_prefix raw =
     (let trimmed = trim_slashes raw in
      if trimmed = [] then Ok []
      else and_then (vpath_validate trimmed) (\<lambda>v. Ok (vpath_str v)))"

definition grant_from_toml :: "grant_toml \<Rightarrow> (velcrux_error, grant) res" where
  "grant_from_toml g =
     and_then (case gt_role g of
                 None \<Rightarrow> Ok perm_default
               | Some r \<Rightarrow> and_then (role_from_str r) (\<lambda>role. Ok (perm_union perm_default (role_permissions role)))) (\<lambda>perms.
     and_then (perms_from_names (gt_permissions g) perms) (\<lambda>perms.
     and_then (map_err (\<lambda>_. Config) (normalize_grant_prefix (gt_path g))) (\<lambda>prefix.
     Ok \<lparr>gr_identity = gt_identity g, gr_path_prefix = prefix, gr_permissions = perms\<rparr>)))"

text \<open>A sequence of deletion requests, and the instants at which one identity was let through.\<close>

fun deletions_allowed ::
  "bytes \<Rightarrow> u32 \<Rightarrow> u64 \<Rightarrow> (bytes \<times> nat) list \<Rightarrow> deletion_limiter \<Rightarrow> nat list" where
  "deletions_allowed who m w [] h = []"
| "deletions_allowed who m w ((i, now) # calls) h =
     (let (h', allowed) = check_and_record now i m w h in
      (if i = who \<and> allowed then [now] else []) @ deletions_allowed who m w calls h')"

text \<open>A grant prefix covers a path when its components start the path's components.\<close>

definition covers :: "bytes \<Rightarrow> bytes \<Rightarrow> bool" where
  "covers gp path \<longleftrightarrow> trim_slashes gp = [] \<or> prefix (components (trim_slashes gp)) (components path)"

section \<open>Prefixes and components\<close>

lemma components_append: "components (s @ slash # t) = components s @ components t"
proof (induction s)
  case (Cons b s)
  obtain c cs where "components s = c # cs" using components_ne by (meson neq_Nil_conv)
  then show ?case using Cons by (auto simp: components_def)
qed (simp add: components_def)

lemma prefix_components_iff:
  "prefix (components gp) (components path) \<longleftrightarrow> path = gp \<or> (\<exists>r. path = gp @ slash # r)"
proof
  assume "prefix (components gp) (components path)"
  then obtain ds where ds: "components path = components gp @ ds" by (auto simp: prefix_def)
  show "path = gp \<or> (\<exists>r. path = gp @ slash # r)"
  proof (cases "ds = []")
    case True
    then show ?thesis using ds components_join by (metis append_Nil2)
  next
    case False
    have j: "join_by slash (cs @ ds) = join_by slash cs @ slash # join_by slash ds" if "cs \<noteq> []" for cs
      using that False
    proof (induction cs)
      case (Cons c cs)
      then show ?case by (cases "cs = []") (simp_all add: join_by_Cons)
    qed simp
    have "path = gp @ slash # join_by slash ds"
      using ds j [of "components gp"] components_join [of path] components_join [of gp] by simp
    then show ?thesis by blast
  qed
qed (auto simp: components_append)

lemma prefix_match_len_eq:
  "prefix_match_len gp path = (if covers gp path then Some (length (trim_slashes gp)) else None)"
proof -
  let ?g = "trim_slashes gp"
  have "(length path > length ?g \<and> prefix ?g path \<and> path ! length ?g = slash) \<longleftrightarrow> (\<exists>r. path = ?g @ slash # r)"
    by (auto simp: prefix_def nth_append) (metis hd_conv_nth hd_Cons_tl length_append less_add_same_cancel1 length_greater_0_conv)
  then show ?thesis
    by (auto simp: prefix_match_len_def covers_def Let_def prefix_components_iff)
qed

section \<open>Which grant decides\<close>

definition candidates :: "bytes \<Rightarrow> bytes \<Rightarrow> grant list \<Rightarrow> grant list" where
  "candidates name path grants = filter (\<lambda>g. gr_identity g = name \<and> covers (gr_path_prefix g) path) grants"

abbreviation grant_len :: "grant \<Rightarrow> nat" where
  "grant_len g \<equiv> length (trim_slashes (gr_path_prefix g))"

definition is_best :: "grant list \<Rightarrow> (grant \<times> nat) option \<Rightarrow> (grant \<times> nat) option \<Rightarrow> bool" where
  "is_best cs best r \<longleftrightarrow>
     (case r of
        None \<Rightarrow> best = None \<and> cs = []
      | Some (g, n) \<Rightarrow> n = grant_len g \<and> (best = Some (g, n) \<or> g \<in> set cs)
          \<and> (\<forall>g' \<in> set cs. grant_len g' \<le> n) \<and> (\<forall>g' n'. best = Some (g', n') \<longrightarrow> n' \<le> n))"

lemma is_best_step:
  assumes "is_best cs (case best of None \<Rightarrow> Some (h, grant_len h)
      | Some (_, b) \<Rightarrow> if grant_len h > b then Some (h, grant_len h) else best) r"
  shows "is_best (h # cs) best r"
  using assms by (auto simp: is_best_def split: option.splits if_splits)

lemma best_grant_spec:
  "\<forall>g n. best = Some (g, n) \<longrightarrow> n = grant_len g \<Longrightarrow> is_best (candidates name path gs) best (best_grant name path gs best)"
proof (induction gs arbitrary: best)
  case Nil
  then show ?case by (auto simp: is_best_def candidates_def split: option.splits)
next
  case (Cons h gs)
  show ?case
  proof (cases "gr_identity h = name \<and> covers (gr_path_prefix h) path")
    case True
    let ?b = "case best of None \<Rightarrow> Some (h, grant_len h)
      | Some (_, b) \<Rightarrow> if grant_len h > b then Some (h, grant_len h) else best"
    have "\<forall>g n. ?b = Some (g, n) \<longrightarrow> n = grant_len g" using Cons.prems by (auto split: option.splits if_splits)
    from is_best_step [OF Cons.IH [OF this]] show ?thesis
      using True by (simp add: prefix_match_len_eq candidates_def)
  next
    case False
    then show ?thesis using Cons by (auto simp: prefix_match_len_eq candidates_def)
  qed
qed

lemma best_grant_None: "best_grant name path gs None = None \<longleftrightarrow> candidates name path gs = []"
  using best_grant_spec [of None name path gs]
  by (cases "best_grant name path gs None") (auto simp: is_best_def)

lemma best_grant_Some:
  "best_grant name path gs None = Some (g, n) \<Longrightarrow>
     g \<in> set (candidates name path gs) \<and> (\<forall>g' \<in> set (candidates name path gs). grant_len g' \<le> grant_len g)"
  using best_grant_spec [of None name path gs] by (auto simp: is_best_def)

lemma candidates_iff:
  "g \<in> set (candidates name path gs) \<longleftrightarrow> g \<in> set gs \<and> gr_identity g = name \<and> covers (gr_path_prefix g) path"
  by (auto simp: candidates_def)

text \<open>
  An accepted request: the path is valid, or the root for the two operations that allow it,
  and the most specific grant of this identity that covers the path allows the operation.
\<close>

lemma authorizer_check_Ok:
  assumes "authorizer_check grants who p raw = Ok v"
  shows "(vpath_ok (vpath_str v) \<or> vpath_str v = [] \<and> (p = OpSync \<or> p = OpList)) \<and> vpath_str v = trim_slashes raw
    \<and> (\<exists>g \<in> set (candidates (id_name who) (vpath_str v) grants). op_allowed p (gr_permissions g)
         \<and> (\<forall>g' \<in> set (candidates (id_name who) (vpath_str v) grants). grant_len g' \<le> grant_len g))"
proof -
  have v: "(vpath_ok (vpath_str v) \<or> vpath_str v = [] \<and> (p = OpSync \<or> p = OpList)) \<and> vpath_str v = trim_slashes raw"
    and "\<exists>g n. best_grant (id_name who) (trim_slashes raw) grants None = Some (g, n) \<and> op_allowed p (gr_permissions g)"
    using assms
    by (auto simp: authorizer_check_def Let_def res_simps vpath_validate_iff vpath_root_def
        split: if_splits option.splits)
  then show ?thesis using best_grant_Some by metis
qed

lemma authorizer_deny:
  "candidates (id_name who) (trim_slashes raw) grants = [] \<Longrightarrow> \<nexists>v. authorizer_check grants who p raw = Ok v"
  using authorizer_check_Ok by fastforce

lemma authorizer_no_panic: "authorizer_check grants who p raw \<noteq> Panic"
  using vpath_validate_no_panic
  by (auto simp: authorizer_check_def Let_def res_simps split: if_splits option.splits)

section \<open>What permissions mean\<close>

lemma perm_has_union: "perm_has (perm_union a b) p \<longleftrightarrow> perm_has a p \<or> perm_has b p"
  by (auto simp: perm_has_def perm_union_def bit_eq_iff bit_and_iff bit_or_iff)

lemma perm_has_granted:
  "perm_has (granted_permissions gs who perms) p \<longleftrightarrow>
     perm_has perms p \<or> (\<exists>g \<in> set gs. gr_identity g = id_name who \<and> perm_has (gr_permissions g) p)"
  by (induction gs arbitrary: perms) (auto simp: perm_has_union)

lemma role_ops:
  "op_allowed p (role_permissions r) \<longleftrightarrow>
     (case p of
        OpDownload \<Rightarrow> True
      | OpList \<Rightarrow> True
      | OpUpload \<Rightarrow> r \<noteq> ReadOnly
      | OpSync \<Rightarrow> r \<noteq> ReadOnly
      | OpResume \<Rightarrow> r \<noteq> ReadOnly
      | OpDelete \<Rightarrow> r = Admin \<or> r = Operator
      | OpSyncDelete \<Rightarrow> r = Admin \<or> r = SyncReplica
      | OpAdmin \<Rightarrow> r = Admin)"
  by (cases r; cases p; hypsubst; code_simp)

section \<open>The deletion limiter\<close>

lemma window_bound_snoc:
  fixes x W :: nat
  assumes "\<forall>t. length (filter (\<lambda>a. a \<le> t \<and> t - a \<le> W) A) \<le> m"
    and "length (filter (\<lambda>a. x - a \<le> W) A) < m"
  shows "length (filter (\<lambda>a. a \<le> t \<and> t - a \<le> W) (A @ [x])) \<le> m"
proof (cases "x \<le> t")
  case True
  then have "t - a \<le> W \<Longrightarrow> x - a \<le> W" for a by (meson diff_le_mono order_trans)
  then have "length (filter (\<lambda>a. a \<le> t \<and> t - a \<le> W) A) \<le> length (filter (\<lambda>a. x - a \<le> W) A)"
    by (induction A) auto
  then show ?thesis using assms(2) by auto
next
  case False
  then show ?thesis using assms(1) by auto
qed

lemma limiter_window:
  assumes "sorted (map snd calls)" and "\<forall>(i, now) \<in> set calls. prev \<le> now"
    and "(case map_of h who of Some ts \<Rightarrow> ts | None \<Rightarrow> []) = filter (\<lambda>a. prev - a \<le> W) A"
    and "W = unat w * 1000000000"
    and "\<forall>t. length (filter (\<lambda>a. a \<le> t \<and> t - a \<le> W) A) \<le> unat m"
    and "length (filter (\<lambda>a. prev - a \<le> W) A) < 2 ^ 32"
  shows "\<forall>t. length (filter (\<lambda>a. a \<le> t \<and> t - a \<le> W) (A @ deletions_allowed who m w calls h)) \<le> unat m"
  using assms
proof (induction calls arbitrary: h prev A)
  case (Cons c calls)
  obtain i now where c: "c = (i, now)" by (cases c)
  have srt: "sorted (map snd calls)" and ge: "prev \<le> now" "\<forall>(i, n) \<in> set calls. now \<le> n" "\<forall>(i, n) \<in> set calls. prev \<le> n"
    using Cons.prems(1,2) by (auto simp: c)
  define ts where "ts = (case map_of h i of Some ts \<Rightarrow> ts | None \<Rightarrow> [])"
  define T where "T = filter (\<lambda>t. now - t \<le> W) ts"
  define allowed where "allowed \<longleftrightarrow> \<not> (word_of_nat (length T) :: u32) \<ge> m"
  have step: "check_and_record now i m w h = (AList.update i (if allowed then T @ [now] else T) h, allowed)"
    by (simp add: check_and_record_def Let_def T_def ts_def allowed_def Cons.prems(4))
  show ?case
  proof (cases "i = who")
    case False
    then show ?thesis using Cons.IH [OF srt ge(3) _ Cons.prems(4,5,6), of "AList.update i (if allowed then T @ [now] else T) h"]
      Cons.prems(3) by (simp add: c step AList.update_conv')
  next
    case True
    have "prev - a \<le> W" if "now - a \<le> W" for a using that ge(1) by (meson diff_le_mono order_trans)
    then have T: "T = filter (\<lambda>a. now - a \<le> W) A"
      using Cons.prems(3) True by (auto simp: T_def ts_def intro: filter_cong)
    have "ts = filter (\<lambda>a. prev - a \<le> W) A" using Cons.prems(3) True by (simp add: ts_def)
    then have "length T \<le> length (filter (\<lambda>a. prev - a \<le> W) A)" unfolding T_def by (metis length_filter_le)
    then have len: "length T < 2 ^ 32" using Cons.prems(6) by simp
    then have ul: "unat (word_of_nat (length T) :: u32) = length T"
      by (simp add: unsigned_of_nat take_bit_nat_eq_self)
    show ?thesis
    proof (cases allowed)
      case False
      then show ?thesis
        using Cons.IH [OF srt ge(2) _ Cons.prems(4,5), of "AList.update i T h"] len T True
        by (simp add: c step [unfolded True] AList.update_conv')
    next
      case a: True
      then have lt: "length T < unat m" using ul by (simp add: allowed_def word_le_nat_alt)
      have "filter (\<lambda>a. now - a \<le> W) (A @ [now]) = T @ [now]" by (simp add: T)
      moreover have "length (T @ [now]) < 2 ^ 32" using lt unat_less_2p [of m] by simp
      moreover have "\<forall>t. length (filter (\<lambda>a. a \<le> t \<and> t - a \<le> W) (A @ [now])) \<le> unat m"
        using window_bound_snoc [OF Cons.prems(5), of now] lt T by blast
      ultimately show ?thesis
        using Cons.IH [OF srt ge(2), of "AList.update i (T @ [now]) h" "A @ [now]"] Cons.prems(4) True a
        by (simp add: c step [unfolded True] AList.update_conv' del: filter_append)
    qed
  qed
qed simp

lemma limiter_bound:
  "sorted (map snd calls) \<Longrightarrow>
     length (filter (\<lambda>a. a \<le> t \<and> t - a \<le> unat w * 1000000000) (deletions_allowed who m w calls [])) \<le> unat m"
  using limiter_window [of calls 0 "[]" who "unat w * 1000000000" "[]" w m] by simp

end
