(* ===== verification/State_Store.thy ===== *)
theory State_Store
  imports Bitmap "HOL-Library.AList" "HOL-Library.Sublist"
begin

text \<open>
  The transfer state of \<open>state/mod.rs\<close> and the in-memory store of \<open>state/mock.rs\<close>. A hash map
  is an association list without duplicate keys, so iteration has some order; no statement
  depends on which. A lock is never poisoned here, because no operation panics while it holds
  one. The clock is an argument. The lemmas show the invariant of the two indexes, the laws of
  the \<open>StateStore\<close> trait (the locale \<open>idempotent_store\<close>), crash recovery, and what pruning
  removes, the wrap-around of its age limit included.
\<close>

section \<open>Definitions\<close>

datatype store_role = Client | Server

datatype transfer_status = Active | Cancelled | Committed | Resumable

datatype direction = Upload | Download

record transfer_record =
  tr_transfer_id :: transfer_id
  tr_idempotency_key :: bytes
  tr_role :: store_role
  tr_direction :: direction
  tr_status :: transfer_status
  tr_remote_path :: bytes
  tr_local_path :: bytes
  tr_file_size :: u64
  tr_file_hash :: hash
  tr_verified_up_to :: u64
  tr_last_checkpoint_ms :: u64
  tr_bytes_completed :: u64
  tr_staging_relpath :: bytes
  tr_created_ms :: u64
  tr_updated_ms :: u64

datatype commit_status = Commit_Pending | Commit_Renamed | Commit_Committed

record commit_journal_entry =
  cj_transfer_id :: transfer_id
  cj_file_id :: u64
  cj_remote_path :: bytes
  cj_status :: commit_status
  cj_updated_ms :: u64

text \<open>\<open>IdempotencyConflict\<close> carries what its message prints: the key and the other transfer.\<close>

datatype state_store_error = NotFound | IdempotencyConflict bytes transfer_id | Corrupt string

datatype journal_recovery = Finalize transfer_id u64 | LeavePending transfer_id u64

datatype upsert_outcome = Inserted | Reused transfer_record

record state_store =
  ss_transfers :: "(transfer_id \<times> transfer_record) list"
  ss_idem :: "((store_role \<times> bytes) \<times> transfer_id) list"
  ss_bitmaps :: "(transfer_id \<times> chunk_bitmap) list"
  ss_journal :: "((transfer_id \<times> u64) \<times> commit_journal_entry) list"

definition ss_new :: state_store where
  "ss_new = \<lparr>ss_transfers = [], ss_idem = [], ss_bitmaps = [], ss_journal = []\<rparr>"

definition verify_idempotency_compat :: "transfer_record \<Rightarrow> transfer_record \<Rightarrow> (state_store_error, unit) res" where
  "verify_idempotency_compat existing request =
     (if tr_role existing \<noteq> tr_role request \<or> tr_direction existing \<noteq> tr_direction request
         \<or> tr_remote_path existing \<noteq> tr_remote_path request
         \<or> tr_local_path existing \<noteq> tr_local_path request
         \<or> tr_file_size existing \<noteq> tr_file_size request
         \<or> tr_file_hash existing \<noteq> tr_file_hash request
      then Err (IdempotencyConflict (tr_idempotency_key request) (tr_transfer_id existing))
      else Ok ())"

definition ss_upsert_transfer ::
  "transfer_record \<Rightarrow> state_store \<Rightarrow> state_store \<times> (state_store_error, upsert_outcome) res" where
  "ss_upsert_transfer r s =
     (case map_of (ss_idem s) (tr_role r, tr_idempotency_key r) of
        Some existing_id \<Rightarrow>
          (s, and_then (ok_or (map_of (ss_transfers s) existing_id)
                 (Corrupt ''idempotency index points at missing transfer'')) (\<lambda>existing.
              and_then (verify_idempotency_compat existing r) (\<lambda>_. Ok (Reused existing))))
      | None \<Rightarrow>
          (s\<lparr>ss_transfers := AList.update (tr_transfer_id r) r (ss_transfers s),
             ss_idem := AList.update (tr_role r, tr_idempotency_key r) (tr_transfer_id r) (ss_idem s)\<rparr>,
           Ok Inserted))"

definition ss_update_transfer ::
  "transfer_record \<Rightarrow> state_store \<Rightarrow> state_store \<times> (state_store_error, unit) res" where
  "ss_update_transfer r s =
     (if map_of (ss_transfers s) (tr_transfer_id r) = None then (s, Err NotFound)
      else
        (s\<lparr>ss_transfers := AList.update (tr_transfer_id r) r (ss_transfers s),
           ss_idem := AList.update (tr_role r, tr_idempotency_key r) (tr_transfer_id r) (ss_idem s)\<rparr>,
         Ok ()))"

definition ss_get_transfer :: "transfer_id \<Rightarrow> state_store \<Rightarrow> (state_store_error, transfer_record) res" where
  "ss_get_transfer tid s = ok_or (map_of (ss_transfers s) tid) NotFound"

definition ss_get_by_idempotency ::
  "store_role \<Rightarrow> bytes \<Rightarrow> state_store \<Rightarrow> (state_store_error, transfer_record) res" where
  "ss_get_by_idempotency role key s =
     and_then (ok_or (map_of (ss_idem s) (role, key)) NotFound) (\<lambda>tid.
     ok_or (map_of (ss_transfers s) tid) NotFound)"

definition ss_list_by_path :: "store_role \<Rightarrow> bytes \<Rightarrow> state_store \<Rightarrow> transfer_record list" where
  "ss_list_by_path role path_prefix s =
     sort_key tr_created_ms
       (filter (\<lambda>r. tr_role r = role \<and> prefix path_prefix (tr_remote_path r)) (map snd (ss_transfers s)))"

definition ss_write_bitmap ::
  "transfer_id \<Rightarrow> chunk_bitmap \<Rightarrow> state_store \<Rightarrow> state_store \<times> (state_store_error, unit) res" where
  "ss_write_bitmap tid bm s =
     (if map_of (ss_transfers s) tid = None then (s, Err NotFound)
      else (s\<lparr>ss_bitmaps := AList.update tid bm (ss_bitmaps s)\<rparr>, Ok ()))"

definition ss_read_bitmap :: "transfer_id \<Rightarrow> state_store \<Rightarrow> (state_store_error, chunk_bitmap) res" where
  "ss_read_bitmap tid s =
     (if map_of (ss_transfers s) tid = None then Err NotFound
      else ok_or (map_of (ss_bitmaps s) tid) NotFound)"

definition ss_delete_bitmap :: "transfer_id \<Rightarrow> state_store \<Rightarrow> state_store" where
  "ss_delete_bitmap tid s = s\<lparr>ss_bitmaps := AList.delete tid (ss_bitmaps s)\<rparr>"

definition ss_write_journal :: "commit_journal_entry \<Rightarrow> state_store \<Rightarrow> state_store" where
  "ss_write_journal e s = s\<lparr>ss_journal := AList.update (cj_transfer_id e, cj_file_id e) e (ss_journal s)\<rparr>"

definition ss_pending_journal :: "state_store \<Rightarrow> commit_journal_entry list" where
  "ss_pending_journal s = filter (\<lambda>e. cj_status e \<noteq> Commit_Committed) (map snd (ss_journal s))"

definition ss_mark_journal_committed ::
  "transfer_id \<Rightarrow> u64 \<Rightarrow> state_store \<Rightarrow> state_store \<times> (state_store_error, unit) res" where
  "ss_mark_journal_committed tid fid s =
     (case map_of (ss_journal s) (tid, fid) of
        None \<Rightarrow> (s, Err NotFound)
      | Some e \<Rightarrow>
          (s\<lparr>ss_journal := AList.update (tid, fid) (e\<lparr>cj_status := Commit_Committed\<rparr>) (ss_journal s)\<rparr>, Ok ()))"

definition ss_drop_rows :: "transfer_id \<Rightarrow> state_store \<Rightarrow> state_store" where
  "ss_drop_rows tid s =
     s\<lparr>ss_transfers := AList.delete tid (ss_transfers s),
       ss_idem := (case map_of (ss_transfers s) tid of
                     Some r \<Rightarrow> AList.delete (tr_role r, tr_idempotency_key r) (ss_idem s)
                   | None \<Rightarrow> ss_idem s),
       ss_bitmaps := AList.delete tid (ss_bitmaps s),
       ss_journal := filter (\<lambda>((t, f), e). t \<noteq> tid) (ss_journal s)\<rparr>"

definition ss_delete_transfer :: "transfer_id \<Rightarrow> state_store \<Rightarrow> state_store" where
  "ss_delete_transfer tid s = ss_drop_rows tid s"

text \<open>The \<open>unreachable!()\<close> arm of the source is a panic.\<close>

definition recovery_action :: "commit_journal_entry \<Rightarrow> (state_store_error, journal_recovery) res" where
  "recovery_action e =
     (case cj_status e of
        Commit_Renamed \<Rightarrow> Ok (Finalize (cj_transfer_id e) (cj_file_id e))
      | Commit_Pending \<Rightarrow> Ok (LeavePending (cj_transfer_id e) (cj_file_id e))
      | Commit_Committed \<Rightarrow> Panic)"

fun map_res :: "('a \<Rightarrow> ('e, 'b) res) \<Rightarrow> 'a list \<Rightarrow> ('e, 'b list) res" where
  "map_res f [] = Ok []"
| "map_res f (x # xs) = and_then (f x) (\<lambda>y. and_then (map_res f xs) (\<lambda>ys. Ok (y # ys)))"

definition ss_recover_commit_journal :: "state_store \<Rightarrow> (state_store_error, journal_recovery list) res" where
  "ss_recover_commit_journal s =
     map_res recovery_action (filter (\<lambda>e. cj_status e \<noteq> Commit_Committed) (map snd (ss_journal s)))"

definition ss_mark_active_resumable :: "u64 \<Rightarrow> state_store \<Rightarrow> state_store \<times> nat" where
  "ss_mark_active_resumable now s =
     (s\<lparr>ss_transfers := map (\<lambda>(k, r). (k, if tr_status r = Active
                                         then r\<lparr>tr_status := Resumable, tr_updated_ms := now\<rparr> else r))
                         (ss_transfers s)\<rparr>,
      length (filter (\<lambda>(k, r). tr_status r = Active) (ss_transfers s)))"

definition ss_list_resumable :: "store_role option \<Rightarrow> state_store \<Rightarrow> transfer_record list" where
  "ss_list_resumable role s =
     rev (sort_key tr_updated_ms (rev
       (filter (\<lambda>r. case role of Some target \<Rightarrow> tr_role r = target | None \<Rightarrow> True)
          (filter (\<lambda>r. tr_status r = Resumable) (map snd (ss_transfers s))))))"

definition ss_prune_stale :: "u64 \<Rightarrow> u64 \<Rightarrow> state_store \<Rightarrow> state_store \<times> nat" where
  "ss_prune_stale now_ms max_age_secs s =
     (let cutoff_ms = saturating_sub now_ms (max_age_secs * 1000);
          stale_tids = map tr_transfer_id
            (filter (\<lambda>r. (tr_status r = Committed \<or> tr_status r = Cancelled) \<and> tr_updated_ms r < cutoff_ms)
               (map snd (ss_transfers s)))
      in (fold ss_drop_rows stale_tids s, length stale_tids))"

text \<open>
  The startup of the server (\<open>velcrux-server/src/server.rs\<close>): every recovery action is carried
  out, errors ignored, then what is still active becomes resumable.
\<close>

fun recover_one :: "journal_recovery \<Rightarrow> state_store \<Rightarrow> state_store" where
  "recover_one (Finalize tid fid) s =
     (let s = fst (ss_mark_journal_committed tid fid s) in
      case ss_get_transfer tid s of
        Ok r \<Rightarrow> fst (ss_update_transfer (r\<lparr>tr_status := Committed\<rparr>) s)
      | _ \<Rightarrow> s)"
| "recover_one (LeavePending tid fid) s =
     (case ss_get_transfer tid s of
        Ok r \<Rightarrow> if tr_status r = Active then fst (ss_update_transfer (r\<lparr>tr_status := Resumable\<rparr>) s) else s
      | _ \<Rightarrow> s)"

definition startup_recovery :: "u64 \<Rightarrow> state_store \<Rightarrow> state_store" where
  "startup_recovery now s =
     fst (ss_mark_active_resumable now
       (case ss_recover_commit_journal s of Ok actions \<Rightarrow> fold recover_one actions s | _ \<Rightarrow> s))"

text \<open>The invariant: no duplicate keys, and the two indexes describe each other.\<close>

definition linked ::
  "(transfer_id \<Rightarrow> transfer_record option) \<Rightarrow> (store_role \<times> bytes \<Rightarrow> transfer_id option) \<Rightarrow> bool" where
  "linked t i \<longleftrightarrow>
     (\<forall>tid r. t tid = Some r \<longrightarrow> tr_transfer_id r = tid \<and> i (tr_role r, tr_idempotency_key r) = Some tid)
     \<and> (\<forall>k tid. i k = Some tid \<longrightarrow> (\<exists>r. t tid = Some r \<and> (tr_role r, tr_idempotency_key r) = k))"

definition ss_inv :: "state_store \<Rightarrow> bool" where
  "ss_inv s \<longleftrightarrow>
     distinct (map fst (ss_transfers s)) \<and> distinct (map fst (ss_idem s))
     \<and> distinct (map fst (ss_bitmaps s)) \<and> distinct (map fst (ss_journal s))
     \<and> linked (map_of (ss_transfers s)) (map_of (ss_idem s))
     \<and> dom (map_of (ss_bitmaps s)) \<subseteq> dom (map_of (ss_transfers s))
     \<and> (\<forall>k e. map_of (ss_journal s) k = Some e \<longrightarrow> k = (cj_transfer_id e, cj_file_id e))"

section \<open>The contract of a store\<close>

text \<open>
  What the callers of \<open>upsert_transfer\<close> and \<open>get_transfer_by_idempotency\<close> rely on: an unknown key
  is recorded, a known one returns its record or is refused, and nothing else changes.
\<close>

locale idempotent_store =
  fixes upsert :: "transfer_record \<Rightarrow> 's \<Rightarrow> 's \<times> (state_store_error, upsert_outcome) res"
    and lookup :: "store_role \<Rightarrow> bytes \<Rightarrow> 's \<Rightarrow> (state_store_error, transfer_record) res"
    and inv :: "'s \<Rightarrow> bool"
    and fresh :: "transfer_id \<Rightarrow> 's \<Rightarrow> bool"
  assumes lookup_cases: "inv s \<Longrightarrow> lookup role key s = Err NotFound \<or> (\<exists>e. lookup role key s = Ok e)"
    and known: "inv s \<Longrightarrow> lookup (tr_role r) (tr_idempotency_key r) s = Ok e \<Longrightarrow>
      upsert r s = (s, and_then (verify_idempotency_compat e r) (\<lambda>_. Ok (Reused e)))"
    and unknown: "inv s \<Longrightarrow> lookup (tr_role r) (tr_idempotency_key r) s = Err NotFound \<Longrightarrow> fresh (tr_transfer_id r) s \<Longrightarrow>
      \<exists>s'. upsert r s = (s', Ok Inserted) \<and> inv s' \<and>
        (\<forall>role key. lookup role key s' =
           (if (role, key) = (tr_role r, tr_idempotency_key r) then Ok r else lookup role key s))"
begin

text \<open>After an accepted request the key names one record, and a retry returns it.\<close>

lemma retry:
  assumes "inv s" and "fresh (tr_transfer_id r) s" and "upsert r s = (s', Ok out)"
  shows "\<exists>e. lookup (tr_role r) (tr_idempotency_key r) s' = Ok e \<and> inv s'
    \<and> verify_idempotency_compat e r = Ok ()
    \<and> (\<forall>r'. tr_role r' = tr_role r \<and> tr_idempotency_key r' = tr_idempotency_key r \<longrightarrow>
         upsert r' s' = (s', and_then (verify_idempotency_compat e r') (\<lambda>_. Ok (Reused e))))"
proof (cases "\<exists>e. lookup (tr_role r) (tr_idempotency_key r) s = Ok e")
  case True
  then obtain e where e: "lookup (tr_role r) (tr_idempotency_key r) s = Ok e" by blast
  with known [OF assms(1)] assms(3)
  have "s' = s" "verify_idempotency_compat e r = Ok ()" by (auto simp: res_simps)
  then show ?thesis using e known [OF assms(1)] assms(1) by metis
next
  case False
  then have "lookup (tr_role r) (tr_idempotency_key r) s = Err NotFound" using lookup_cases [OF assms(1)] by blast
  from unknown [OF assms(1) this assms(2)] assms(3)
  have s': "inv s'" "lookup (tr_role r) (tr_idempotency_key r) s' = Ok r" by auto
  moreover have "verify_idempotency_compat r r = Ok ()" by (simp add: verify_idempotency_compat_def)
  ultimately show ?thesis using known [OF s'(1)] by metis
qed

end

section \<open>The invariant\<close>

lemma linked_index: "linked t i \<Longrightarrow> t tid = Some r \<Longrightarrow> tr_transfer_id r = tid \<and> i (tr_role r, tr_idempotency_key r) = Some tid"
  by (simp add: linked_def)

lemma linked_target: "linked t i \<Longrightarrow> i k = Some tid \<Longrightarrow> \<exists>r. t tid = Some r \<and> (tr_role r, tr_idempotency_key r) = k"
  unfolding linked_def by blast

lemma linkedI:
  assumes "\<And>tid r. t tid = Some r \<Longrightarrow> tr_transfer_id r = tid \<and> i (tr_role r, tr_idempotency_key r) = Some tid"
    and "\<And>k tid. i k = Some tid \<Longrightarrow> \<exists>r. t tid = Some r \<and> (tr_role r, tr_idempotency_key r) = k"
  shows "linked t i"
  unfolding linked_def using assms by blast

lemma linked_insert:
  "linked t i \<Longrightarrow> t (tr_transfer_id r) = None \<Longrightarrow> i (tr_role r, tr_idempotency_key r) = None \<Longrightarrow>
     linked (t(tr_transfer_id r \<mapsto> r)) (i((tr_role r, tr_idempotency_key r) \<mapsto> tr_transfer_id r))"
  by (force simp: linked_def)

lemma linked_remove:
  assumes l: "linked t i" and r: "t tid = Some r"
  shows "linked (t(tid := None)) (i((tr_role r, tr_idempotency_key r) := None))"
proof (rule linkedI)
  fix tid' r'
  assume "(t(tid := None)) tid' = Some r'"
  then show "tr_transfer_id r' = tid' \<and>
      (i((tr_role r, tr_idempotency_key r) := None)) (tr_role r', tr_idempotency_key r') = Some tid'"
    using linked_index [OF l, of tid' r'] linked_index [OF l r] by (auto split: if_splits)
next
  fix k tid'
  assume "(i((tr_role r, tr_idempotency_key r) := None)) k = Some tid'"
  then have k: "k \<noteq> (tr_role r, tr_idempotency_key r)" "i k = Some tid'" by (auto split: if_splits)
  from linked_target [OF l k(2)] obtain r' where "t tid' = Some r'" "(tr_role r', tr_idempotency_key r') = k" by blast
  then show "\<exists>r'. (t(tid := None)) tid' = Some r' \<and> (tr_role r', tr_idempotency_key r') = k" using k(1) r by auto
qed

lemma linked_update:
  assumes l: "linked t i" and old: "t (tr_transfer_id r) = Some old"
    and "tr_role old = tr_role r" "tr_idempotency_key old = tr_idempotency_key r"
  shows "linked (t(tr_transfer_id r \<mapsto> r)) (i((tr_role r, tr_idempotency_key r) \<mapsto> tr_transfer_id r))"
proof -
  have "i (tr_role r, tr_idempotency_key r) = Some (tr_transfer_id r)" using linked_index [OF l old] assms(3,4) by simp
  then have i: "i((tr_role r, tr_idempotency_key r) \<mapsto> tr_transfer_id r) = i" by (simp add: fun_upd_idem)
  show ?thesis unfolding i
  proof (rule linkedI)
    fix tid r'
    assume "(t(tr_transfer_id r \<mapsto> r)) tid = Some r'"
    then show "tr_transfer_id r' = tid \<and> i (tr_role r', tr_idempotency_key r') = Some tid"
      using linked_index [OF l, of tid r'] linked_index [OF l old] assms(3,4) by (auto split: if_splits)
  next
    fix k tid
    assume "i k = Some tid"
    from linked_target [OF l this] show "\<exists>r'. (t(tr_transfer_id r \<mapsto> r)) tid = Some r' \<and> (tr_role r', tr_idempotency_key r') = k"
      using old assms(3,4) by auto
  qed
qed

lemma linked_map:
  "linked t i \<Longrightarrow> (\<And>r. tr_transfer_id (f r) = tr_transfer_id r \<and> tr_role (f r) = tr_role r
      \<and> tr_idempotency_key (f r) = tr_idempotency_key r) \<Longrightarrow> linked (\<lambda>k. map_option f (t k)) i"
  by (force simp: linked_def)

lemma ss_inv_new: "ss_inv ss_new"
  by (simp add: ss_inv_def ss_new_def linked_def)

lemmas ss_maps = AList.update_conv' AList.delete_conv' AList.distinct_update AList.distinct_delete

lemma ss_upsert_inv:
  assumes "ss_inv s" and "map_of (ss_transfers s) (tr_transfer_id r) = None"
  shows "ss_inv (fst (ss_upsert_transfer r s))"
proof (cases "map_of (ss_idem s) (tr_role r, tr_idempotency_key r)")
  case None
  then show ?thesis using assms
    by (auto simp: ss_upsert_transfer_def ss_inv_def ss_maps linked_insert)
next
  case (Some a)
  then show ?thesis using assms(1) by (simp add: ss_upsert_transfer_def)
qed

lemma ss_update_inv:
  assumes "ss_inv s"
    and "\<forall>old. map_of (ss_transfers s) (tr_transfer_id r) = Some old \<longrightarrow>
           tr_role old = tr_role r \<and> tr_idempotency_key old = tr_idempotency_key r"
  shows "ss_inv (fst (ss_update_transfer r s))"
proof (cases "map_of (ss_transfers s) (tr_transfer_id r)")
  case (Some old)
  then have "linked ((map_of (ss_transfers s))(tr_transfer_id r \<mapsto> r))
      ((map_of (ss_idem s))((tr_role r, tr_idempotency_key r) \<mapsto> tr_transfer_id r))"
    using assms by (intro linked_update [where old = old]) (auto simp: ss_inv_def)
  then show ?thesis using Some assms(1) by (auto simp: ss_update_transfer_def ss_inv_def ss_maps)
next
  case None
  then show ?thesis using assms(1) by (simp add: ss_update_transfer_def)
qed

lemma ss_bitmap_inv:
  "ss_inv s \<Longrightarrow> ss_inv (fst (ss_write_bitmap tid bm s))" "ss_inv s \<Longrightarrow> ss_inv (ss_delete_bitmap tid s)"
  by (auto simp: ss_inv_def ss_write_bitmap_def ss_delete_bitmap_def ss_maps simp del: map_of_eq_Some_iff)

lemma ss_journal_inv:
  "ss_inv s \<Longrightarrow> ss_inv (ss_write_journal e s)"
  "ss_inv s \<Longrightarrow> ss_inv (fst (ss_mark_journal_committed tid fid s))"
  by (auto simp: ss_inv_def ss_write_journal_def ss_mark_journal_committed_def ss_maps simp del: map_of_eq_Some_iff
      split: option.splits)

lemma distinct_filter_keys: "distinct (map fst xs) \<Longrightarrow> distinct (map fst (filter P xs))"
  by (induction xs) auto

lemma map_of_filter_keys: "map_of (filter (\<lambda>((t, f), e). t \<noteq> tid) j) k = (if fst k = tid then None else map_of j k)"
  by (induction j) auto

lemma ss_drop_rows_inv: "ss_inv s \<Longrightarrow> ss_inv (ss_drop_rows tid s)"
proof (cases "map_of (ss_transfers s) tid")
  case None
  moreover assume "ss_inv s"
  ultimately show ?thesis
    by (auto simp: ss_drop_rows_def ss_inv_def ss_maps distinct_filter_keys map_of_filter_keys fun_upd_idem simp del: map_of_eq_Some_iff)
next
  case (Some r)
  moreover assume inv: "ss_inv s"
  moreover have "linked ((map_of (ss_transfers s))(tid := None)) ((map_of (ss_idem s))((tr_role r, tr_idempotency_key r) := None))"
    using inv Some by (intro linked_remove) (simp_all add: ss_inv_def)
  ultimately show ?thesis
    by (auto simp: ss_drop_rows_def ss_inv_def ss_maps distinct_filter_keys map_of_filter_keys simp del: map_of_eq_Some_iff)
qed

lemma ss_fold_drop_inv: "ss_inv s \<Longrightarrow> ss_inv (fold ss_drop_rows tids s)"
  by (induction tids arbitrary: s) (simp_all add: ss_drop_rows_inv)

lemma ss_prune_inv: "ss_inv s \<Longrightarrow> ss_inv (fst (ss_prune_stale now age s))"
  by (simp add: ss_prune_stale_def Let_def ss_fold_drop_inv)

lemma map_of_mapped: "map_of (map (\<lambda>(k, r). (k, f r)) xs) = (\<lambda>k. map_option f (map_of xs k))"
  by (induction xs) auto

lemma keys_mapped: "map fst (map (\<lambda>(k, r). (k, f r)) xs) = map fst xs"
  by (induction xs) auto

lemma ss_mark_active_inv: "ss_inv s \<Longrightarrow> ss_inv (fst (ss_mark_active_resumable now s))"
proof -
  let ?f = "\<lambda>r. if tr_status r = Active then r\<lparr>tr_status := Resumable, tr_updated_ms := now\<rparr> else r"
  assume inv: "ss_inv s"
  then have "linked (\<lambda>k. map_option ?f (map_of (ss_transfers s) k)) (map_of (ss_idem s))"
    by (intro linked_map) (auto simp: ss_inv_def)
  moreover have "dom (\<lambda>k. map_option ?f (map_of (ss_transfers s) k)) = dom (map_of (ss_transfers s))"
    by (auto simp: dom_def)
  ultimately show ?thesis
    using inv by (simp add: ss_mark_active_resumable_def ss_inv_def map_of_mapped keys_mapped del: map_map)
qed

section \<open>The laws of the contract\<close>

interpretation mock: idempotent_store ss_upsert_transfer ss_get_by_idempotency ss_inv
  "\<lambda>tid s. map_of (ss_transfers s) tid = None"
proof unfold_locales
  fix s role key
  assume "ss_inv s"
  then show "ss_get_by_idempotency role key s = Err NotFound \<or> (\<exists>e. ss_get_by_idempotency role key s = Ok e)"
    by (cases "map_of (ss_idem s) (role, key)") (auto simp: ss_get_by_idempotency_def ok_or_def split: option.splits)
next
  fix s and r e :: transfer_record
  assume "ss_inv s" and "ss_get_by_idempotency (tr_role r) (tr_idempotency_key r) s = Ok e"
  then show "ss_upsert_transfer r s = (s, and_then (verify_idempotency_compat e r) (\<lambda>_. Ok (Reused e)))"
    by (auto simp: ss_get_by_idempotency_def ss_upsert_transfer_def res_simps)
next
  fix s and r :: transfer_record
  assume a: "ss_inv s" "ss_get_by_idempotency (tr_role r) (tr_idempotency_key r) s = Err NotFound"
    "map_of (ss_transfers s) (tr_transfer_id r) = None"
  have idem: "map_of (ss_idem s) (tr_role r, tr_idempotency_key r) = None"
  proof (cases "map_of (ss_idem s) (tr_role r, tr_idempotency_key r)")
    case (Some tid)
    have "linked (map_of (ss_transfers s)) (map_of (ss_idem s))" using a(1) by (simp add: ss_inv_def)
    from linked_target [OF this Some] obtain e where "map_of (ss_transfers s) tid = Some e" by blast
    with Some a(2) show ?thesis by (simp add: ss_get_by_idempotency_def del: map_of_eq_Some_iff)
  qed
  let ?s = "fst (ss_upsert_transfer r s)"
  have "ss_upsert_transfer r s = (?s, Ok Inserted)" using idem by (simp add: ss_upsert_transfer_def)
  moreover have "ss_inv ?s" by (rule ss_upsert_inv [OF a(1,3)])
  moreover have "ss_get_by_idempotency role key ?s =
      (if (role, key) = (tr_role r, tr_idempotency_key r) then Ok r else ss_get_by_idempotency role key s)" for role key
  proof (cases "map_of (ss_idem s) (role, key)")
    case None
    then show ?thesis using idem by (auto simp: ss_get_by_idempotency_def ss_upsert_transfer_def ss_maps)
  next
    case (Some tid)
    then have "tid \<noteq> tr_transfer_id r"
      using linked_target [of "map_of (ss_transfers s)" "map_of (ss_idem s)", OF _ Some] a(1,3)
      by (auto simp: ss_inv_def simp del: map_of_eq_Some_iff)
    then show ?thesis using Some idem by (auto simp: ss_get_by_idempotency_def ss_upsert_transfer_def ss_maps)
  qed
  ultimately show "\<exists>s'. ss_upsert_transfer r s = (s', Ok Inserted) \<and> ss_inv s' \<and>
      (\<forall>role key. ss_get_by_idempotency role key s' =
         (if (role, key) = (tr_role r, tr_idempotency_key r) then Ok r else ss_get_by_idempotency role key s))"
    by blast
qed

section \<open>Recovery of the commit journal\<close>

lemma map_res_eq_Ok: "(\<And>x. x \<in> set xs \<Longrightarrow> f x = Ok (g x)) \<Longrightarrow> map_res f xs = Ok (map g xs)"
  by (induction xs) auto

definition journal_action :: "commit_journal_entry \<Rightarrow> journal_recovery" where
  "journal_action e =
     (if cj_status e = Commit_Renamed then Finalize (cj_transfer_id e) (cj_file_id e)
      else LeavePending (cj_transfer_id e) (cj_file_id e))"

lemma ss_recover_eq: "ss_recover_commit_journal s = Ok (map journal_action (ss_pending_journal s))"
  unfolding ss_recover_commit_journal_def ss_pending_journal_def
proof (rule map_res_eq_Ok)
  fix e
  assume "e \<in> set (filter (\<lambda>e. cj_status e \<noteq> Commit_Committed) (map snd (ss_journal s)))"
  then show "recovery_action e = Ok (journal_action e)"
    by (cases "cj_status e") (auto simp: recovery_action_def journal_action_def)
qed

lemma mark_journal_map:
  "map_of (ss_journal (fst (ss_mark_journal_committed t f s))) k =
     (if k = (t, f) then map_option (\<lambda>e. e\<lparr>cj_status := Commit_Committed\<rparr>) (map_of (ss_journal s) k)
      else map_of (ss_journal s) k)"
  by (auto simp: ss_mark_journal_committed_def ss_maps split: option.splits)

lemma update_journal [simp]: "ss_journal (fst (ss_update_transfer r s)) = ss_journal s"
  by (simp add: ss_update_transfer_def)

lemma mark_transfers [simp]: "ss_transfers (fst (ss_mark_journal_committed t f s)) = ss_transfers s"
  by (simp add: ss_mark_journal_committed_def split: option.splits)

lemma ss_inv_id: "ss_inv s \<Longrightarrow> map_of (ss_transfers s) tid = Some r \<Longrightarrow> tr_transfer_id r = tid"
  using linked_index unfolding ss_inv_def by blast

lemma update_status:
  assumes "ss_inv s" and "map_of (ss_transfers s) tid = Some r"
  shows "ss_inv (fst (ss_update_transfer (r\<lparr>tr_status := st\<rparr>) s))"
    and "map_of (ss_transfers (fst (ss_update_transfer (r\<lparr>tr_status := st\<rparr>) s))) =
           (map_of (ss_transfers s))(tid \<mapsto> r\<lparr>tr_status := st\<rparr>)"
  using assms ss_inv_id [OF assms] ss_update_inv [OF assms(1), of "r\<lparr>tr_status := st\<rparr>"]
  by (simp_all add: ss_update_transfer_def ss_maps del: map_of_eq_Some_iff)

text \<open>What a list of actions does to one transfer and to one journal row.\<close>

definition recovered :: "journal_recovery list \<Rightarrow> transfer_id \<Rightarrow> transfer_record \<Rightarrow> transfer_record" where
  "recovered as tid r =
     (if \<exists>f. Finalize tid f \<in> set as then r\<lparr>tr_status := Committed\<rparr>
      else if tr_status r = Active \<and> (\<exists>f. LeavePending tid f \<in> set as) then r\<lparr>tr_status := Resumable\<rparr>
      else r)"

lemma recover_one_spec:
  assumes "ss_inv s"
  shows "ss_inv (recover_one a s)"
    and "map_of (ss_transfers (recover_one a s)) tid = map_option (recovered [a] tid) (map_of (ss_transfers s) tid)"
    and "map_of (ss_journal (recover_one a s)) k =
           (if a = Finalize (fst k) (snd k)
            then map_option (\<lambda>e. e\<lparr>cj_status := Commit_Committed\<rparr>) (map_of (ss_journal s) k)
            else map_of (ss_journal s) k)"
proof -
  have "ss_inv (recover_one a s)
    \<and> map_of (ss_transfers (recover_one a s)) tid = map_option (recovered [a] tid) (map_of (ss_transfers s) tid)
    \<and> map_of (ss_journal (recover_one a s)) k =
           (if a = Finalize (fst k) (snd k)
            then map_option (\<lambda>e. e\<lparr>cj_status := Commit_Committed\<rparr>) (map_of (ss_journal s) k)
            else map_of (ss_journal s) k)" for tid k
  proof (cases a)
    case (Finalize t f)
    let ?s = "fst (ss_mark_journal_committed t f s)"
    have inv: "ss_inv ?s" by (rule ss_journal_inv(2) [OF assms])
    show ?thesis
    proof (cases "map_of (ss_transfers s) t")
      case None
      then show ?thesis using inv
        by (cases "map_of (ss_transfers s) tid")
          (auto simp: Finalize ss_get_transfer_def mark_journal_map recovered_def simp del: map_of_eq_Some_iff)
    next
      case (Some r)
      then have r: "map_of (ss_transfers ?s) t = Some r" by simp
      show ?thesis using Some update_status [OF inv r, of Committed]
        by (cases "map_of (ss_transfers s) tid")
          (auto simp: Finalize ss_get_transfer_def mark_journal_map recovered_def simp del: map_of_eq_Some_iff)
    qed
  next
    case (LeavePending t f)
    show ?thesis
    proof (cases "map_of (ss_transfers s) t")
      case None
      then show ?thesis using assms
        by (cases "map_of (ss_transfers s) tid")
          (auto simp: LeavePending ss_get_transfer_def recovered_def simp del: map_of_eq_Some_iff)
    next
      case (Some r)
      show ?thesis using Some assms update_status [OF assms Some, of Resumable]
        by (cases "map_of (ss_transfers s) tid")
          (auto simp: LeavePending ss_get_transfer_def recovered_def simp del: map_of_eq_Some_iff)
    qed
  qed
  then show "ss_inv (recover_one a s)"
    "map_of (ss_transfers (recover_one a s)) tid = map_option (recovered [a] tid) (map_of (ss_transfers s) tid)"
    "map_of (ss_journal (recover_one a s)) k =
           (if a = Finalize (fst k) (snd k)
            then map_option (\<lambda>e. e\<lparr>cj_status := Commit_Committed\<rparr>) (map_of (ss_journal s) k)
            else map_of (ss_journal s) k)" by blast+
qed

lemma recovered_Cons: "recovered as tid (recovered [a] tid r) = recovered (a # as) tid r"
  by (auto simp: recovered_def)

lemma recover_all_spec:
  assumes "ss_inv s"
  shows "ss_inv (fold recover_one as s)
    \<and> map_of (ss_transfers (fold recover_one as s)) tid = map_option (recovered as tid) (map_of (ss_transfers s) tid)
    \<and> map_of (ss_journal (fold recover_one as s)) k =
        (if Finalize (fst k) (snd k) \<in> set as
         then map_option (\<lambda>e. e\<lparr>cj_status := Commit_Committed\<rparr>) (map_of (ss_journal s) k)
         else map_of (ss_journal s) k)"
  using assms
proof (induction as arbitrary: s)
  case Nil
  have "recovered [] tid = (\<lambda>r. r)" by (auto simp: recovered_def)
  then show ?case using Nil by (simp add: option.map_ident)
next
  case (Cons a as)
  show ?case
    using Cons.IH [OF recover_one_spec(1) [OF Cons.prems, of a]] recover_one_spec(2,3) [OF Cons.prems, of a]
    by (auto simp: option.map_comp comp_def recovered_Cons simp del: map_of_eq_Some_iff)
qed

lemma pending_journal_iff:
  assumes "ss_inv s"
  shows "e \<in> set (ss_pending_journal s) \<longleftrightarrow>
     map_of (ss_journal s) (cj_transfer_id e, cj_file_id e) = Some e \<and> cj_status e \<noteq> Commit_Committed"
proof -
  have "e \<in> snd ` set (ss_journal s) \<longleftrightarrow> map_of (ss_journal s) (cj_transfer_id e, cj_file_id e) = Some e"
  proof
    assume "e \<in> snd ` set (ss_journal s)"
    then obtain k where "(k, e) \<in> set (ss_journal s)" by force
    then have "map_of (ss_journal s) k = Some e" using assms by (simp add: ss_inv_def)
    then show "map_of (ss_journal s) (cj_transfer_id e, cj_file_id e) = Some e"
      using assms unfolding ss_inv_def by metis
  qed (force dest: map_of_SomeD)
  then show ?thesis by (auto simp: ss_pending_journal_def)
qed

lemma recovery_Finalize_iff:
  assumes "ss_inv s" and "ss_recover_commit_journal s = Ok as"
  shows "Finalize t f \<in> set as \<longleftrightarrow> (\<exists>e. map_of (ss_journal s) (t, f) = Some e \<and> cj_status e = Commit_Renamed)"
    (is "_ \<longleftrightarrow> ?renamed")
proof
  have as: "as = map journal_action (ss_pending_journal s)" using assms(2) by (simp add: ss_recover_eq)
  {
    assume "Finalize t f \<in> set as"
    then obtain e where "e \<in> set (ss_pending_journal s)" "journal_action e = Finalize t f" unfolding as by auto
    then show ?renamed
      unfolding pending_journal_iff [OF assms(1)]
      by (auto simp: journal_action_def simp del: map_of_eq_Some_iff split: if_splits)
  next
    assume ?renamed
    then obtain e where e: "map_of (ss_journal s) (t, f) = Some e" "cj_status e = Commit_Renamed" by blast
    then have "(t, f) = (cj_transfer_id e, cj_file_id e)" using assms(1) unfolding ss_inv_def by blast
    then have "e \<in> set (ss_pending_journal s)" "journal_action e = Finalize t f"
      using e pending_journal_iff [OF assms(1), of e] by (auto simp: journal_action_def simp del: map_of_eq_Some_iff)
    then show "Finalize t f \<in> set as" unfolding as by force
  }
qed

lemma startup_inv: "ss_inv s \<Longrightarrow> ss_inv (startup_recovery now s)"
  using recover_all_spec by (simp add: startup_recovery_def ss_mark_active_inv ss_recover_eq)

lemma startup_no_active:
  "map_of (ss_transfers (startup_recovery now s)) tid = Some r \<Longrightarrow> tr_status r \<noteq> Active"
proof -
  assume "map_of (ss_transfers (startup_recovery now s)) tid = Some r"
  then obtain z where "r = (if tr_status z = Active then z\<lparr>tr_status := Resumable, tr_updated_ms := now\<rparr> else z)"
    by (auto simp: startup_recovery_def ss_mark_active_resumable_def map_of_mapped)
  then show ?thesis by (cases "tr_status z = Active") simp_all
qed

lemma startup_renamed_committed:
  assumes "ss_inv s" and "map_of (ss_journal s) (tid, fid) = Some e" and "cj_status e = Commit_Renamed"
    and "map_of (ss_transfers s) tid = Some r"
  shows "map_of (ss_transfers (startup_recovery now s)) tid = Some (r\<lparr>tr_status := Committed\<rparr>)
    \<and> map_of (ss_journal (startup_recovery now s)) (tid, fid) = Some (e\<lparr>cj_status := Commit_Committed\<rparr>)"
proof -
  obtain as where as: "ss_recover_commit_journal s = Ok as" by (simp add: ss_recover_eq)
  have "Finalize tid fid \<in> set as" using recovery_Finalize_iff [OF assms(1) as] assms(2,3) by blast
  then have "map_of (ss_transfers (fold recover_one as s)) tid = Some (r\<lparr>tr_status := Committed\<rparr>)"
    "map_of (ss_journal (fold recover_one as s)) (tid, fid) = Some (e\<lparr>cj_status := Commit_Committed\<rparr>)"
    using recover_all_spec [OF assms(1), of as] assms(2,4) by (auto simp: recovered_def simp del: map_of_eq_Some_iff)
  then show ?thesis
    by (simp add: startup_recovery_def as ss_mark_active_resumable_def map_of_mapped del: map_of_eq_Some_iff)
qed

lemma startup_pending_kept:
  assumes "ss_inv s" and "map_of (ss_journal s) (tid, fid) = Some e" and "cj_status e = Commit_Pending"
  shows "map_of (ss_journal (startup_recovery now s)) (tid, fid) = Some e"
proof -
  obtain as where as: "ss_recover_commit_journal s = Ok as" by (simp add: ss_recover_eq)
  have "Finalize tid fid \<notin> set as" using recovery_Finalize_iff [OF assms(1) as] assms(2,3) by auto
  then show ?thesis
    using recover_all_spec [OF assms(1), of as] assms(2)
    by (auto simp: startup_recovery_def as ss_mark_active_resumable_def simp del: map_of_eq_Some_iff)
qed

section \<open>Pruning\<close>

lemma ss_drop_transfers:
  "map_of (ss_transfers (fold ss_drop_rows tids s)) k = (if k \<in> set tids then None else map_of (ss_transfers s) k)"
  by (induction tids arbitrary: s) (auto simp: ss_drop_rows_def ss_maps)

definition stale :: "u64 \<Rightarrow> transfer_record \<Rightarrow> bool" where
  "stale cutoff r \<longleftrightarrow> (tr_status r = Committed \<or> tr_status r = Cancelled) \<and> tr_updated_ms r < cutoff"

lemma ss_prune_transfers:
  assumes "ss_inv s" and "map_of (ss_transfers s) tid = Some r"
  shows "map_of (ss_transfers (fst (ss_prune_stale now age s))) tid =
    (if stale (saturating_sub now (age * 1000)) r then None else Some r)"
proof -
  let ?c = "saturating_sub now (age * 1000)"
  have id: "tr_transfer_id r = tid" using assms linked_index unfolding ss_inv_def by blast
  have "tid \<in> tr_transfer_id ` {r \<in> snd ` set (ss_transfers s). stale ?c r} \<longleftrightarrow> stale ?c r"
  proof
    assume "tid \<in> tr_transfer_id ` {r \<in> snd ` set (ss_transfers s). stale ?c r}"
    then obtain k r' where r': "(k, r') \<in> set (ss_transfers s)" "stale ?c r'" "tr_transfer_id r' = tid" by auto
    then have "map_of (ss_transfers s) k = Some r'" using assms(1) by (simp add: ss_inv_def)
    moreover then have "k = tid" using r'(3) assms(1) linked_index unfolding ss_inv_def by blast
    ultimately show "stale ?c r" using assms(2) r'(2) by simp
  next
    assume "stale ?c r"
    then show "tid \<in> tr_transfer_id ` {r \<in> snd ` set (ss_transfers s). stale ?c r}"
      using id map_of_SomeD [OF assms(2)] by force
  qed
  then show ?thesis
    using assms(2) by (simp add: ss_prune_stale_def Let_def ss_drop_transfers stale_def image_def conj_ac
        del: map_of_eq_Some_iff) 
qed

lemma cutoff_less:
  assumes "unat age * 1000 < 2 ^ 64"
  shows "u < saturating_sub now (age * 1000) \<longleftrightarrow> unat u + unat age * 1000 < unat (now :: u64)"
proof -
  have "unat (age * 1000) = unat age * 1000" using assms by (simp add: unat_word_ariths)
  then show ?thesis by (auto simp: word_less_nat_alt unat_saturating_sub)
qed

lemma ss_prune_age:
  assumes "ss_inv s" and "map_of (ss_transfers s) tid = Some r" and "unat age * 1000 < 2 ^ 64"
  shows "map_of (ss_transfers (fst (ss_prune_stale now age s))) tid =
    (if (tr_status r = Committed \<or> tr_status r = Cancelled) \<and> unat (tr_updated_ms r) + unat age * 1000 < unat now
     then None else Some r)"
  using ss_prune_transfers [OF assms(1,2), of now age] by (simp add: stale_def cutoff_less [OF assms(3)])

text \<open>The product of the age limit wraps: an age of \<open>2 ^ 61\<close> seconds is an age of zero.\<close>

lemma ss_prune_wraps:
  assumes "ss_inv s" and "map_of (ss_transfers s) tid = Some r"
    and "tr_status r = Committed \<or> tr_status r = Cancelled" and "tr_updated_ms r < now"
  shows "map_of (ss_transfers (fst (ss_prune_stale now (2 ^ 61) s))) tid = None"
proof -
  have "(2 ^ 61 * 1000 :: u64) = 0" by (simp add: word_eq_iff_unsigned)
  then have "saturating_sub now (2 ^ 61 * 1000) = now" by (simp only:) (simp add: saturating_sub_def)
  then show ?thesis using ss_prune_transfers [OF assms(1,2), of now "2 ^ 61"] assms(3,4) by (simp only: stale_def) simp
qed

section \<open>Reachable stores\<close>

text \<open>
  The operations as steps. A new record comes with an id that the store does not know, and an
  update keeps role and key: the callers draw fresh ids and change only a record they read.
\<close>

inductive ss_step :: "state_store \<Rightarrow> state_store \<Rightarrow> bool" where
  step_upsert: "map_of (ss_transfers s) (tr_transfer_id r) = None \<Longrightarrow> ss_step s (fst (ss_upsert_transfer r s))"
| step_update: "\<forall>old. map_of (ss_transfers s) (tr_transfer_id r) = Some old \<longrightarrow>
       tr_role old = tr_role r \<and> tr_idempotency_key old = tr_idempotency_key r
     \<Longrightarrow> ss_step s (fst (ss_update_transfer r s))"
| step_write_bitmap: "ss_step s (fst (ss_write_bitmap tid bm s))"
| step_delete_bitmap: "ss_step s (ss_delete_bitmap tid s)"
| step_write_journal: "ss_step s (ss_write_journal e s)"
| step_mark_committed: "ss_step s (fst (ss_mark_journal_committed tid fid s))"
| step_delete: "ss_step s (ss_delete_transfer tid s)"
| step_prune: "ss_step s (fst (ss_prune_stale now age s))"
| step_mark_active: "ss_step s (fst (ss_mark_active_resumable now s))"
| step_startup: "ss_step s (startup_recovery now s)"

lemma ss_step_inv: "ss_step s s' \<Longrightarrow> ss_inv s \<Longrightarrow> ss_inv s'"
  by (induction rule: ss_step.induct)
    (auto simp: ss_delete_transfer_def intro: ss_upsert_inv ss_update_inv ss_bitmap_inv ss_journal_inv ss_drop_rows_inv
      ss_prune_inv ss_mark_active_inv startup_inv)

lemma ss_reachable_inv: "ss_step\<^sup>*\<^sup>* s s' \<Longrightarrow> ss_inv s \<Longrightarrow> ss_inv s'"
  by (induction rule: rtranclp_induct) (auto intro: ss_step_inv)

lemma ss_lookups_agree:
  assumes "ss_inv s"
  shows "ss_get_by_idempotency role key s = Ok r \<longleftrightarrow>
     ss_get_transfer (tr_transfer_id r) s = Ok r \<and> tr_role r = role \<and> tr_idempotency_key r = key"
proof -
  have l: "linked (map_of (ss_transfers s)) (map_of (ss_idem s))" using assms by (simp add: ss_inv_def)
  have "(\<exists>tid. map_of (ss_idem s) (role, key) = Some tid \<and> map_of (ss_transfers s) tid = Some r) \<longleftrightarrow>
    map_of (ss_transfers s) (tr_transfer_id r) = Some r \<and> tr_role r = role \<and> tr_idempotency_key r = key"
    (is "?L \<longleftrightarrow> ?R")
  proof
    assume ?L
    then obtain tid where t: "map_of (ss_idem s) (role, key) = Some tid" "map_of (ss_transfers s) tid = Some r" by blast
    with l obtain r' where "map_of (ss_transfers s) tid = Some r'" "(tr_role r', tr_idempotency_key r') = (role, key)"
      unfolding linked_def by blast
    moreover have "tr_transfer_id r = tid" using l t(2) unfolding linked_def by blast
    ultimately show ?R using t(2) by simp
  next
    assume ?R
    then show ?L using l unfolding linked_def by blast
  qed
  then show ?thesis
    by (simp add: ss_get_by_idempotency_def ss_get_transfer_def res_simps del: map_of_eq_Some_iff)
qed

end
