(* ===== verification/Idempotency_Ledger.thy ===== *)
theory Idempotency_Ledger
  imports State_Store
begin

text \<open>
  The idempotency ledger of \<open>state/ledger.rs\<close>. The hash map behind the lock is an association
  list without duplicate keys; clock readings and fresh transfer ids are arguments. A
  \<open>Conflict\<close> carries what its message prints. \<open>evaluate_transfer_create\<close> takes the lock twice,
  once to read and once to insert, so it is the composition of two steps, and the step
  relation at the end interleaves them between threads. The lemmas show that calls that do
  not overlap let one request per key proceed, that a durable record is found again after a
  restart, that active entries are never pruned, and that two overlapping calls can both
  proceed.
\<close>

section \<open>Definitions\<close>

datatype conflict_reason =
    Used_For_Path bytes bytes bytes
  | Used_For_Size bytes u64 u64
  | Previously_Cancelled bytes
  | Registered_For_Path bytes bytes bytes
  | Registered_For_Size bytes u64 u64
  | Cancelled_In_State_DB bytes

datatype idempotency_action =
    ProceedNew transfer_id
  | ReplayActive transfer_id
  | ReplayCommitted transfer_id u32
  | ResumeExisting transfer_id u64
  | Conflict conflict_reason

record ledger_entry =
  le_transfer_id :: transfer_id
  le_role :: store_role
  le_idempotency_key :: bytes
  le_remote_path :: bytes
  le_expected_size :: u64
  le_status :: transfer_status
  le_created_at :: nat
  le_updated_at :: nat
  le_committed_files :: "u32 option"

type_synonym ledger = "((store_role \<times> bytes) \<times> ledger_entry) list"

type_synonym store_lookup = "store_role \<Rightarrow> bytes \<Rightarrow> (state_store_error, transfer_record) res"

text \<open>Step 1, under the read lock: the answer from an entry in memory.\<close>

definition ledger_fast_path ::
  "store_role \<Rightarrow> bytes \<Rightarrow> bytes \<Rightarrow> u64 \<Rightarrow> ledger \<Rightarrow> idempotency_action option" where
  "ledger_fast_path role key remote_path expected_size l =
     (case map_of l (role, key) of
        None \<Rightarrow> None
      | Some e \<Rightarrow> Some
          (if le_remote_path e \<noteq> remote_path then Conflict (Used_For_Path key (le_remote_path e) remote_path)
           else if le_expected_size e \<noteq> expected_size
           then Conflict (Used_For_Size key (le_expected_size e) expected_size)
           else
             (case le_status e of
                Active \<Rightarrow> ReplayActive (le_transfer_id e)
              | Committed \<Rightarrow> ReplayCommitted (le_transfer_id e)
                  (case le_committed_files e of Some n \<Rightarrow> n | None \<Rightarrow> 1)
              | Resumable \<Rightarrow> ResumeExisting (le_transfer_id e) 0
              | Cancelled \<Rightarrow> Conflict (Previously_Cancelled key))))"

text \<open>Steps 2 and 3: the state store, then a fresh entry; each insertion takes the write lock.\<close>

definition ledger_after_miss ::
  "store_lookup option \<Rightarrow> transfer_id \<Rightarrow> nat \<Rightarrow> store_role \<Rightarrow> bytes \<Rightarrow> bytes \<Rightarrow> u64 \<Rightarrow> ledger
     \<Rightarrow> ledger \<times> idempotency_action" where
  "ledger_after_miss store new_id now role key remote_path expected_size l =
     (let proceed =
        (AList.update (role, key)
           \<lparr>le_transfer_id = new_id, le_role = role, le_idempotency_key = key, le_remote_path = remote_path,
            le_expected_size = expected_size, le_status = Active, le_created_at = now, le_updated_at = now,
            le_committed_files = None\<rparr> l,
         ProceedNew new_id)
      in
      case store of
        None \<Rightarrow> proceed
      | Some get \<Rightarrow>
          (case get role key of
             Ok r \<Rightarrow>
               if tr_remote_path r \<noteq> remote_path
               then (l, Conflict (Registered_For_Path key (tr_remote_path r) remote_path))
               else if tr_file_size r \<noteq> expected_size
               then (l, Conflict (Registered_For_Size key (tr_file_size r) expected_size))
               else
                 (AList.update (role, key)
                    \<lparr>le_transfer_id = tr_transfer_id r, le_role = role, le_idempotency_key = key,
                     le_remote_path = remote_path, le_expected_size = expected_size,
                     le_status = tr_status r, le_created_at = now, le_updated_at = now,
                     le_committed_files = (if tr_status r = Committed then Some 1 else None)\<rparr> l,
                  (case tr_status r of
                     Active \<Rightarrow> ReplayActive (tr_transfer_id r)
                   | Committed \<Rightarrow> ReplayCommitted (tr_transfer_id r) 1
                   | Resumable \<Rightarrow> ResumeExisting (tr_transfer_id r) (tr_bytes_completed r)
                   | Cancelled \<Rightarrow> Conflict (Cancelled_In_State_DB key)))
           | _ \<Rightarrow> proceed))"

definition evaluate_transfer_create ::
  "store_lookup option \<Rightarrow> transfer_id \<Rightarrow> nat \<Rightarrow> store_role \<Rightarrow> bytes \<Rightarrow> bytes \<Rightarrow> u64 \<Rightarrow> ledger
     \<Rightarrow> ledger \<times> idempotency_action" where
  "evaluate_transfer_create store new_id now role key remote_path expected_size l =
     (case ledger_fast_path role key remote_path expected_size l of
        Some a \<Rightarrow> (l, a)
      | None \<Rightarrow> ledger_after_miss store new_id now role key remote_path expected_size l)"

definition ledger_mark_committed :: "nat \<Rightarrow> store_role \<Rightarrow> bytes \<Rightarrow> u32 \<Rightarrow> ledger \<Rightarrow> ledger" where
  "ledger_mark_committed now role key files l =
     (case map_of l (role, key) of
        Some e \<Rightarrow> AList.update (role, key)
          (e\<lparr>le_status := Committed, le_committed_files := Some files, le_updated_at := now\<rparr>) l
      | None \<Rightarrow> l)"

definition ledger_mark_resumable :: "nat \<Rightarrow> store_role \<Rightarrow> bytes \<Rightarrow> ledger \<Rightarrow> ledger" where
  "ledger_mark_resumable now role key l =
     (case map_of l (role, key) of
        Some e \<Rightarrow> AList.update (role, key) (e\<lparr>le_status := Resumable, le_updated_at := now\<rparr>) l
      | None \<Rightarrow> l)"

definition ledger_mark_cancelled :: "nat \<Rightarrow> store_role \<Rightarrow> bytes \<Rightarrow> ledger \<Rightarrow> ledger" where
  "ledger_mark_cancelled now role key l =
     (case map_of l (role, key) of
        Some e \<Rightarrow> AList.update (role, key) (e\<lparr>le_status := Cancelled, le_updated_at := now\<rparr>) l
      | None \<Rightarrow> l)"

definition ledger_active_count :: "ledger \<Rightarrow> nat" where
  "ledger_active_count l = length (filter (\<lambda>(k, e). le_status e = Active) l)"

definition ledger_prune_older_than :: "nat \<Rightarrow> nat \<Rightarrow> ledger \<Rightarrow> ledger \<times> nat" where
  "ledger_prune_older_than now ttl l =
     (let kept = filter (\<lambda>(k, e). if le_status e = Active then True else now - le_updated_at e < ttl) l
      in (kept, length l - length kept))"

text \<open>The operations as data, and a run of calls that do not overlap.\<close>

datatype ledger_op =
    Evaluate transfer_id nat store_role bytes bytes u64
  | Mark_Committed nat store_role bytes u32
  | Mark_Resumable nat store_role bytes
  | Mark_Cancelled nat store_role bytes
  | Prune nat nat

fun ledger_apply :: "store_lookup option \<Rightarrow> ledger_op \<Rightarrow> ledger \<Rightarrow> ledger \<times> idempotency_action option" where
  "ledger_apply store (Evaluate new_id now role key path sz) l =
     (let (l', a) = evaluate_transfer_create store new_id now role key path sz l in (l', Some a))"
| "ledger_apply store (Mark_Committed now role key files) l = (ledger_mark_committed now role key files l, None)"
| "ledger_apply store (Mark_Resumable now role key) l = (ledger_mark_resumable now role key l, None)"
| "ledger_apply store (Mark_Cancelled now role key) l = (ledger_mark_cancelled now role key l, None)"
| "ledger_apply store (Prune now ttl) l = (fst (ledger_prune_older_than now ttl l), None)"

text \<open>The transfers started under one key in a run.\<close>

fun started :: "store_role \<times> bytes \<Rightarrow> store_lookup option \<Rightarrow> ledger_op list \<Rightarrow> ledger \<Rightarrow> transfer_id list" where
  "started k store [] l = []"
| "started k store (op # ops) l =
     (let (l', a) = ledger_apply store op l in
      (case (op, a) of
         (Evaluate _ _ role key _ _, Some (ProceedNew i)) \<Rightarrow> if (role, key) = k then [i] else []
       | _ \<Rightarrow> [])
      @ started k store ops l')"

fun prunes :: "ledger_op \<Rightarrow> bool" where
  "prunes (Prune _ _) = True"
| "prunes _ = False"

text \<open>Overlapping calls: a thread has asked, has missed under the read lock, or has its answer.\<close>

record create_request =
  rq_role :: store_role
  rq_key :: bytes
  rq_path :: bytes
  rq_size :: u64
  rq_new_id :: transfer_id
  rq_now :: nat

datatype ledger_thread = Asking create_request | Missed create_request | Answered idempotency_action

inductive ledger_step ::
  "store_lookup option \<Rightarrow> ledger \<times> ledger_thread list \<Rightarrow> ledger \<times> ledger_thread list \<Rightarrow> bool"
  for store where
  read_hit: "i < length ts \<Longrightarrow> ts ! i = Asking q \<Longrightarrow>
     ledger_fast_path (rq_role q) (rq_key q) (rq_path q) (rq_size q) l = Some a \<Longrightarrow>
     ledger_step store (l, ts) (l, ts[i := Answered a])"
| read_miss: "i < length ts \<Longrightarrow> ts ! i = Asking q \<Longrightarrow>
     ledger_fast_path (rq_role q) (rq_key q) (rq_path q) (rq_size q) l = None \<Longrightarrow>
     ledger_step store (l, ts) (l, ts[i := Missed q])"
| insert_entry: "i < length ts \<Longrightarrow> ts ! i = Missed q \<Longrightarrow>
     ledger_after_miss store (rq_new_id q) (rq_now q) (rq_role q) (rq_key q) (rq_path q) (rq_size q) l = (l', a) \<Longrightarrow>
     ledger_step store (l, ts) (l', ts[i := Answered a])"

section \<open>Calls that do not overlap\<close>

lemma fast_path_None: "ledger_fast_path role key path sz l = None \<longleftrightarrow> map_of l (role, key) = None"
  by (simp add: ledger_fast_path_def split: option.splits)

lemma fast_path_not_new: "ledger_fast_path role key path sz l \<noteq> Some (ProceedNew i)"
  by (auto simp: ledger_fast_path_def split: option.splits if_splits transfer_status.splits)

lemma evaluate_new:
  assumes "evaluate_transfer_create store new_id now role key path sz l = (l', ProceedNew i)"
  shows "i = new_id" and "map_of l (role, key) = None"
    and "\<exists>e. map_of l' (role, key) = Some e \<and> le_transfer_id e = new_id \<and> le_remote_path e = path
           \<and> le_expected_size e = sz \<and> le_status e = Active"
  using assms fast_path_not_new [of role key path sz l i] fast_path_None [of role key path sz l]
  by (auto simp: evaluate_transfer_create_def ledger_after_miss_def Let_def ss_maps
      split: option.splits res.splits if_splits transfer_status.splits)

text \<open>A repeated request returns the transfer that the first one started.\<close>

lemma evaluate_retry:
  assumes "evaluate_transfer_create store new_id now role key path sz l = (l', ProceedNew i)"
  shows "evaluate_transfer_create store' new_id' now' role key path sz l' = (l', ReplayActive i)"
  using evaluate_new [OF assms] by (auto simp: evaluate_transfer_create_def ledger_fast_path_def)

lemma evaluate_keeps: "map_of l k \<noteq> None \<Longrightarrow> map_of (fst (evaluate_transfer_create store i now r key p sz l)) k \<noteq> None"
  by (auto simp: evaluate_transfer_create_def ledger_after_miss_def Let_def ss_maps
      split: option.splits res.splits)

lemma apply_keeps: "map_of l k \<noteq> None \<Longrightarrow> \<not> prunes op \<Longrightarrow> map_of (fst (ledger_apply store op l)) k \<noteq> None"
  using evaluate_keeps
  by (cases op)
    (auto simp: ledger_mark_committed_def ledger_mark_resumable_def ledger_mark_cancelled_def ss_maps split_beta
      split: option.splits)

lemma evaluate_new_key:
  assumes "ledger_apply store op l = (l', Some (ProceedNew i))"
  shows "\<exists>now role key path sz. op = Evaluate i now role key path sz \<and> map_of l (role, key) = None
    \<and> map_of l' (role, key) \<noteq> None"
proof (cases op)
  case (Evaluate j now role key path sz)
  with assms have "evaluate_transfer_create store j now role key path sz l = (l', ProceedNew i)"
    by (auto simp: split_beta prod_eq_iff)
  from evaluate_new [OF this] show ?thesis using Evaluate by auto
qed (use assms in auto)

lemma started_none: "map_of l k \<noteq> None \<Longrightarrow> \<forall>op \<in> set ops. \<not> prunes op \<Longrightarrow> started k store ops l = []"
proof (induction ops arbitrary: l)
  case (Cons op ops)
  obtain l' a where la: "ledger_apply store op l = (l', a)" by (cases "ledger_apply store op l")
  have "map_of l' k \<noteq> None" using apply_keeps [of l k op store] Cons.prems la by simp
  then have "started k store ops l' = []" using Cons by auto
  moreover have "role_key \<noteq> k" if "op = Evaluate j now (fst role_key) (snd role_key) p sz" "a = Some (ProceedNew i)"
    for role_key j now p sz i
    using evaluate_new_key [of store op l l' i] that la Cons.prems(1) by auto
  ultimately show ?case by (auto simp: la split: ledger_op.splits option.splits idempotency_action.splits)
qed simp

lemma started_at_most_one: "\<forall>op \<in> set ops. \<not> prunes op \<Longrightarrow> length (started k store ops l) \<le> 1"
proof (induction ops arbitrary: l)
  case (Cons op ops)
  obtain l' a where la: "ledger_apply store op l = (l', a)" by (cases "ledger_apply store op l")
  show ?case
  proof (cases "\<exists>j now p sz i. op = Evaluate j now (fst k) (snd k) p sz \<and> a = Some (ProceedNew i)")
    case True
    then have "map_of l' k \<noteq> None" using evaluate_new_key [of store op l l'] la by auto
    then have "started k store ops l' = []" using Cons.prems by (intro started_none) auto
    then show ?thesis using True by (auto simp: la)
  next
    case False
    then have "started k store (op # ops) l = started k store ops l'"
      by (auto simp: la split: ledger_op.splits option.splits idempotency_action.splits)
    then show ?thesis using Cons by simp
  qed
qed simp

section \<open>Pruning\<close>

lemma prune_keeps_active:
  "(k, e) \<in> set l \<Longrightarrow> le_status e = Active \<Longrightarrow> (k, e) \<in> set (fst (ledger_prune_older_than now ttl l))"
  by (simp add: ledger_prune_older_than_def Let_def)

lemma prune_active_count: "ledger_active_count (fst (ledger_prune_older_than now ttl l)) = ledger_active_count l"
  unfolding ledger_prune_older_than_def ledger_active_count_def Let_def fst_conv filter_filter
  by (intro arg_cong [where f = length] filter_cong) auto

section \<open>A restart\<close>

text \<open>The id that an action names.\<close>

fun action_id :: "idempotency_action \<Rightarrow> transfer_id option" where
  "action_id (ProceedNew i) = Some i"
| "action_id (ReplayActive i) = Some i"
| "action_id (ReplayCommitted i n) = Some i"
| "action_id (ResumeExisting i n) = Some i"
| "action_id (Conflict c) = None"

context idempotent_store
begin

text \<open>
  A request accepted by the store is answered with the same transfer by a ledger that has
  forgotten it, for every status but \<open>Cancelled\<close>.
\<close>

lemma restart_finds_transfer:
  assumes "inv s" and "fresh (tr_transfer_id r) s" and "upsert r s = (s', Ok out)"
    and "map_of l (tr_role r, tr_idempotency_key r) = None"
  shows "\<exists>e. lookup (tr_role r) (tr_idempotency_key r) s' = Ok e \<and>
    action_id (snd (evaluate_transfer_create (Some (\<lambda>role key. lookup role key s')) new_id now
       (tr_role r) (tr_idempotency_key r) (tr_remote_path r) (tr_file_size r) l))
      = (if tr_status e = Cancelled then None else Some (tr_transfer_id e))"
proof -
  from retry [OF assms(1-3)] obtain e where e: "lookup (tr_role r) (tr_idempotency_key r) s' = Ok e"
    "verify_idempotency_compat e r = Ok ()" by blast
  have "tr_remote_path e = tr_remote_path r" "tr_file_size e = tr_file_size r"
    using e(2) by (auto simp: verify_idempotency_compat_def split: if_splits)
  with e(1) assms(4) have "action_id (snd (evaluate_transfer_create (Some (\<lambda>role key. lookup role key s')) new_id now
       (tr_role r) (tr_idempotency_key r) (tr_remote_path r) (tr_file_size r) l))
      = (if tr_status e = Cancelled then None else Some (tr_transfer_id e))"
    by (cases "tr_status e")
      (simp_all add: evaluate_transfer_create_def ledger_fast_path_def ledger_after_miss_def)
  with e(1) show ?thesis by blast
qed

end

section \<open>Overlapping calls\<close>

lemma two_misses_both_proceed:
  fixes path :: bytes and sz :: u64 and now :: nat
  assumes "map_of l (role, key) = None" and "i \<noteq> j"
  defines "q \<equiv> \<lambda>n. \<lparr>rq_role = role, rq_key = key, rq_path = path, rq_size = sz, rq_new_id = n, rq_now = now\<rparr>"
  shows "\<exists>l'. (ledger_step None)\<^sup>*\<^sup>* (l, [Asking (q i), Asking (q j)])
               (l', [Answered (ProceedNew i), Answered (ProceedNew j)])"
proof -
  have miss: "ledger_fast_path role key path sz l = None" using assms(1) by (simp add: fast_path_None)
  define ins where "ins n l = fst (ledger_after_miss None n now role key path sz l)" for n and l :: ledger
  have ins: "ledger_after_miss None n now role key path sz l = (ins n l, ProceedNew n)" for n and l :: ledger
    by (simp add: ins_def ledger_after_miss_def)
  have "ledger_step None (l, [Asking (q i), Asking (q j)]) (l, [Missed (q i), Asking (q j)])"
    using read_miss [of 0 "[Asking (q i), Asking (q j)]" "q i" l None] miss by (simp add: q_def)
  moreover have "ledger_step None (l, [Missed (q i), Asking (q j)]) (l, [Missed (q i), Missed (q j)])"
    using read_miss [of 1 "[Missed (q i), Asking (q j)]" "q j" l None] miss by (simp add: q_def)
  moreover have "ledger_step None (l, [Missed (q i), Missed (q j)]) (ins i l, [Answered (ProceedNew i), Missed (q j)])"
    using insert_entry [of 0 "[Missed (q i), Missed (q j)]" "q i" None l] ins [of i l] by (simp add: q_def)
  moreover have "ledger_step None (ins i l, [Answered (ProceedNew i), Missed (q j)])
      (ins j (ins i l), [Answered (ProceedNew i), Answered (ProceedNew j)])"
    using insert_entry [of 1 "[Answered (ProceedNew i), Missed (q j)]" "q j" None "ins i l"] ins [of j "ins i l"]
    by (simp add: q_def)
  ultimately show ?thesis by (meson converse_rtranclp_into_rtranclp rtranclp.rtrancl_refl)
qed

end
