(* ===== verification/Server_Requests.thy ===== *)
theory Server_Requests
  imports Message Authorization Idempotency_Ledger
begin

text \<open>
  The request handlers of \<open>session/server.rs\<close>: deletion, symlinks and hard links, the start of
  an upload or download up to the recorded transfer, \<open>STAT\<close>, \<open>LIST\<close>, \<open>CANCEL\<close>, and the
  first half of \<open>RESUME\<close>. A handler takes the server state and returns it with the messages it
  sends (all with request id 0) and its result. Storage backends, the data sessions and the
  texts of foreign errors are parameters, bundled in \<open>server_env\<close>; clock readings and fresh
  transfer ids are arguments. A failing stream write is not modelled. The lemmas show that no
  handler touches the backend or answers about a transfer before the authorizer has agreed,
  that a denied request and a missing object give the same answer, and where retries diverge.
\<close>

section \<open>State and environment\<close>

record server_stats =
  st_connections :: u64
  st_handshakes :: u64
  st_pings :: u64
  st_transfers_active :: u64
  st_authz_denials :: u64
  st_auth_failures :: u64
  st_auth_failures_crl :: u64
  st_auth_failures_max_attempts :: u64
  st_resource_limit_hits :: u64
  st_resource_limit_hits_quota :: u64
  st_disk_full_errors :: u64
  st_protocol_violations :: u64
  st_deletions_attempted :: u64
  st_deletions_blocked :: u64
  st_deletions_executed :: u64

record 'b server =
  sv_store :: "state_store option"
  sv_ledger :: "ledger option"
  sv_limiter :: deletion_limiter
  sv_backend :: 'b
  sv_stats :: server_stats

text \<open>
  \<open>ev_stat\<close> answers \<open>None\<close> for a backend error; a failed operation carries its error text.
\<close>

record 'b server_env =
  ev_grants :: "grant list"
  ev_policy :: deletion_policy
  ev_remove :: "vpath \<Rightarrow> 'b \<Rightarrow> 'b \<times> bool"
  ev_create_symlink :: "vpath \<Rightarrow> bytes \<Rightarrow> 'b \<Rightarrow> 'b \<times> bytes option"
  ev_create_hardlink :: "vpath \<Rightarrow> vpath \<Rightarrow> 'b \<Rightarrow> 'b \<times> bytes option"
  ev_stat :: "vpath \<Rightarrow> 'b \<Rightarrow> u64 option option"
  ev_available_space :: "'b \<Rightarrow> u64 option"
  ev_min_free_space :: u64
  ev_check_quota :: "bytes \<Rightarrow> u64 \<Rightarrow> bytes option"
  ev_tid_text :: "transfer_id \<Rightarrow> bytes"
  ev_conflict_text :: "conflict_reason \<Rightarrow> bytes"
  ev_vpath_error_text :: "vpath_error \<Rightarrow> bytes"

text \<open>What one request draws from the outside: two fresh ids, the monotonic and the wall clock.\<close>

record draw =
  dr_ledger_id :: transfer_id
  dr_fresh_id :: transfer_id
  dr_instant :: nat
  dr_now_ms :: u64

type_synonym 'b outcome = "'b server \<times> message list \<times> (velcrux_error, unit) res"

definition bump :: "((u64 \<Rightarrow> u64) \<Rightarrow> server_stats \<Rightarrow> server_stats) \<Rightarrow> 'b server \<Rightarrow> 'b server" where
  "bump field s = s\<lparr>sv_stats := field (\<lambda>n. n + 1) (sv_stats s)\<rparr>"

definition send_error :: "error_code \<Rightarrow> bytes \<Rightarrow> 'b server \<Rightarrow> 'b outcome" where
  "send_error code text s =
     (case error_detail_new text of
        Ok d \<Rightarrow> (s, [Error (error_msg_new code d)], Ok ())
      | Err e \<Rightarrow> (s, [], Err (Protocol e))
      | Panic \<Rightarrow> (s, [], Panic))"

definition send_committed :: "transfer_id \<Rightarrow> u32 \<Rightarrow> 'b server \<Rightarrow> 'b outcome" where
  "send_committed tid files s = (s, [message.Committed \<lparr>cd_transfer_id = tid, cd_files = files\<rparr>], Ok ())"

definition store_get :: "'b server \<Rightarrow> store_lookup option" where
  "store_get s = map_option (\<lambda>st role key. ss_get_by_idempotency role key st) (sv_store s)"

section \<open>Deletion and links\<close>

text \<open>The idempotency step that the three handlers share; an answer ends the request.\<close>

definition idempotency_gate ::
  "'b server_env \<Rightarrow> draw \<Rightarrow> transfer_create \<Rightarrow> 'b server \<Rightarrow> 'b server \<times> 'b outcome option" where
  "idempotency_gate env d create s =
     (case (sv_ledger s, tc_idempotency_key create = []) of
        (Some l, False) \<Rightarrow>
          (let (l', a) = evaluate_transfer_create (store_get s) (dr_ledger_id d) (dr_instant d) Server
                 (tc_idempotency_key create) (tc_dst_path create) 0 l;
               s = s\<lparr>sv_ledger := Some l'\<rparr>
           in (s, case a of
                    ReplayCommitted tid files \<Rightarrow> Some (send_committed tid files s)
                  | Conflict reason \<Rightarrow>
                      Some (send_error ProtocolViolation (lit ''idempotency conflict: '' @ ev_conflict_text env reason) s)
                  | _ \<Rightarrow> None))
      | _ \<Rightarrow> (s, None))"

definition mark_done :: "draw \<Rightarrow> transfer_create \<Rightarrow> 'b server \<Rightarrow> 'b server" where
  "mark_done d create s =
     (case (sv_ledger s, tc_idempotency_key create = []) of
        (Some l, False) \<Rightarrow> s\<lparr>sv_ledger := Some (ledger_mark_committed (dr_instant d) Server (tc_idempotency_key create) 1 l)\<rparr>
      | _ \<Rightarrow> s)"

text \<open>The deletion policy: an answer ends the request.\<close>

definition policy_gate :: "'b server_env \<Rightarrow> draw \<Rightarrow> identity \<Rightarrow> 'b server \<Rightarrow> 'b server \<times> 'b outcome option" where
  "policy_gate env d who s =
     (case ev_policy env of
        AdminOnly \<Rightarrow>
          if perm_has (granted_permissions (ev_grants env) who perm_default) PERM_ADMIN then (s, None)
          else
            let s = bump st_deletions_blocked_update (bump st_authz_denials_update s) in
            (s, Some (send_error error_code.PermissionDenied
                  (lit ''remote deletion requires admin role under active policy'') s))
      | Disabled \<Rightarrow>
          let s = bump st_deletions_blocked_update (bump st_authz_denials_update s) in
          (s, Some (send_error error_code.PermissionDenied (lit ''remote deletion is disabled on this server'') s))
      | RateLimited max_deletions window_secs \<Rightarrow>
          let (h, ok) = check_and_record (dr_instant d) (id_name who) max_deletions window_secs (sv_limiter s);
              s = s\<lparr>sv_limiter := h\<rparr>
          in if ok then (s, None)
             else
               let s = bump st_deletions_blocked_update (bump st_resource_limit_hits_update s) in
               (s, Some (send_error error_code.QuotaExceeded (lit ''remote deletion rate limit exceeded'') s))
      | ExplicitGrant \<Rightarrow> (s, None))"

definition handle_delete :: "'b server_env \<Rightarrow> draw \<Rightarrow> identity \<Rightarrow> transfer_create \<Rightarrow> 'b server \<Rightarrow> 'b outcome" where
  "handle_delete env d who create s =
     (let s = bump st_deletions_attempted_update s;
          is_sync = (tc_op create = SyncDelete);
          (s, stop) = policy_gate env d who s
      in
      case stop of Some out \<Rightarrow> out
      | None \<Rightarrow>
        let (s, stop) = idempotency_gate env d create s in
        case stop of Some out \<Rightarrow> out
        | None \<Rightarrow>
          (case authorizer_check (ev_grants env) who (if is_sync then OpSyncDelete else OpDelete) (tc_dst_path create) of
             Ok dst \<Rightarrow>
               let s = s\<lparr>sv_backend := fst (ev_remove env dst (sv_backend s))\<rparr>;
                   s = bump st_deletions_executed_update s;
                   s = mark_done d create s
               in send_committed (dr_fresh_id d) 1 s
           | _ \<Rightarrow>
               let s = bump st_deletions_blocked_update (bump st_authz_denials_update s) in
               send_error FileNotFound (lit ''not found'') s))"

definition deny :: "'b server \<Rightarrow> 'b outcome" where
  "deny s = send_error FileNotFound (lit ''not found'') (bump st_authz_denials_update s)"

definition handle_symlink :: "'b server_env \<Rightarrow> draw \<Rightarrow> identity \<Rightarrow> transfer_create \<Rightarrow> 'b server \<Rightarrow> 'b outcome" where
  "handle_symlink env d who create s =
     (let (s, stop) = idempotency_gate env d create s in
      case stop of Some out \<Rightarrow> out
      | None \<Rightarrow>
        (case authorizer_check (ev_grants env) who OpUpload (tc_dst_path create) of
           Ok dst \<Rightarrow>
             (case validate_symlink_target dst (tc_src_path create) of
                Ok _ \<Rightarrow>
                  let (b, err) = ev_create_symlink env dst (tc_src_path create) (sv_backend s);
                      s = s\<lparr>sv_backend := b\<rparr>
                  in (case err of
                        Some e \<Rightarrow> send_error InternalError (lit ''failed to create symlink: '' @ e) s
                      | None \<Rightarrow> send_committed (dr_fresh_id d) 1 (mark_done d create s))
              | Err e \<Rightarrow>
                  send_error error_code.InvalidPath
                    (lit ''symlink target escapes root: '' @ ev_vpath_error_text env e) (bump st_authz_denials_update s)
              | Panic \<Rightarrow> (s, [], Panic))
         | _ \<Rightarrow> deny s))"

definition handle_hardlink :: "'b server_env \<Rightarrow> draw \<Rightarrow> identity \<Rightarrow> transfer_create \<Rightarrow> 'b server \<Rightarrow> 'b outcome" where
  "handle_hardlink env d who create s =
     (let (s, stop) = idempotency_gate env d create s in
      case stop of Some out \<Rightarrow> out
      | None \<Rightarrow>
        (case authorizer_check (ev_grants env) who OpUpload (tc_src_path create) of
           Ok src \<Rightarrow>
             (case authorizer_check (ev_grants env) who OpUpload (tc_dst_path create) of
                Ok dst \<Rightarrow>
                  (case ev_stat env src (sv_backend s) of
                     Some (Some _) \<Rightarrow>
                       let (b, err) = ev_create_hardlink env dst src (sv_backend s);
                           s = s\<lparr>sv_backend := b\<rparr>
                       in (case err of
                             Some e \<Rightarrow> send_error InternalError (lit ''failed to create hardlink: '' @ e) s
                           | None \<Rightarrow> send_committed (dr_fresh_id d) 1 (mark_done d create s))
                   | _ \<Rightarrow> send_error FileNotFound (lit ''hardlink source target not found'') s)
              | _ \<Rightarrow> deny s)
         | _ \<Rightarrow> deny s))"

section \<open>Uploads and downloads\<close>

text \<open>The transfer a request continues, and how many bytes of it are already there.\<close>

definition reusable_bytes :: "transfer_id \<Rightarrow> 'b server \<Rightarrow> u64" where
  "reusable_bytes tid s =
     (case sv_store s of
        None \<Rightarrow> 0
      | Some st \<Rightarrow> (case ss_read_bitmap tid st of Ok bm \<Rightarrow> bm_bytes_completed bm | _ \<Rightarrow> 0))"

definition choose_transfer ::
  "'b server_env \<Rightarrow> draw \<Rightarrow> transfer_create \<Rightarrow> u64 \<Rightarrow> 'b server
     \<Rightarrow> 'b server \<times> ('b outcome + transfer_id \<times> bool \<times> u64)" where
  "choose_transfer env d create bytes_total s =
     (case (sv_ledger s, tc_idempotency_key create = []) of
        (Some l, False) \<Rightarrow>
          (let (l', a) = evaluate_transfer_create (store_get s) (dr_ledger_id d) (dr_instant d) Server
                 (tc_idempotency_key create) (tc_dst_path create) bytes_total l;
               s = s\<lparr>sv_ledger := Some l'\<rparr>
           in (s, case a of
                    ReplayCommitted tid files \<Rightarrow> Inl (send_committed tid files s)
                  | Conflict reason \<Rightarrow>
                      Inl (send_error ProtocolViolation (lit ''idempotency conflict: '' @ ev_conflict_text env reason) s)
                  | ReplayActive tid \<Rightarrow> Inr (tid, True, reusable_bytes tid s)
                  | ResumeExisting tid bytes_completed \<Rightarrow> Inr (tid, True, bytes_completed)
                  | ProceedNew tid \<Rightarrow> Inr (tid, False, 0)))
      | _ \<Rightarrow>
          (s, case sv_store s of
                Some st \<Rightarrow>
                  (case ss_get_by_idempotency Server (tc_idempotency_key create) st of
                     Ok existing \<Rightarrow> Inr (tr_transfer_id existing, True, reusable_bytes (tr_transfer_id existing) s)
                   | _ \<Rightarrow> Inr (dr_fresh_id d, False, 0))
              | None \<Rightarrow> Inr (dr_fresh_id d, False, 0)))"

text \<open>The durable record of a new transfer and, for an upload, its journal row; errors are ignored.\<close>

definition record_transfer ::
  "'b server_env \<Rightarrow> draw \<Rightarrow> transfer_create \<Rightarrow> vpath \<Rightarrow> u64 \<Rightarrow> transfer_id \<Rightarrow> u64 \<Rightarrow> 'b server \<Rightarrow> 'b server" where
  "record_transfer env d create dst bytes_total tid bytes_reusable s =
     (case sv_store s of
        None \<Rightarrow> s
      | Some st \<Rightarrow>
          let now = dr_now_ms d;
              r = \<lparr>tr_transfer_id = tid, tr_idempotency_key = tc_idempotency_key create, tr_role = Server,
                   tr_direction = (if tc_op create = transfer_op.Upload then direction.Upload else direction.Download),
                   tr_status = Active, tr_remote_path = tc_dst_path create, tr_local_path = [],
                   tr_file_size = bytes_total, tr_file_hash = tc_file_hash create, tr_verified_up_to = 0,
                   tr_last_checkpoint_ms = now, tr_bytes_completed = bytes_reusable,
                   tr_staging_relpath = ev_tid_text env tid @ [slash] @ vpath_str dst,
                   tr_created_ms = now, tr_updated_ms = now\<rparr>;
              st = fst (ss_upsert_transfer r st);
              st = (if tc_op create = transfer_op.Upload
                    then ss_write_journal \<lparr>cj_transfer_id = tid, cj_file_id = 1, cj_remote_path = tc_dst_path create,
                           cj_status = Commit_Pending, cj_updated_ms = now\<rparr> st
                    else st)
          in s\<lparr>sv_store := Some st\<rparr>)"

text \<open>
  The rest of an upload or download: \<open>session\<close> stands for the code after the record, which runs
  the data streams. The active-transfer counter is taken back when the handler ends.
\<close>

definition handle_transfer ::
  "('b server_env \<Rightarrow> transfer_create \<Rightarrow> vpath \<Rightarrow> u64 \<Rightarrow> transfer_id \<Rightarrow> bool \<Rightarrow> u64 \<Rightarrow> 'b server \<Rightarrow> 'b outcome)
     \<Rightarrow> 'b server_env \<Rightarrow> draw \<Rightarrow> identity \<Rightarrow> transfer_create \<Rightarrow> 'b server \<Rightarrow> 'b outcome" where
  "handle_transfer session env d who create s =
     (let upload = (tc_op create = transfer_op.Upload);
          leave = (\<lambda>(s, out, r). (s\<lparr>sv_stats := st_transfers_active_update (\<lambda>n. n - 1) (sv_stats s)\<rparr>, out, r))
      in
      case authorizer_check (ev_grants env) who (if upload then OpUpload else OpDownload) (tc_dst_path create) of
        Ok dst \<Rightarrow>
          (case (if upload then Some (Some (tc_file_size create)) else ev_stat env dst (sv_backend s)) of
             None \<Rightarrow> (s, [], Err Internal)
           | Some None \<Rightarrow> send_error FileNotFound (lit ''not found'') s
           | Some (Some bytes_total) \<Rightarrow>
               let (s, choice) = choose_transfer env d create bytes_total s in
               (case choice of
                  Inl out \<Rightarrow> out
                | Inr (tid, resumed, bytes_reusable) \<Rightarrow>
                    let s = bump st_transfers_active_update s in
                    leave
                      (case ev_check_quota env (id_name who) bytes_total of
                         Some reason \<Rightarrow>
                           send_error error_code.QuotaExceeded reason
                             (bump st_resource_limit_hits_update (bump st_resource_limit_hits_quota_update s))
                       | None \<Rightarrow>
                           let required = saturating_add bytes_total (ev_min_free_space env) in
                           (case (if upload \<and> bytes_total > 0 then ev_available_space env (sv_backend s) else None) of
                              Some avail \<Rightarrow>
                                if avail < required
                                then send_error error_code.DiskFull
                                       (lit ''insufficient disk space: available '' @ lit (show_nat (unat avail))
                                        @ lit '' B < required '' @ lit (show_nat (unat required)) @ lit '' B'')
                                       (bump st_resource_limit_hits_update (bump st_disk_full_errors_update s))
                                else session env create dst bytes_total tid resumed bytes_reusable
                                       (record_transfer env d create dst bytes_total tid bytes_reusable s)
                            | None \<Rightarrow>
                                session env create dst bytes_total tid resumed bytes_reusable
                                  (record_transfer env d create dst bytes_total tid bytes_reusable s)))))
      | _ \<Rightarrow> deny s)"

text \<open>The dispatch; \<open>other\<close> stands for extended attributes and directory synchronisation.\<close>

definition handle_transfer_create ::
  "('b server_env \<Rightarrow> transfer_create \<Rightarrow> vpath \<Rightarrow> u64 \<Rightarrow> transfer_id \<Rightarrow> bool \<Rightarrow> u64 \<Rightarrow> 'b server \<Rightarrow> 'b outcome)
     \<Rightarrow> ('b server_env \<Rightarrow> draw \<Rightarrow> identity \<Rightarrow> transfer_create \<Rightarrow> 'b server \<Rightarrow> 'b outcome)
     \<Rightarrow> 'b server_env \<Rightarrow> draw \<Rightarrow> identity \<Rightarrow> bytes \<Rightarrow> 'b server \<Rightarrow> 'b outcome" where
  "handle_transfer_create session other env d who payload s =
     (case transfer_create_decode payload of
        Ok create \<Rightarrow>
          (case tc_op create of
             Delete \<Rightarrow> handle_delete env d who create s
           | SyncDelete \<Rightarrow> handle_delete env d who create s
           | Symlink \<Rightarrow> handle_symlink env d who create s
           | Hardlink \<Rightarrow> handle_hardlink env d who create s
           | SetXattr \<Rightarrow> other env d who create s
           | SyncUpload \<Rightarrow> other env d who create s
           | SyncDownload \<Rightarrow> other env d who create s
           | transfer_op.Upload \<Rightarrow> handle_transfer session env d who create s
           | transfer_op.Download \<Rightarrow> handle_transfer session env d who create s)
      | Err e \<Rightarrow> (s, [], Err (Protocol e))
      | Panic \<Rightarrow> (s, [], Panic))"

section \<open>Queries, cancellation, resumption\<close>

fun transfer_status_name :: "transfer_status \<Rightarrow> bytes" where
  "transfer_status_name Active = lit ''active''"
| "transfer_status_name Cancelled = lit ''cancelled''"
| "transfer_status_name transfer_status.Committed = lit ''committed''"
| "transfer_status_name Resumable = lit ''resumable''"

fun direction_name :: "direction \<Rightarrow> bytes" where
  "direction_name direction.Upload = lit ''upload''"
| "direction_name direction.Download = lit ''download''"

definition stat_of_record :: "transfer_record \<Rightarrow> stat_result" where
  "stat_of_record r =
     \<lparr>sr_transfer_id = tr_transfer_id r, sr_found = True, sr_status = transfer_status_name (tr_status r),
      sr_direction = direction_name (tr_direction r), sr_remote_path = tr_remote_path r,
      sr_file_size = tr_file_size r, sr_bytes_completed = tr_bytes_completed r,
      sr_verified_up_to = tr_verified_up_to r, sr_created_ms = tr_created_ms r, sr_updated_ms = tr_updated_ms r\<rparr>"

definition stat_absent :: "transfer_id \<Rightarrow> bytes \<Rightarrow> stat_result" where
  "stat_absent tid status =
     \<lparr>sr_transfer_id = tid, sr_found = False, sr_status = status, sr_direction = [], sr_remote_path = [],
      sr_file_size = 0, sr_bytes_completed = 0, sr_verified_up_to = 0, sr_created_ms = 0, sr_updated_ms = 0\<rparr>"

fun is_ok :: "('e, 'a) res \<Rightarrow> bool" where
  "is_ok (Ok _) = True"
| "is_ok _ = False"

definition handle_stat :: "'b server_env \<Rightarrow> identity \<Rightarrow> bytes \<Rightarrow> 'b server \<Rightarrow> message list" where
  "handle_stat env who payload s =
     (case stat_query_decode payload of
        Ok q \<Rightarrow>
          [StatResult
            (case sv_store s of
               None \<Rightarrow> stat_absent (sq_transfer_id q) (lit ''no_state'')
             | Some st \<Rightarrow>
                 (case ss_get_transfer (sq_transfer_id q) st of
                    Ok r \<Rightarrow>
                      if is_ok (authorizer_check (ev_grants env) who OpList (tr_remote_path r))
                      then stat_of_record r else stat_absent (sq_transfer_id q) (lit ''missing'')
                  | _ \<Rightarrow> stat_absent (sq_transfer_id q) (lit ''missing'')))]
      | _ \<Rightarrow> [])"

definition handle_list :: "'b server_env \<Rightarrow> identity \<Rightarrow> bytes \<Rightarrow> 'b server \<Rightarrow> message list" where
  "handle_list env who payload s =
     (case list_query_decode payload of
        Ok q \<Rightarrow>
          let clean_prefix = dropWhile (\<lambda>b. b = slash) (lq_url_prefix q);
              entries =
                (case sv_store s of
                   Some st \<Rightarrow>
                     map stat_of_record
                       (filter (\<lambda>r. is_ok (authorizer_check (ev_grants env) who OpList (tr_remote_path r)))
                          (ss_list_by_path Server clean_prefix st))
                 | None \<Rightarrow> [])
          in [ListResult \<lparr>lr_entries = entries\<rparr>]
      | _ \<Rightarrow> [])"

text \<open>\<open>cancel_transfer\<close> of \<open>transfer/engine_m3.rs\<close>; removal of the staging file is left out.\<close>

definition cancel_transfer :: "u64 \<Rightarrow> transfer_id \<Rightarrow> state_store \<Rightarrow> state_store" where
  "cancel_transfer now tid st =
     (case ss_get_transfer tid st of
        Ok r \<Rightarrow> fst (ss_update_transfer (r\<lparr>tr_status := Cancelled, tr_updated_ms := now\<rparr>) st)
      | _ \<Rightarrow> st)"

definition handle_cancel :: "'b server_env \<Rightarrow> draw \<Rightarrow> identity \<Rightarrow> bytes \<Rightarrow> 'b server \<Rightarrow> 'b server" where
  "handle_cancel env d who payload s =
     (case cancel_decode payload of
        Ok c \<Rightarrow>
          (case sv_store s of
             None \<Rightarrow> s
           | Some st \<Rightarrow>
               (case ss_get_transfer (cn_transfer_id c) st of
                  Ok r \<Rightarrow>
                    if is_ok (authorizer_check (ev_grants env) who
                               (if tr_direction r = direction.Upload then OpUpload else OpDownload) (tr_remote_path r))
                    then s\<lparr>sv_store := Some (cancel_transfer (dr_now_ms d) (cn_transfer_id c) st)\<rparr>
                    else s
                | _ \<Rightarrow> s))
      | _ \<Rightarrow> s)"

text \<open>
  \<open>RESUME\<close>, up to the wait for \<open>TRANSFER_BEGIN\<close>: the answer, and the record that the session
  then continues.
\<close>

definition handle_resume ::
  "'b server_env \<Rightarrow> identity \<Rightarrow> bytes \<Rightarrow> 'b server \<Rightarrow> message list \<times> transfer_record option" where
  "handle_resume env who payload s =
     (let not_found = (case error_detail_new (lit ''not found'') of
                         Ok d \<Rightarrow> ([Error (error_msg_new FileNotFound d)], None)
                       | _ \<Rightarrow> ([], None))
      in
      case resume_decode payload of
        Ok q \<Rightarrow>
          (case sv_store s of
             None \<Rightarrow> not_found
           | Some st \<Rightarrow>
               (case (case ss_get_transfer (rs_transfer_id q) st of
                        Ok r \<Rightarrow> Ok r
                      | _ \<Rightarrow> ss_get_by_idempotency Server (rs_idempotency_key q) st) of
                  Ok r \<Rightarrow>
                    if is_ok (authorizer_check (ev_grants env) who
                               (if tr_direction r = direction.Upload then OpResume else OpDownload) (tr_remote_path r))
                    then
                      let bm = (case ss_read_bitmap (tr_transfer_id r) st of Ok bm \<Rightarrow> bm | _ \<Rightarrow> bm_new) in
                      ([ResumeState
                          \<lparr>rst_transfer_id = tr_transfer_id r, rst_staging_relpath = tr_staging_relpath r,
                           rst_file_size = tr_file_size r, rst_bytes_completed = bm_bytes_completed bm,
                           rst_verified_up_to = tr_verified_up_to r, rst_file_hash = tr_file_hash r,
                           rst_completed_chunks = bm_set bm\<rparr>], Some r)
                    else not_found
                | _ \<Rightarrow> not_found))
      | _ \<Rightarrow> ([], None))"

section \<open>Nothing happens without the authorizer\<close>

lemma bump_fields [simp]:
  "sv_backend (bump f s) = sv_backend s" "sv_store (bump f s) = sv_store s" "sv_ledger (bump f s) = sv_ledger s"
  "sv_limiter (bump f s) = sv_limiter s"
  by (simp_all add: bump_def)

lemma send_state [simp]: "fst (send_error code text s) = s" "fst (send_committed tid n s) = s"
  by (simp_all add: send_error_def send_committed_def split: res.splits)

lemma mark_done_backend [simp]: "sv_backend (mark_done d c s) = sv_backend s" "sv_store (mark_done d c s) = sv_store s"
  by (simp_all add: mark_done_def split: option.splits bool.splits)

lemma idempotency_gate_backend:
  "sv_backend (fst (idempotency_gate env d c s)) = sv_backend s"
  "sv_store (fst (idempotency_gate env d c s)) = sv_store s"
  "snd (idempotency_gate env d c s) = Some out \<Longrightarrow> sv_backend (fst out) = sv_backend s \<and> sv_store (fst out) = sv_store s"
  by (auto simp: idempotency_gate_def Let_def split_beta split: option.splits bool.splits idempotency_action.splits)

lemma policy_gate_backend:
  "sv_backend (fst (policy_gate env d who s)) = sv_backend s" "sv_store (fst (policy_gate env d who s)) = sv_store s"
  "snd (policy_gate env d who s) = Some out \<Longrightarrow> sv_backend (fst out) = sv_backend s"
  by (auto simp: policy_gate_def Let_def split_beta split: deletion_policy.splits if_splits)

lemma delete_backend:
  "sv_backend (fst (handle_delete env d who c s)) = sv_backend s \<or>
   (\<exists>dst. authorizer_check (ev_grants env) who (if tc_op c = SyncDelete then OpSyncDelete else OpDelete) (tc_dst_path c) = Ok dst
      \<and> snd (policy_gate env d who (bump st_deletions_attempted_update s)) = None
      \<and> sv_backend (fst (handle_delete env d who c s)) = fst (ev_remove env dst (sv_backend s)))"
proof -
  obtain s1 p where g1: "policy_gate env d who (bump st_deletions_attempted_update s) = (s1, p)" by fastforce
  obtain s2 q where g2: "idempotency_gate env d c s1 = (s2, q)" by fastforce
  have b1: "sv_backend s1 = sv_backend s" using policy_gate_backend(1) [of env d who "bump st_deletions_attempted_update s"] g1 by simp
  have b2: "sv_backend s2 = sv_backend s" using idempotency_gate_backend(1) [of env d c s1] g2 b1 by simp
  show ?thesis
  proof (cases p)
    case (Some out)
    then show ?thesis
      using policy_gate_backend(3) [of env d who "bump st_deletions_attempted_update s" out] g1
      by (simp add: handle_delete_def Let_def)
  next
    case None
    show ?thesis
    proof (cases q)
      case (Some out)
      then show ?thesis using None g1 g2 b1 idempotency_gate_backend(3) [of env d c s1 out]
        by (simp add: handle_delete_def Let_def)
    next
      case q: None
      then show ?thesis using None g1 g2 b2
        by (auto simp: handle_delete_def Let_def split: res.splits)
    qed
  qed
qed

lemma symlink_backend:
  "sv_backend (fst (handle_symlink env d who c s)) = sv_backend s \<or>
   (\<exists>dst p. authorizer_check (ev_grants env) who OpUpload (tc_dst_path c) = Ok dst
      \<and> validate_symlink_target dst (tc_src_path c) = Ok p
      \<and> sv_backend (fst (handle_symlink env d who c s)) = fst (ev_create_symlink env dst (tc_src_path c) (sv_backend s)))"
proof -
  obtain s2 q where g2: "idempotency_gate env d c s = (s2, q)" by fastforce
  have b2: "sv_backend s2 = sv_backend s" using idempotency_gate_backend(1) [of env d c s] g2 by simp
  show ?thesis
  proof (cases q)
    case (Some out)
    then show ?thesis using g2 idempotency_gate_backend(3) [of env d c s out] by (simp add: handle_symlink_def)
  next
    case None
    then show ?thesis using g2 b2
      by (auto simp: handle_symlink_def deny_def Let_def split_beta split: res.splits option.splits)
  qed
qed

lemma hardlink_backend:
  "sv_backend (fst (handle_hardlink env d who c s)) = sv_backend s \<or>
   (\<exists>src dst. authorizer_check (ev_grants env) who OpUpload (tc_src_path c) = Ok src
      \<and> authorizer_check (ev_grants env) who OpUpload (tc_dst_path c) = Ok dst
      \<and> sv_backend (fst (handle_hardlink env d who c s)) = fst (ev_create_hardlink env dst src (sv_backend s)))"
proof -
  obtain s2 q where g2: "idempotency_gate env d c s = (s2, q)" by fastforce
  have b2: "sv_backend s2 = sv_backend s" using idempotency_gate_backend(1) [of env d c s] g2 by simp
  show ?thesis
  proof (cases q)
    case (Some out)
    then show ?thesis using g2 idempotency_gate_backend(3) [of env d c s out] by (simp add: handle_hardlink_def)
  next
    case None
    then show ?thesis using g2 b2
      by (auto simp: handle_hardlink_def deny_def Let_def split_beta split: res.splits option.splits)
  qed
qed

section \<open>What a caller can learn\<close>

definition may_list :: "'b server_env \<Rightarrow> identity \<Rightarrow> transfer_record \<Rightarrow> bool" where
  "may_list env who r \<longleftrightarrow> is_ok (authorizer_check (ev_grants env) who OpList (tr_remote_path r))"

text \<open>The rows of the store that an identity may list.\<close>

definition visible :: "'b server_env \<Rightarrow> identity \<Rightarrow> state_store \<Rightarrow> (transfer_id \<times> transfer_record) list" where
  "visible env who st = filter (\<lambda>(k, r). may_list env who r) (ss_transfers st)"

lemma map_of_visible:
  "distinct (map fst t) \<Longrightarrow>
     map_of (filter (\<lambda>(k, r). P r) t) tid = (case map_of t tid of Some r \<Rightarrow> if P r then Some r else None | None \<Rightarrow> None)"
  by (induction t) (auto split: option.splits simp: map_of_eq_None_iff)

lemma stat_visible:
  assumes "distinct (map fst (ss_transfers st))" and "sv_store s = Some st"
  shows "handle_stat env who payload s =
    (case stat_query_decode payload of
       Ok q \<Rightarrow> [StatResult (case map_of (visible env who st) (sq_transfer_id q) of
                             Some r \<Rightarrow> stat_of_record r
                           | None \<Rightarrow> stat_absent (sq_transfer_id q) (lit ''missing''))]
     | _ \<Rightarrow> [])"
  using assms
  by (auto simp: handle_stat_def visible_def map_of_visible may_list_def ss_get_transfer_def
      split: res.splits option.splits)

lemma list_visible:
  assumes "sv_store s = Some st"
  shows "handle_list env who payload s =
    (case list_query_decode payload of
       Ok q \<Rightarrow> [ListResult \<lparr>lr_entries = map stat_of_record (sort_key tr_created_ms
                 (filter (\<lambda>r. tr_role r = Server \<and> prefix (dropWhile (\<lambda>b. b = slash) (lq_url_prefix q)) (tr_remote_path r))
                    (map snd (visible env who st))))\<rparr>]
     | _ \<Rightarrow> [])"
proof -
  have "map snd (filter (\<lambda>(k, r). may_list env who r) t) = filter (may_list env who) (map snd t)"
    for t :: "(transfer_id \<times> transfer_record) list"
    by (induction t) auto
  then show ?thesis using assms
    by (simp add: handle_list_def ss_list_by_path_def filter_sort visible_def Let_def conj_ac flip: may_list_def
        split: res.splits)
qed

section \<open>Retries and error paths\<close>

lemma not_found_ok [simp]: "error_detail_new (lit ''not found'') = Ok (ErrorDetail (lit ''not found''))"
  by (simp add: error_detail_new_def lit_def)

text \<open>
  A first deletion answers with a fresh id; its retry is replayed from the ledger, which
  holds another one.
\<close>

lemma delete_then_replay:
  assumes "ev_policy env = ExplicitGrant" and "sv_ledger s = Some l" and "sv_store s = None"
    and "tc_idempotency_key c \<noteq> []" and "map_of l (Server, tc_idempotency_key c) = None"
    and "authorizer_check (ev_grants env) who (if tc_op c = SyncDelete then OpSyncDelete else OpDelete) (tc_dst_path c) = Ok dst"
    and "handle_delete env d who c s = (s', out, r)"
  shows "out = [message.Committed \<lparr>cd_transfer_id = dr_fresh_id d, cd_files = 1\<rparr>]
    \<and> fst (snd (handle_delete env d' who' c s')) = [message.Committed \<lparr>cd_transfer_id = dr_ledger_id d, cd_files = 1\<rparr>]"
proof -
  define s0 where "s0 = bump st_deletions_attempted_update s"
  obtain l' a where ev: "evaluate_transfer_create None (dr_ledger_id d) (dr_instant d) Server
      (tc_idempotency_key c) (tc_dst_path c) 0 l = (l', a)" by fastforce
  have a: "a = ProceedNew (dr_ledger_id d)"
    using ev assms(5) by (auto simp: evaluate_transfer_create_def ledger_fast_path_def ledger_after_miss_def)
  obtain e where e: "map_of l' (Server, tc_idempotency_key c) = Some e" "le_transfer_id e = dr_ledger_id d"
    "le_remote_path e = tc_dst_path c" "le_expected_size e = 0"
    using evaluate_new(3) [of None "dr_ledger_id d" "dr_instant d" Server] ev a by blast
  have st: "store_get s0 = None" using assms(3) by (simp add: store_get_def s0_def)
  have g: "idempotency_gate env d c s0 = (s0\<lparr>sv_ledger := Some l'\<rparr>, None)"
    using assms(2,4) st ev a by (simp add: idempotency_gate_def s0_def)
  have h: "handle_delete env d who c s = send_committed (dr_fresh_id d) 1
      (mark_done d c (bump st_deletions_executed_update (s0\<lparr>sv_ledger := Some l',
          sv_backend := fst (ev_remove env dst (sv_backend s))\<rparr>)))"
    using assms(1,6) g by (simp add: handle_delete_def Let_def policy_gate_def s0_def [symmetric]) (simp add: s0_def)
  define l'' where "l'' = ledger_mark_committed (dr_instant d) Server (tc_idempotency_key c) 1 l'"
  have s': "sv_ledger s' = Some l''" and out: "out = [message.Committed \<lparr>cd_transfer_id = dr_fresh_id d, cd_files = 1\<rparr>]"
    and st': "sv_store s' = None"
    using assms(3,4,7) h by (auto simp: send_committed_def mark_done_def l''_def s0_def)
  have "map_of l'' (Server, tc_idempotency_key c) =
      Some (e\<lparr>le_status := transfer_status.Committed, le_committed_files := Some 1, le_updated_at := dr_instant d\<rparr>)"
    using e(1) by (simp add: l''_def ledger_mark_committed_def ss_maps)
  then have "ledger_fast_path Server (tc_idempotency_key c) (tc_dst_path c) 0 l'' = Some (ReplayCommitted (dr_ledger_id d) 1)"
    using e by (simp add: ledger_fast_path_def)
  then have "snd (idempotency_gate env d' c (bump st_deletions_attempted_update s')) =
      Some (send_committed (dr_ledger_id d) 1 (bump st_deletions_attempted_update s'\<lparr>sv_ledger := Some l''\<rparr>))"
    using s' assms(4) by (simp add: idempotency_gate_def evaluate_transfer_create_def Let_def)
  then have "handle_delete env d' who' c s' =
      send_committed (dr_ledger_id d) 1 (bump st_deletions_attempted_update s'\<lparr>sv_ledger := Some l''\<rparr>)"
    using assms(1) by (simp add: handle_delete_def Let_def policy_gate_def split_beta)
  then show ?thesis using out by (simp add: send_committed_def)
qed

text \<open>A request with an empty key joins whatever transfer was recorded under the empty key.\<close>

lemma empty_key_joins:
  assumes "ss_inv st" and "sv_store s = Some st" and "tc_idempotency_key c = []" and "tc_idempotency_key c' = []"
    and "map_of (ss_idem st) (Server, []) = None" and "map_of (ss_transfers st) tid = None"
  shows "\<exists>k. snd (choose_transfer env d' c' n' (record_transfer env d c dst n tid reuse s)) = Inr (tid, True, k)"
proof -
  define s1 where "s1 = record_transfer env d c dst n tid reuse s"
  obtain st1 where st1: "sv_store s1 = Some st1" and
      g: "\<exists>r. ss_get_by_idempotency Server [] st1 = Ok r \<and> tr_transfer_id r = tid"
    using assms
    by (auto simp: s1_def record_transfer_def Let_def ss_get_by_idempotency_def ss_upsert_transfer_def ss_write_journal_def
        ss_maps)
  then show ?thesis using assms(4) unfolding s1_def [symmetric]
    by (cases "sv_ledger s1") (auto simp: choose_transfer_def)
qed

text \<open>A long conflict text cut inside a character ends the handler with a panic.\<close>

lemma conflict_reply_panics:
  assumes "sv_ledger s = Some l" and "tc_idempotency_key c \<noteq> []"
    and "snd (evaluate_transfer_create (store_get s) (dr_ledger_id d) (dr_instant d) Server
           (tc_idempotency_key c) (tc_dst_path c) 0 l) = Conflict reason"
    and "length (lit ''idempotency conflict: '' @ ev_conflict_text env reason) > 256"
    and "\<not> is_char_boundary (lit ''idempotency conflict: '' @ ev_conflict_text env reason) 256"
  shows "snd (snd (handle_symlink env d who c s)) = Panic"
proof -
  have "error_detail_new (lit ''idempotency conflict: '' @ ev_conflict_text env reason) = Panic"
    using assms(4,5) error_detail_new_panics_iff by (simp add: MAX_ERROR_DETAIL_def)
  then show ?thesis
    using assms(1-3) by (simp add: handle_symlink_def idempotency_gate_def send_error_def split_beta Let_def)
qed

end
