(* ===== verification/Server_Session.thy ===== *)
theory Server_Session
  imports Server_Requests Session_Framing
begin

text \<open>
  The connection loop of \<open>ServerConn::run\<close> in \<open>session/server.rs\<close>: HELLO, AUTH, then requests.
  The input is a list with one record per turn of the loop; a handler that reads frames of
  its own uses up further records. The output is the list of frames written,
  connection closings and handled requests in order, with the result of the loop. The
  authenticator, the TLS exporter, the data sessions and Unicode lower-casing are parameters. The
  lemmas show that nothing is served to a peer the authenticator has not accepted, that the
  check for a missing identity in the serving state never fires, how many authentication
  failures a connection may have, and that the state only moves forward.
\<close>

section \<open>Definitions\<close>

datatype server_state = Accepted | TlsHandshake | AwaitHello | AwaitAuth | Serving | Draining | Closed

fun server_state_name :: "server_state \<Rightarrow> string" where
  "server_state_name Accepted = ''ACCEPTED''"
| "server_state_name TlsHandshake = ''TLS_HANDSHAKE''"
| "server_state_name AwaitHello = ''AWAIT_HELLO''"
| "server_state_name AwaitAuth = ''AWAIT_AUTH''"
| "server_state_name Serving = ''SERVING''"
| "server_state_name Draining = ''DRAINING''"
| "server_state_name Closed = ''CLOSED''"

datatype session_out = Registered | Unregistered | Reply message u64 | Close u32 | Handled identity u8 "message list"

record 'b session_env =
  se_env :: "'b server_env"
  se_server_caps :: capabilities
  se_agent :: bytes
  se_peer_identity :: "identity option"
  se_exporter :: "bytes + bytes"
  se_authenticate :: "identity \<Rightarrow> (velcrux_error, identity) res"
  se_authenticate_token :: "u16 \<Rightarrow> bytes \<Rightarrow> bytes \<Rightarrow> (velcrux_error, identity) res"
  se_error_text :: "velcrux_error \<Rightarrow> bytes"
  se_lowercase :: "bytes \<Rightarrow> bytes"
  se_max_auth_attempts :: u32
  se_session :: "'b server_env \<Rightarrow> transfer_create \<Rightarrow> vpath \<Rightarrow> u64 \<Rightarrow> transfer_id \<Rightarrow> bool \<Rightarrow> u64 \<Rightarrow> 'b server \<Rightarrow> 'b outcome"
  se_other :: "'b server_env \<Rightarrow> draw \<Rightarrow> identity \<Rightarrow> transfer_create \<Rightarrow> 'b server \<Rightarrow> 'b outcome"
  se_resume :: "transfer_record \<Rightarrow> 'b server \<Rightarrow> 'b outcome"

text \<open>
  What one turn meets: the migration verdict (\<open>None\<close> without a coordinator or address), the two
  watch channels (\<open>None\<close> when not configured), which branch of \<open>select!\<close> completes, the result
  of \<open>read_frame\<close>, clock and ids, and how many further turns a data session uses up. A changed
  channel carries its new value, or \<open>None\<close> when its sender is gone.
\<close>

datatype wake = Wake_Read | Wake_Drain "bool option" | Wake_Kill "bool option"

record turn =
  tu_migration :: "bool option"
  tu_drain :: "bool option"
  tu_kill :: "bool option"
  tu_wake :: wake
  tu_read :: "(velcrux_error, frame option) res"
  tu_draw :: draw
  tu_used :: nat

definition next_frame :: "turn \<Rightarrow> (velcrux_error, frame option) res" where
  "next_frame t =
     (let killed = Err (Protocol (InvalidStateTransition ''session terminated by administrator'')) in
      if tu_kill t = Some True then killed
      else if tu_drain t = Some True then Ok None
      else
        (case (tu_drain t, tu_kill t, tu_wake t) of
           (Some _, _, Wake_Drain (Some True)) \<Rightarrow> Ok None
         | (_, Some _, Wake_Kill (Some True)) \<Rightarrow> killed
         | _ \<Rightarrow> tu_read t))"

record 'b conn =
  cs_state :: server_state
  cs_identity :: "identity option"
  cs_auth_attempts :: u32
  cs_server :: "'b server"

text \<open>A turn of the loop: new state, output, the result if the loop ends, frames read besides.\<close>

type_synonym 'b reaction =
  "'b conn \<times> session_out list \<times> (velcrux_error, server_state) res option \<times> nat"

definition count :: "((u64 \<Rightarrow> u64) \<Rightarrow> server_stats \<Rightarrow> server_stats) \<Rightarrow> 'b conn \<Rightarrow> 'b conn" where
  "count field c = c\<lparr>cs_server := bump field (cs_server c)\<rparr>"

text \<open>\<open>write_frame\<close> with its error ignored, and with its error returned.\<close>

definition try_write :: "message \<Rightarrow> u64 \<Rightarrow> session_out list" where
  "try_write m rid = (case message_encode m of Ok _ \<Rightarrow> [Reply m rid] | _ \<Rightarrow> [])"

definition write_then :: "message \<Rightarrow> u64 \<Rightarrow> 'b conn \<Rightarrow> 'b reaction \<Rightarrow> 'b reaction" where
  "write_then m rid c next =
     (case message_encode m of
        Ok _ \<Rightarrow> (let (c', outs, r, k) = next in (c', Reply m rid # outs, r, k))
      | Err e \<Rightarrow> (c, [], Some (Err (Protocol e)), 0)
      | Panic \<Rightarrow> (c, [], Some Panic, 0))"

definition reply_error ::
  "error_code \<Rightarrow> bytes \<Rightarrow> u64 \<Rightarrow> 'b conn \<Rightarrow> session_out list \<Rightarrow> (velcrux_error, server_state) res option \<Rightarrow> 'b reaction" where
  "reply_error code text rid c rest r =
     (case error_detail_new text of
        Ok d \<Rightarrow> (c, try_write (Error (error_msg_new code d)) rid @ rest, r, 0)
      | Err e \<Rightarrow> (c, [], Some (Err (Protocol e)), 0)
      | Panic \<Rightarrow> (c, [], Some Panic, 0))"

text \<open>Error reply, close, and an error result.\<close>

definition violation :: "error_code \<Rightarrow> string \<Rightarrow> protocol_error \<Rightarrow> u64 \<Rightarrow> 'b conn \<Rightarrow> 'b reaction" where
  "violation code text e rid c =
     reply_error code (lit text) rid (count st_protocol_violations_update c)
       [Close (error_code_to_wire code)] (Some (Err (Protocol e)))"

definition await_hello :: "'b session_env \<Rightarrow> u8 \<Rightarrow> u64 \<Rightarrow> bytes \<Rightarrow> 'b conn \<Rightarrow> 'b reaction" where
  "await_hello se ty rid payload c =
     (if ty = HELLO then
        (case hello_decode payload of
           Ok h \<Rightarrow>
             let inter = caps_intersect (hello_capabilities h) (se_server_caps se) in
             (case caps_validate_intersection inter of
                Err s \<Rightarrow>
                  reply_error ProtocolVersionUnsupported (lit s) rid (c\<lparr>cs_state := Closed\<rparr>)
                    [Close (error_code_to_wire ProtocolVersionUnsupported)] (Some (Ok Closed))
              | Panic \<Rightarrow> (c, [], Some Panic, 0)
              | Ok _ \<Rightarrow>
                  write_then (HelloAck \<lparr>ack_version = PROTOCOL_VERSION, ack_capabilities = inter,
                                        ack_limits = limits_default, ack_agent = se_agent se\<rparr>) rid c
                    (count st_handshakes_update (c\<lparr>cs_state := AwaitAuth\<rparr>), [], None, 0))
         | Err e \<Rightarrow> (c, [], Some (Err (Protocol e)), 0)
         | Panic \<Rightarrow> (c, [], Some Panic, 0))
      else violation ProtocolViolation ''protocol violation: expected HELLO''
             (InvalidStateTransition ''expected HELLO'') rid c)"

text \<open>A failed attempt: counted, and the last one closes the connection.\<close>

definition auth_failed :: "'b session_env \<Rightarrow> bytes \<Rightarrow> u64 \<Rightarrow> 'b conn \<Rightarrow> 'b reaction" where
  "auth_failed se text rid c =
     (let c = count st_auth_failures_update (c\<lparr>cs_auth_attempts := cs_auth_attempts c + 1\<rparr>) in
      if cs_auth_attempts c \<ge> se_max_auth_attempts se
      then reply_error AuthFailed (lit ''maximum authentication attempts exceeded'') rid
             ((count st_auth_failures_max_attempts_update c)\<lparr>cs_state := Closed\<rparr>)
             [Close (error_code_to_wire AuthFailed)] (Some (Ok Closed))
      else reply_error AuthFailed text rid c [] None)"

definition auth_accepted :: "'b session_env \<Rightarrow> identity \<Rightarrow> u64 \<Rightarrow> 'b conn \<Rightarrow> 'b reaction" where
  "auth_accepted se who rid c =
     (let c = c\<lparr>cs_auth_attempts := 0\<rparr> in
      write_then (AuthOk \<lparr>auth_ok_identity = id_name who,
                          auth_ok_permissions = perm_bits (granted_permissions (ev_grants (se_env se)) who perm_default)\<rparr>) rid c
        (c\<lparr>cs_identity := Some who, cs_state := Serving\<rparr>, [], None, 0))"

definition await_auth :: "'b session_env \<Rightarrow> u8 \<Rightarrow> u64 \<Rightarrow> bytes \<Rightarrow> 'b conn \<Rightarrow> 'b reaction" where
  "await_auth se ty rid payload c =
     (if ty = AUTH then
        (case auth_decode payload of
           Ok a \<Rightarrow>
             if auth_mechanism a = AUTH_MECHANISM_MTLS then
               (case se_peer_identity se of
                  None \<Rightarrow> (c, [], Some (Err (Protocol (InvalidIdentity ''no peer identity''))), 0)
                | Some peer \<Rightarrow>
                    (case se_authenticate se peer of
                       Ok who \<Rightarrow> auth_accepted se who rid c
                     | Err e \<Rightarrow>
                         let text = se_error_text se e;
                             c = (if str_contains (lit ''revoked'') (se_lowercase se text)
                                     \<or> str_contains (lit ''crl'') (se_lowercase se text)
                                  then count st_auth_failures_crl_update c else c);
                             c = count st_auth_failures_update c
                         in reply_error AuthFailed (lit ''mTLS authentication failed: '' @ text) rid
                              (c\<lparr>cs_state := Closed\<rparr>) [Close (error_code_to_wire AuthFailed)] (Some (Ok Closed))
                     | Panic \<Rightarrow> (c, [], Some Panic, 0)))
             else if auth_mechanism a = AUTH_MECHANISM_SSH_PUBKEY then
               (case se_exporter se of
                  Inl text \<Rightarrow>
                    reply_error AuthFailed (lit ''TLS exporter secret error: '' @ text) rid
                      ((count st_auth_failures_update c)\<lparr>cs_state := Closed\<rparr>)
                      [Close (error_code_to_wire AuthFailed)] (Some (Ok Closed))
                | Inr secret \<Rightarrow>
                    (case se_authenticate_token se (auth_mechanism a) (auth_token a) secret of
                       Ok who \<Rightarrow> auth_accepted se who rid c
                     | Err e \<Rightarrow> auth_failed se (lit ''pubkey auth failed: '' @ se_error_text se e) rid c
                     | Panic \<Rightarrow> (c, [], Some Panic, 0)))
             else auth_failed se (lit ''unsupported auth mechanism'') rid c
         | Err e \<Rightarrow> (c, [], Some (Err (Protocol e)), 0)
         | Panic \<Rightarrow> (c, [], Some Panic, 0))
      else violation ProtocolViolation ''protocol violation: expected AUTH''
             (InvalidStateTransition ''expected AUTH'') rid c)"

text \<open>A request that ran: its replies, and the turns its session used. Its error is only logged.\<close>

definition handled :: "identity \<Rightarrow> u8 \<Rightarrow> nat \<Rightarrow> 'b conn \<Rightarrow> 'b outcome \<Rightarrow> 'b reaction" where
  "handled who ty k c out =
     (let (s, msgs, r) = out in
      (c\<lparr>cs_server := s\<rparr>, [Handled who ty msgs], (case r of Panic \<Rightarrow> Some Panic | _ \<Rightarrow> None), k))"

definition serving :: "'b session_env \<Rightarrow> turn \<Rightarrow> identity \<Rightarrow> u8 \<Rightarrow> u64 \<Rightarrow> bytes \<Rightarrow> 'b conn \<Rightarrow> 'b reaction" where
  "serving se t who ty rid payload c =
     (let s = cs_server c; env = se_env se; d = tu_draw t in
      if ty = PING then
        (case ping_decode payload of
           Ok p \<Rightarrow> write_then (Pong \<lparr>ping_nonce = ping_nonce p, ping_sender_ts_ms = dr_now_ms d\<rparr>) rid c
                    (count st_pings_update c, [], None, 0)
         | Err e \<Rightarrow> (c, [], Some (Err (Protocol e)), 0)
         | Panic \<Rightarrow> (c, [], Some Panic, 0))
      else if ty = BYE then (c\<lparr>cs_state := Closed\<rparr>, [], Some (Ok Closed), 0)
      else if ty = TRANSFER_CREATE then
        handled who ty (tu_used t) c (handle_transfer_create (se_session se) (se_other se) env d who payload s)
      else if ty = RESUME then
        (let (msgs, next) = handle_resume env who payload s in
         case next of
           None \<Rightarrow> handled who ty 0 c (s, msgs, Ok ())
         | Some r \<Rightarrow> let (s', more, res) = se_resume se r s in handled who ty (tu_used t) c (s', msgs @ more, res))
      else if ty = STAT then handled who ty 0 c (s, handle_stat env who payload s, Ok ())
      else if ty = LIST then handled who ty 0 c (s, handle_list env who payload s, Ok ())
      else if ty = CANCEL then handled who ty 0 c (handle_cancel env d who payload s, [], Ok ())
      else if ty = HELLO \<or> ty = AUTH then
        violation ProtocolViolation ''protocol violation: duplicate handshake in SERVING state''
          (InvalidStateTransition ''duplicate handshake in SERVING state'') rid c
      else if ty = COMMIT \<or> ty = TRANSFER_BEGIN \<or> ty = CHECKPOINT \<or> ty = VERIFY \<or> ty = MANIFEST_BEGIN then
        violation ProtocolViolation ''protocol violation: transfer message without active transfer context''
          (InvalidStateTransition ''unexpected transfer message in SERVING state'') rid c
      else violation UnsupportedMessage ''unsupported message'' (protocol_error.UnsupportedMessage ty) rid c)"

text \<open>One turn. The end of the stream, or a drain, ends the loop in the state it is in.\<close>

definition session_turn :: "'b session_env \<Rightarrow> turn \<Rightarrow> 'b conn \<Rightarrow> 'b reaction" where
  "session_turn se t c =
     (let with_frame = (\<lambda>react.
            case next_frame t of
              Ok (Some f) \<Rightarrow> react (frame_type_byte f) (frame_request_id f) (frame_payload f) c
            | Ok None \<Rightarrow> (c, [], Some (Ok (cs_state c)), 0)
            | Err e \<Rightarrow> (c, [], Some (Err e), 0)
            | Panic \<Rightarrow> (c, [], Some Panic, 0))
      in
      if tu_migration t = Some False
      then (c\<lparr>cs_state := Closed\<rparr>, [Close (error_code_to_wire ProtocolViolation)], Some (Ok Closed), 0)
      else
        (case cs_state c of
           AwaitHello \<Rightarrow> with_frame (await_hello se)
         | AwaitAuth \<Rightarrow> with_frame (await_auth se)
         | Serving \<Rightarrow>
             (case cs_identity c of
                Some who \<Rightarrow> with_frame (serving se t who)
              | None \<Rightarrow> (c, [], Some (Err (Protocol (InvalidStateTransition ''SERVING without authenticated identity''))), 0))
         | Closed \<Rightarrow> (c, [], Some (Ok Closed), 0)
         | st \<Rightarrow> (count st_protocol_violations_update c, [],
                   Some (Err (Protocol (InvalidStateTransition (server_state_name st)))), 0)))"

text \<open>The loop; a history that stops is a stream that ended.\<close>

function session_loop ::
  "'b session_env \<Rightarrow> turn list \<Rightarrow> 'b conn \<Rightarrow> 'b conn \<times> session_out list \<times> (velcrux_error, server_state) res" where
  "session_loop se [] c = (c, [], Ok (cs_state c))"
| "session_loop se (t # ts) c =
     (let (c1, outs, r, k) = session_turn se t c in
      case r of
        Some res \<Rightarrow> (c1, outs, res)
      | None \<Rightarrow> let (c2, outs2, res) = session_loop se (drop k ts) c1 in (c2, outs @ outs2, res))"
  by pat_completeness auto
termination by (relation "measure (\<lambda>(_, ts, _). length ts)") auto

text \<open>
  \<open>ServerConn::run\<close>. The connection is registered with the migration coordinator first, and
  taken back only on the way out of the loop: an error return skips it.
\<close>

definition session_run ::
  "'b session_env \<Rightarrow> turn list \<Rightarrow> 'b server \<Rightarrow> 'b conn \<times> session_out list \<times> (velcrux_error, server_state) res" where
  "session_run se ts s =
     (let c = count st_connections_update
                \<lparr>cs_state = AwaitHello, cs_identity = None, cs_auth_attempts = 0, cs_server = s\<rparr>;
          (c, outs, r) = session_loop se ts c
      in (c, Registered # outs @ (case r of Ok _ \<Rightarrow> [Unregistered] | _ \<Rightarrow> []), r))"

section \<open>Nothing is served before authentication\<close>

definition authenticated :: "'b session_env \<Rightarrow> identity \<Rightarrow> bool" where
  "authenticated se who \<longleftrightarrow>
     (\<exists>peer. se_peer_identity se = Some peer \<and> se_authenticate se peer = Ok who)
   \<or> (\<exists>token secret. se_exporter se = Inr secret
        \<and> se_authenticate_token se AUTH_MECHANISM_SSH_PUBKEY token secret = Ok who)"

definition auth_ok_for :: "'b session_env \<Rightarrow> identity \<Rightarrow> message" where
  "auth_ok_for se who = AuthOk \<lparr>auth_ok_identity = id_name who,
     auth_ok_permissions = perm_bits (granted_permissions (ev_grants (se_env se)) who perm_default)\<rparr>"

definition conn_inv :: "'b session_env \<Rightarrow> 'b conn \<Rightarrow> bool" where
  "conn_inv se c \<longleftrightarrow>
     cs_state c \<in> {AwaitHello, AwaitAuth, Serving, Closed}
   \<and> (cs_state c \<in> {AwaitHello, AwaitAuth} \<longrightarrow> cs_identity c = None)
   \<and> (cs_state c = Serving \<longrightarrow> cs_identity c \<noteq> None)
   \<and> (\<forall>who. cs_identity c = Some who \<longrightarrow> authenticated se who)
   \<and> (cs_state c \<noteq> Closed \<longrightarrow> cs_auth_attempts c = 0 \<or> cs_auth_attempts c < se_max_auth_attempts se)"

fun is_handled :: "session_out \<Rightarrow> bool" where
  "is_handled (Handled _ _ _) = True"
| "is_handled _ = False"

fun is_auth_failure :: "session_out \<Rightarrow> bool" where
  "is_auth_failure (Reply (Error m) _) \<longleftrightarrow> err_code m = AuthFailed"
| "is_auth_failure _ = False"

definition failures :: "session_out list \<Rightarrow> nat" where
  "failures outs = length (filter is_auth_failure outs)"

lemma count_fields [simp]:
  "cs_state (count f c) = cs_state c" "cs_identity (count f c) = cs_identity c"
  "cs_auth_attempts (count f c) = cs_auth_attempts c"
  by (simp_all add: count_def)

text \<open>How many failure replies are still possible.\<close>

definition budget :: "'b session_env \<Rightarrow> 'b conn \<Rightarrow> nat" where
  "budget se c = (if cs_state c \<in> {AwaitHello, AwaitAuth}
                  then max 1 (unat (se_max_auth_attempts se) - unat (cs_auth_attempts c)) else 0)"

definition turn_ok :: "'b session_env \<Rightarrow> 'b conn \<Rightarrow> 'b reaction \<Rightarrow> bool" where
  "turn_ok se c q \<longleftrightarrow> (case q of (c1, outs, r, k) \<Rightarrow>
     conn_inv se c1
   \<and> (\<forall>who ty ms. Handled who ty ms \<in> set outs \<longrightarrow> cs_identity c = Some who)
   \<and> (cs_identity c1 = cs_identity c
      \<or> (\<exists>who rid. cs_identity c1 = Some who \<and> outs = [Reply (auth_ok_for se who) rid]))
   \<and> Registered \<notin> set outs \<and> Unregistered \<notin> set outs
   \<and> (\<forall>st. r = Some (Ok st) \<longrightarrow> st = cs_state c1)
   \<and> failures outs + (if r = None then budget se c1 else 0) \<le> budget se c)"

lemma failures_simps [simp]:
  "failures [] = 0" "failures (x # xs) = (if is_auth_failure x then 1 else 0) + failures xs"
  "failures (xs @ ys) = failures xs + failures ys"
  by (simp_all add: failures_def)

lemma turn_if:
  "\<lbrakk>b \<Longrightarrow> turn_ok se c x; \<not> b \<Longrightarrow> turn_ok se c y\<rbrakk> \<Longrightarrow> turn_ok se c (if b then x else y)"
  by simp

lemma turn_res:
  "\<lbrakk>\<And>x. m = Ok x \<Longrightarrow> turn_ok se c (f x); \<And>e. m = Err e \<Longrightarrow> turn_ok se c (g e); m = Panic \<Longrightarrow> turn_ok se c h\<rbrakk>
   \<Longrightarrow> turn_ok se c (case m of Ok x \<Rightarrow> f x | Err e \<Rightarrow> g e | Panic \<Rightarrow> h)"
  by (cases m) auto

lemma turn_option:
  "\<lbrakk>m = None \<Longrightarrow> turn_ok se c x; \<And>y. m = Some y \<Longrightarrow> turn_ok se c (f y)\<rbrakk>
   \<Longrightarrow> turn_ok se c (case m of None \<Rightarrow> x | Some y \<Rightarrow> f y)"
  by (cases m) auto

lemma turn_sum:
  "\<lbrakk>\<And>x. m = Inl x \<Longrightarrow> turn_ok se c (f x); \<And>y. m = Inr y \<Longrightarrow> turn_ok se c (g y)\<rbrakk>
   \<Longrightarrow> turn_ok se c (case m of Inl x \<Rightarrow> f x | Inr y \<Rightarrow> g y)"
  by (cases m) auto

lemma turn_prod: "(\<And>x y. m = (x, y) \<Longrightarrow> turn_ok se c (f x y)) \<Longrightarrow> turn_ok se c (case m of (x, y) \<Rightarrow> f x y)"
  by (cases m) auto

lemmas turn_intros = turn_if turn_res turn_option turn_sum turn_prod

lemma reply_error_ok:
  assumes "conn_inv se c1" "cs_identity c1 = cs_identity c"
    and "\<forall>st. r = Some (Ok st) \<longrightarrow> st = cs_state c1"
    and "set rest \<subseteq> range Close"
    and "(if code = AuthFailed then 1 else 0) + (if r = None then budget se c1 else 0) \<le> budget se c"
  shows "turn_ok se c (reply_error code text rid c1 rest r)"
proof -
  have "failures rest = 0" using assms(4) by (induction rest) auto
  then show ?thesis using assms
    by (auto simp: turn_ok_def reply_error_def try_write_def error_msg_new_def split: res.splits)
qed

lemma violation_ok:
  "\<lbrakk>conn_inv se c; code \<noteq> AuthFailed\<rbrakk> \<Longrightarrow> turn_ok se c (violation code text e rid c)"
  unfolding violation_def by (rule reply_error_ok) (auto simp: conn_inv_def)

lemma stop_ok: "\<lbrakk>conn_inv se c; \<forall>st. r = Ok st \<longrightarrow> st = cs_state c\<rbrakk> \<Longrightarrow> turn_ok se c (c, [], Some r, k)"
  by (simp add: turn_ok_def)

lemma await_hello_ok:
  assumes "conn_inv se c" "cs_state c = AwaitHello"
  shows "turn_ok se c (await_hello se ty rid payload c)"
proof -
  have next_inv: "conn_inv se (count st_handshakes_update (c\<lparr>cs_state := AwaitAuth\<rparr>))"
    and closed: "conn_inv se (c\<lparr>cs_state := Closed\<rparr>)"
    using assms by (auto simp: conn_inv_def)
  have go: "turn_ok se c (write_then (HelloAck m) rid c
              (count st_handshakes_update (c\<lparr>cs_state := AwaitAuth\<rparr>), [], None, 0))" for m
    using assms next_inv by (auto simp: write_then_def turn_ok_def budget_def split: res.splits)
  have refuse: "turn_ok se c (reply_error ProtocolVersionUnsupported why rid (c\<lparr>cs_state := Closed\<rparr>)
                  [Close (error_code_to_wire ProtocolVersionUnsupported)] (Some (Ok Closed)))" for why
    by (rule reply_error_ok) (use closed in auto)
  show ?thesis
    using assms go refuse violation_ok [OF assms(1)]
    by (auto simp: await_hello_def Let_def stop_ok split: res.splits)
qed

lemma auth_accepted_ok:
  assumes "conn_inv se c" "cs_state c = AwaitAuth" "authenticated se who"
  shows "turn_ok se c (auth_accepted se who rid c)"
proof -
  have "conn_inv se (c\<lparr>cs_auth_attempts := 0, cs_identity := Some who, cs_state := Serving\<rparr>)"
    "conn_inv se (c\<lparr>cs_auth_attempts := 0\<rparr>)"
    using assms by (auto simp: conn_inv_def)
  then show ?thesis using assms(2)
    by (auto simp: auth_accepted_def write_then_def turn_ok_def budget_def auth_ok_for_def Let_def split: res.splits)
qed

lemma auth_failed_ok:
  assumes "conn_inv se c" "cs_state c = AwaitAuth"
  shows "turn_ok se c (auth_failed se text rid c)"
proof -
  let ?c = "count st_auth_failures_update (c\<lparr>cs_auth_attempts := cs_auth_attempts c + 1\<rparr>)"
  let ?max = "se_max_auth_attempts se"
  have closed: "conn_inv se ((count f ?c)\<lparr>cs_state := Closed\<rparr>)" for f
    using assms by (auto simp: conn_inv_def)
  show ?thesis
  proof (cases "cs_auth_attempts ?c \<ge> ?max")
    case True
    show ?thesis unfolding auth_failed_def Let_def if_P [OF True]
      by (rule reply_error_ok) (use closed assms(2) in \<open>auto simp: budget_def\<close>)
  next
    case False
    then have lt: "cs_auth_attempts c + 1 < ?max" by simp
    have a: "cs_auth_attempts c = 0 \<or> cs_auth_attempts c < ?max" using assms by (auto simp: conn_inv_def)
    have "cs_auth_attempts c + 1 \<noteq> 0"
    proof
      assume z: "cs_auth_attempts c + 1 = 0"
      then have "cs_auth_attempts c = - 1" by (simp add: eq_neg_iff_add_eq_0)
      with a show False using word_n1_ge [of ?max] by (auto simp: not_less)
    qed
    then have u: "unat (cs_auth_attempts c + 1) = Suc (unat (cs_auth_attempts c))"
      by (metis add.commute unatSuc)
    have "conn_inv se ?c" using assms lt by (auto simp: conn_inv_def)
    then show ?thesis unfolding auth_failed_def Let_def if_not_P [OF False]
      by (rule reply_error_ok)
        (use assms(2) lt in \<open>auto simp: budget_def u word_less_nat_alt\<close>)
  qed
qed

lemma auth_decode_mechanism:
  "auth_decode buf = Ok a \<Longrightarrow> auth_mechanism a \<in> {AUTH_MECHANISM_MTLS, AUTH_MECHANISM_SSH_PUBKEY}"
  by (auto simp: auth_decode_def res_simps split: if_splits res.splits)

lemma await_auth_ok:
  assumes "conn_inv se c" "cs_state c = AwaitAuth"
  shows "turn_ok se c (await_auth se ty rid payload c)"
proof -
  have refuse: "turn_ok se c (reply_error AuthFailed why rid (c1\<lparr>cs_state := Closed\<rparr>) [Close n] (Some (Ok Closed)))"
    if "cs_identity c1 = cs_identity c" "cs_auth_attempts c1 = cs_auth_attempts c" for why c1 n
    by (rule reply_error_ok) (use assms that in \<open>auto simp: conn_inv_def budget_def\<close>)
  have peer: "authenticated se who" if "se_peer_identity se = Some p" "se_authenticate se p = Ok who" for p who
    using that by (auto simp: authenticated_def)
  have token: "authenticated se who"
    if "se_exporter se = Inr k" "se_authenticate_token se AUTH_MECHANISM_SSH_PUBKEY t k = Ok who" for k t who
    using that by (auto simp: authenticated_def)
  note parts = violation_ok [OF assms(1)] auth_failed_ok [OF assms] auth_accepted_ok [OF assms] stop_ok [OF assms(1)]
  show ?thesis
    unfolding await_auth_def Let_def
    by (intro turn_intros parts refuse) (auto intro: peer token)
qed

lemma handled_ok:
  "\<lbrakk>conn_inv se c; cs_state c = Serving; cs_identity c = Some who\<rbrakk> \<Longrightarrow> turn_ok se c (handled who ty k c out)"
  by (auto simp: handled_def turn_ok_def conn_inv_def budget_def split: prod.splits res.splits)

lemma serving_ok:
  assumes "conn_inv se c" "cs_state c = Serving" "cs_identity c = Some who"
  shows "turn_ok se c (serving se t who ty rid payload c)"
proof -
  have pong: "turn_ok se c (write_then (Pong m) rid c (count st_pings_update c, [], None, 0))" for m
    using assms by (auto simp: write_then_def turn_ok_def budget_def conn_inv_def split: res.splits)
  have bye: "turn_ok se c (c\<lparr>cs_state := Closed\<rparr>, [], Some (Ok Closed), 0)"
    using assms by (auto simp: turn_ok_def conn_inv_def)
  show ?thesis unfolding serving_def Let_def
    by (intro turn_intros pong bye violation_ok handled_ok stop_ok assms) auto
qed

lemma session_turn_ok:
  assumes "conn_inv se c"
  shows "turn_ok se c (session_turn se t c)"
proof -
  have closed: "turn_ok se c (c\<lparr>cs_state := Closed\<rparr>, [Close n], Some (Ok Closed), 0)" for n
    using assms by (auto simp: turn_ok_def conn_inv_def)
  have "cs_state c \<in> {AwaitHello, AwaitAuth, Serving, Closed}" "cs_state c = Serving \<Longrightarrow> cs_identity c \<noteq> None"
    using assms by (auto simp: conn_inv_def)
  then show ?thesis
    using assms closed
    by (auto simp: session_turn_def Let_def await_hello_ok await_auth_ok serving_ok stop_ok
          split: res.splits option.splits)
qed

text \<open>What a run shows outside, from a connection with the given identity.\<close>

definition served_after_auth :: "'b session_env \<Rightarrow> identity option \<Rightarrow> session_out list \<Rightarrow> bool" where
  "served_after_auth se known outs \<longleftrightarrow>
     (\<forall>pre who ty ms post. outs = pre @ Handled who ty ms # post \<longrightarrow>
        authenticated se who \<and> (known = Some who \<or> (\<exists>rid. Reply (auth_ok_for se who) rid \<in> set pre)))"

lemma served_none: "(\<forall>who ty ms. Handled who ty ms \<notin> set outs) \<Longrightarrow> served_after_auth se known outs"
  unfolding served_after_auth_def by (metis in_set_conv_decomp)

lemma served_turn:
  assumes inv: "conn_inv se c" and ok: "turn_ok se c (c1, outs, r, k)"
  shows "served_after_auth se (cs_identity c) outs"
  unfolding served_after_auth_def
proof (intro allI impI)
  fix pre who ty ms post
  assume "outs = pre @ Handled who ty ms # post"
  then have "Handled who ty ms \<in> set outs" by simp
  with ok have "cs_identity c = Some who" unfolding turn_ok_def by blast
  with inv show "authenticated se who \<and> (cs_identity c = Some who \<or> (\<exists>rid. Reply (auth_ok_for se who) rid \<in> set pre))"
    by (simp add: conn_inv_def)
qed

lemma served_append:
  assumes "served_after_auth se known outs" "served_after_auth se known' outs2"
    and step: "known' = known \<or> (\<exists>who rid. known' = Some who \<and> Reply (auth_ok_for se who) rid \<in> set outs)"
  shows "served_after_auth se known (outs @ outs2)"
  unfolding served_after_auth_def
proof (intro allI impI)
  fix pre who ty ms post
  assume "outs @ outs2 = pre @ Handled who ty ms # post"
  then consider us where "outs = pre @ Handled who ty ms # us"
    | us where "pre = outs @ us" "outs2 = us @ Handled who ty ms # post"
    by (auto simp: append_eq_append_conv2 append_eq_Cons_conv Cons_eq_append_conv)
  then show "authenticated se who \<and> (known = Some who \<or> (\<exists>rid. Reply (auth_ok_for se who) rid \<in> set pre))"
  proof cases
    case 1
    then show ?thesis using assms(1) unfolding served_after_auth_def by blast
  next
    case 2
    then have "authenticated se who \<and> (known' = Some who \<or> (\<exists>rid. Reply (auth_ok_for se who) rid \<in> set us))"
      using assms(2) unfolding served_after_auth_def by blast
    with step 2 show ?thesis by auto
  qed
qed

lemma session_loop_ok:
  assumes "conn_inv se c" "session_loop se ts c = (c', outs, r)"
  shows "conn_inv se c' \<and> failures outs \<le> budget se c \<and> Registered \<notin> set outs \<and> Unregistered \<notin> set outs
    \<and> (\<forall>st. r = Ok st \<longrightarrow> st = cs_state c') \<and> served_after_auth se (cs_identity c) outs"
  using assms
proof (induction se ts c arbitrary: c' outs r rule: session_loop.induct)
  case (1 se c)
  then show ?case by (auto simp: served_none)
next
  case (2 se t ts c)
  obtain c1 outs1 r1 k where turn: "session_turn se t c = (c1, outs1, r1, k)" by (metis prod_cases4)
  have ok: "turn_ok se c (c1, outs1, r1, k)" using session_turn_ok [OF "2.prems"(1), of t] turn by simp
  note served = served_turn [OF "2.prems"(1) ok]
  show ?case
  proof (cases r1)
    case (Some res)
    then have "c' = c1" "outs = outs1" "r = res" using "2.prems"(2) turn by auto
    with ok served Some show ?thesis by (simp add: turn_ok_def)
  next
    case None
    obtain c2 outs2 res where loop: "session_loop se (drop k ts) c1 = (c2, outs2, res)" by (metis prod_cases3)
    have out: "c' = c2" "outs = outs1 @ outs2" "r = res" using "2.prems"(2) turn loop None by auto
    have inv1: "conn_inv se c1" using ok by (simp add: turn_ok_def)
    have ih: "conn_inv se c2 \<and> failures outs2 \<le> budget se c1 \<and> Registered \<notin> set outs2 \<and> Unregistered \<notin> set outs2
      \<and> (\<forall>st. res = Ok st \<longrightarrow> st = cs_state c2) \<and> served_after_auth se (cs_identity c1) outs2"
      by (rule "2.IH" [OF turn [symmetric] refl refl refl None inv1 loop])
    have "served_after_auth se (cs_identity c) (outs1 @ outs2)"
      by (rule served_append [OF served, of "cs_identity c1"]) (use ih ok in \<open>auto simp: turn_ok_def\<close>)
    with ih ok None show ?thesis by (auto simp: out turn_ok_def)
  qed
qed

section \<open>Whole connections\<close>

lemma session_run_ok:
  assumes "session_run se ts s = (c, outs, r)"
  shows "conn_inv se c \<and> failures outs \<le> max 1 (unat (se_max_auth_attempts se)) \<and> served_after_auth se None outs
    \<and> (Unregistered \<in> set outs \<longleftrightarrow> r = Ok (cs_state c))"
proof -
  let ?c = "count st_connections_update
              \<lparr>cs_state = AwaitHello, cs_identity = None, cs_auth_attempts = 0, cs_server = s\<rparr>"
  obtain c1 outs1 r1 where loop: "session_loop se ts ?c = (c1, outs1, r1)" by (metis prod_cases3)
  have "conn_inv se ?c" by (simp add: conn_inv_def)
  from session_loop_ok [OF this loop] have ok: "conn_inv se c1" "failures outs1 \<le> budget se ?c" "Unregistered \<notin> set outs1"
    "\<forall>st. r1 = Ok st \<longrightarrow> st = cs_state c1" "served_after_auth se None outs1" by simp_all
  let ?fin = "case r1 of Ok _ \<Rightarrow> [Unregistered] | _ \<Rightarrow> []"
  have eq: "c = c1" "outs = Registered # outs1 @ ?fin" "r = r1"
    using assms loop by (auto simp: session_run_def)
  have "served_after_auth se None ([Registered] @ (outs1 @ ?fin))"
    by (intro served_append [of _ _ _ None] ok(5) served_none) (auto split: res.splits)
  moreover have "failures ?fin = 0" by (auto split: res.splits)
  moreover have "budget se ?c = max 1 (unat (se_max_auth_attempts se))" by (simp add: budget_def)
  moreover have "Unregistered \<in> set outs \<longleftrightarrow> r = Ok (cs_state c)"
    using ok(3,4) by (cases r1) (auto simp: eq)
  ultimately show ?thesis using ok(1,2) by (simp add: eq)
qed

text \<open>A turn that brings a frame, with no signal and no objection to the address.\<close>

definition quiet :: "turn \<Rightarrow> u8 \<Rightarrow> u64 \<Rightarrow> bytes \<Rightarrow> bool" where
  "quiet t ty rid payload \<longleftrightarrow> tu_migration t \<noteq> Some False \<and> tu_kill t \<noteq> Some True \<and> tu_drain t \<noteq> Some True
     \<and> tu_wake t = Wake_Read
     \<and> (\<exists>f. tu_read t = Ok (Some f) \<and> frame_type_byte f = ty \<and> frame_request_id f = rid \<and> frame_payload f = payload)"

lemma quiet_frame:
  "quiet t ty rid payload \<Longrightarrow>
     tu_migration t \<noteq> Some False \<and>
     (\<exists>f. next_frame t = Ok (Some f) \<and> frame_type_byte f = ty \<and> frame_request_id f = rid \<and> frame_payload f = payload)"
  by (auto simp: quiet_def next_frame_def Let_def split: option.splits)

definition hello_ack_for :: "'b session_env \<Rightarrow> capabilities \<Rightarrow> message" where
  "hello_ack_for se offered = HelloAck \<lparr>ack_version = PROTOCOL_VERSION,
     ack_capabilities = caps_intersect offered (se_server_caps se), ack_limits = limits_default, ack_agent = se_agent se\<rparr>"

text \<open>A client that offers common capabilities and a certificate the authenticator accepts is served.\<close>

lemma handshake_reaches_serving:
  assumes hello: "hello_decode hb = Ok h" and auth: "auth_decode ab = Ok auth_mtls"
    and quiet: "quiet t1 HELLO rid1 hb" "quiet t2 AUTH rid2 ab"
    and caps: "caps_validate_intersection (caps_intersect (hello_capabilities h) (se_server_caps se)) = Ok ()"
    and peer: "se_peer_identity se = Some p" "se_authenticate se p = Ok who"
    and fits: "message_encode (hello_ack_for se (hello_capabilities h)) = Ok b1" "message_encode (auth_ok_for se who) = Ok b2"
    and run: "session_run se (t1 # t2 # ts) s = (c, outs, r)"
  shows "\<exists>c1 outs1. cs_state c1 = Serving \<and> cs_identity c1 = Some who \<and> session_loop se ts c1 = (c, outs1, r)
    \<and> take 3 outs = [Registered, Reply (hello_ack_for se (hello_capabilities h)) rid1, Reply (auth_ok_for se who) rid2]"
proof -
  let ?c = "count st_connections_update
              \<lparr>cs_state = AwaitHello, cs_identity = None, cs_auth_attempts = 0, cs_server = s\<rparr>"
  let ?c1 = "count st_handshakes_update (?c\<lparr>cs_state := AwaitAuth\<rparr>)"
  let ?c2 = "?c1\<lparr>cs_auth_attempts := 0, cs_identity := Some who, cs_state := Serving\<rparr>"
  have "session_turn se t1 ?c = (?c1, [Reply (hello_ack_for se (hello_capabilities h)) rid1], None, 0)"
    using quiet_frame [OF quiet(1)] hello caps fits(1)
    by (auto simp: session_turn_def await_hello_def write_then_def hello_ack_for_def Let_def)
  moreover have "session_turn se t2 ?c1 = (?c2, [Reply (auth_ok_for se who) rid2], None, 0)"
    using quiet_frame [OF quiet(2)] auth peer fits(2)
    by (auto simp: session_turn_def await_auth_def auth_accepted_def write_then_def auth_ok_for_def auth_mtls_def Let_def)
  moreover obtain c3 outs3 r3 where "session_loop se ts ?c2 = (c3, outs3, r3)" by (metis prod_cases3)
  ultimately show ?thesis using run
    by (intro exI [of _ ?c2] exI [of _ outs3]) (auto simp: session_run_def Let_def)
qed

text \<open>A message type that the dispatch does not know ends the connection with an error.\<close>

lemma unknown_message_closes:
  assumes "cs_state c = Serving" and "cs_identity c = Some who" and "quiet t ty rid payload"
    and "ty \<notin> {PING, BYE, TRANSFER_CREATE, RESUME, STAT, LIST, CANCEL, HELLO, AUTH, COMMIT, TRANSFER_BEGIN,
               CHECKPOINT, VERIFY, MANIFEST_BEGIN}"
  shows "\<exists>c' outs. session_loop se (t # ts) c = (c', outs, Err (Protocol (protocol_error.UnsupportedMessage ty)))
    \<and> Close (error_code_to_wire error_code.UnsupportedMessage) \<in> set outs"
proof -
  have "error_detail_new (lit ''unsupported message'') = Ok (ErrorDetail (lit ''unsupported message''))"
    by (simp add: error_detail_new_def lit_def)
  moreover obtain f where "next_frame t = Ok (Some f)" "frame_type_byte f = ty"
    "frame_request_id f = rid" "frame_payload f = payload"
    using quiet_frame [OF assms(3)] by blast
  ultimately show ?thesis using assms quiet_frame [OF assms(3)]
    by (auto simp: session_turn_def serving_def violation_def reply_error_def)
qed

end
