(* ===== verification/Sample_Data.thy ===== *)
theory Sample_Data
  imports Server_Session Chunk_Aead
begin

text \<open>
  Small concrete inputs on which the properties of the root theory are evaluated: an identity
  with one grant, a server, a store, the turns of a short connection, and a cipher that seals under
  one associated datum only.
\<close>

definition sample_who :: identity where
  "sample_who = \<lparr>id_name = lit ''u'', id_issuer_fingerprint = [], id_cert_fingerprint = [], id_serial_hex = []\<rparr>"

definition sample_grants :: "grant list" where
  "sample_grants = [\<lparr>gr_identity = lit ''u'', gr_path_prefix = lit ''a'', gr_permissions = PermSet 0x7F\<rparr>]"

definition sample_env :: "nat server_env" where
  "sample_env = \<lparr>ev_grants = sample_grants, ev_policy = ExplicitGrant,
     ev_remove = (\<lambda>_ b. (b + 1, True)), ev_create_symlink = (\<lambda>_ _ b. (b + 1, None)),
     ev_create_hardlink = (\<lambda>_ _ b. (b + 1, None)), ev_stat = (\<lambda>_ _. Some (Some 5)),
     ev_available_space = (\<lambda>_. None), ev_min_free_space = 0, ev_check_quota = (\<lambda>_ _. None),
     ev_tid_text = tid_bytes, ev_conflict_text = (\<lambda>_. lit ''conflict''), ev_vpath_error_text = (\<lambda>_. lit ''bad path'')\<rparr>"

definition sample_stats :: server_stats where
  "sample_stats = \<lparr>st_connections = 0, st_handshakes = 0, st_pings = 0, st_transfers_active = 0, st_authz_denials = 0,
     st_auth_failures = 0, st_auth_failures_crl = 0, st_auth_failures_max_attempts = 0, st_resource_limit_hits = 0,
     st_resource_limit_hits_quota = 0, st_disk_full_errors = 0, st_protocol_violations = 0,
     st_deletions_attempted = 0, st_deletions_blocked = 0, st_deletions_executed = 0\<rparr>"

definition sample_server :: "nat server" where
  "sample_server = \<lparr>sv_store = None, sv_ledger = Some [], sv_limiter = [], sv_backend = 0, sv_stats = sample_stats\<rparr>"

definition sample_id :: "nat \<Rightarrow> transfer_id" where
  "sample_id n = TransferId (replicate 15 0 @ [word_of_nat n])"

definition sample_draw :: draw where
  "sample_draw = \<lparr>dr_ledger_id = sample_id 1, dr_fresh_id = sample_id 2, dr_instant = 0, dr_now_ms = 7\<rparr>"

definition sample_create :: "transfer_op \<Rightarrow> transfer_create" where
  "sample_create p = \<lparr>tc_op = p, tc_src_path = lit ''b'', tc_dst_path = lit ''a/x'', tc_idempotency_key = lit ''k'',
     tc_file_size = 5, tc_file_hash = Hash (replicate 32 1)\<rparr>"

definition sample_record :: transfer_record where
  "sample_record = \<lparr>tr_transfer_id = sample_id 3, tr_idempotency_key = lit ''k'', tr_role = Server,
     tr_direction = direction.Upload, tr_status = Active, tr_remote_path = lit ''a/x'', tr_local_path = [],
     tr_file_size = 5, tr_file_hash = Hash (replicate 32 1), tr_verified_up_to = 0, tr_last_checkpoint_ms = 0,
     tr_bytes_completed = 0, tr_staging_relpath = [], tr_created_ms = 0, tr_updated_ms = 0\<rparr>"

definition sample_store :: state_store where
  "sample_store = \<lparr>ss_transfers = [(sample_id 3, sample_record)], ss_idem = [((Server, lit ''k''), sample_id 3)],
     ss_bitmaps = [], ss_journal = [((sample_id 3, 1), \<lparr>cj_transfer_id = sample_id 3, cj_file_id = 1,
       cj_remote_path = lit ''a/x'', cj_status = Commit_Renamed, cj_updated_ms = 0\<rparr>)]\<rparr>"

definition sample_session :: "nat session_env" where
  "sample_session = \<lparr>se_env = sample_env, se_server_caps = hello_capabilities hello_default_client,
     se_agent = lit ''s'', se_peer_identity = Some sample_who, se_exporter = Inr [], se_authenticate = Ok,
     se_authenticate_token = (\<lambda>_ _ _. Err Config), se_error_text = (\<lambda>_. lit ''no''), se_lowercase = id,
     se_max_auth_attempts = 3, se_session = (\<lambda>_ _ _ _ _ _ _ s. (s, [], Ok ())),
     se_other = (\<lambda>_ _ _ _ s. (s, [], Ok ())), se_resume = (\<lambda>_ s. (s, [], Ok ()))\<rparr>"

definition sample_turn :: "u8 \<Rightarrow> bytes \<Rightarrow> turn" where
  "sample_turn ty payload = \<lparr>tu_migration = None, tu_drain = None, tu_kill = None, tu_wake = Wake_Read,
     tu_read = Ok (Some \<lparr>frame_version = PROTOCOL_VERSION, frame_type_byte = ty, frame_flags = frame_flags_NONE,
       frame_length = word_of_nat (length payload), frame_request_id = 9, frame_payload = payload\<rparr>),
     tu_draw = sample_draw, tu_used = 0\<rparr>"

lemmas sample_defs = sample_who_def sample_grants_def sample_env_def sample_stats_def sample_server_def
  sample_id_def sample_draw_def sample_create_def sample_record_def sample_store_def sample_session_def sample_turn_def

text \<open>A greeting that offers no protocol version at all.\<close>

definition sample_hello :: hello where
  "sample_hello = hello_default_client\<lparr>hello_versions := []\<rparr>"

lemma sample_hello_wire: "\<exists>hb. hello_encode sample_hello = Ok hb \<and> hello_decode hb = Ok sample_hello"
  by (rule hello.enc_wf)
    (simp add: wf_hello_def sample_hello_def hello_default_client_def AGENT_STRING_def lit_def utf8_valid_ascii
      wf_caps_def caps_set_def caps_EMPTY_def)

lemma sample_auth_wire: "\<exists>ab. auth_encode auth_mtls = Ok ab \<and> auth_decode ab = Ok auth_mtls"
  by (rule auth.enc_wf) (simp add: wf_auth_def auth_mtls_def)

lemma sample_caps:
  "caps_validate_intersection (caps_intersect (hello_capabilities sample_hello) (se_server_caps sample_session)) = Ok ()"
  by (simp add: caps_validate_Ok_iff sample_hello_def sample_session_def hello_default_client_def)

lemma sample_acks:
  "\<exists>b. message_encode (hello_ack_for sample_session (hello_capabilities sample_hello)) = Ok b"
  "\<exists>b. message_encode (auth_ok_for sample_session sample_who) = Ok b"
  by (simp_all add: hello_ack_for_def auth_ok_for_def sample_session_def sample_who_def tagged_def lit_def
      hello_ack_encode_def auth_ok_encode_def)

lemma sample_quiet: "quiet (sample_turn ty payload) ty 9 payload"
  by (simp add: quiet_def sample_turn_def)

lemma sample_peer:
  "se_peer_identity sample_session = Some sample_who" "se_authenticate sample_session sample_who = Ok sample_who"
  by (simp_all add: sample_session_def)

lemma sample_connection:
  assumes "hello_decode hb = Ok sample_hello" and "auth_decode ab = Ok auth_mtls"
  shows "\<exists>c. session_run sample_session [sample_turn HELLO hb, sample_turn AUTH ab, sample_turn CANCEL []] sample_server =
    (c, [Registered, Reply (hello_ack_for sample_session (hello_capabilities sample_hello)) 9,
         Reply (auth_ok_for sample_session sample_who) 9, Handled sample_who CANCEL [], Unregistered], Ok Serving)"
proof -
  obtain b1 where b1: "message_encode (hello_ack_for sample_session (hello_capabilities sample_hello)) = Ok b1"
    using sample_acks(1) by blast
  obtain b2 where b2: "message_encode (auth_ok_for sample_session sample_who) = Ok b2"
    using sample_acks(2) by blast
  obtain f where f: "next_frame (sample_turn CANCEL []) = Ok (Some f)" "frame_type_byte f = CANCEL" "frame_payload f = []"
    using quiet_frame [OF sample_quiet] by blast
  obtain f1 where f1: "next_frame (sample_turn HELLO hb) = Ok (Some f1)" "frame_type_byte f1 = HELLO"
    "frame_payload f1 = hb" "frame_request_id f1 = 9"
    using quiet_frame [OF sample_quiet] by blast
  obtain f2 where f2: "next_frame (sample_turn AUTH ab) = Ok (Some f2)" "frame_type_byte f2 = AUTH"
    "frame_payload f2 = ab" "frame_request_id f2 = 9"
    using quiet_frame [OF sample_quiet] by blast
  have mig: "tu_migration (sample_turn ty p) = None" for ty p by (simp add: sample_turn_def)
  show ?thesis
    using assms sample_caps b1 b2 sample_peer f f1 f2 mig
    by (simp add: session_run_def session_turn_def await_hello_def await_auth_def auth_accepted_def write_then_def
        hello_ack_for_def auth_ok_for_def auth_mtls_def serving_def handled_def Let_def)
qed

text \<open>The sample store is reached from the empty one.\<close>

lemma sample_store_reached: "ss_step\<^sup>*\<^sup>* ss_new sample_store"
proof -
  let ?e = "\<lparr>cj_transfer_id = sample_id 3, cj_file_id = 1, cj_remote_path = lit ''a/x'',
              cj_status = Commit_Renamed, cj_updated_ms = 0\<rparr>"
  have "ss_step ss_new (fst (ss_upsert_transfer sample_record ss_new))"
    by (rule step_upsert) (simp add: ss_new_def)
  moreover have "ss_step (fst (ss_upsert_transfer sample_record ss_new))
      (ss_write_journal ?e (fst (ss_upsert_transfer sample_record ss_new)))"
    by (rule step_write_journal)
  moreover have "ss_write_journal ?e (fst (ss_upsert_transfer sample_record ss_new)) = sample_store"
    by (simp add: ss_write_journal_def ss_upsert_transfer_def ss_new_def sample_store_def sample_record_def)
  ultimately show ?thesis by (metis converse_rtranclp_into_rtranclp rtranclp.rtrancl_refl)
qed

lemma sample_store_inv: "ss_inv sample_store"
  using ss_reachable_inv [OF sample_store_reached ss_inv_new] .

text \<open>A cipher for one position: it has no forgeries because nothing else opens.\<close>

definition sample_cipher :: chunk_cipher where
  "sample_cipher = \<lparr>cc_suite = ChaCha20Poly1305, cc_key = replicate 32 0\<rparr>"

definition sample_aad :: bytes where
  "sample_aad = tid_bytes (sample_id 3) @ u64_to_le 0 @ u32_to_le 0"

definition sample_seal :: seal_fn where
  "sample_seal suite key nonce aad pt = (if aad = sample_aad then Some (pt, replicate 16 0) else None)"

definition sample_open :: open_fn where
  "sample_open suite key nonce aad ct = (if aad = sample_aad then Some (take (length ct - 16) ct) else None)"

lemma sample_aead: "aead_correct sample_seal sample_open" "\<not> aead_forgery sample_seal sample_open c pt"
  by (auto simp: aead_correct_def aead_forgery_def sample_seal_def sample_open_def split: if_splits)

lemma sample_id_wf [simp]: "wf_tid (sample_id n)"
  by (simp add: sample_id_def)

lemma sample_encrypt:
  "encrypt_chunk sample_seal sample_cipher (Some (replicate 12 0)) (sample_id 3) 0 0 pt
   = Ok (replicate 12 0 @ pt @ replicate 16 0)"
  by (simp add: encrypt_chunk_def build_chunk_aad_eq sample_seal_def sample_aad_def nonce_try_assume_unique_def)

text \<open>A compressor that knows one payload, and its decoder.\<close>

definition sample_zstd :: "bytes \<Rightarrow> bytes \<Rightarrow> int \<Rightarrow> bytes option" where
  "sample_zstd p data lvl = (if data = p then Some [1] else None)"

definition sample_decoder :: "bytes \<Rightarrow> bytes \<Rightarrow> bytes option" where
  "sample_decoder p c = Some p"

definition sample_read :: "bytes \<Rightarrow> (bytes \<times> bytes) option" where
  "sample_read s = Some (s, [])"

lemma sample_lossless: "zstd_lossless (sample_zstd p) (sample_decoder p) sample_read"
proof -
  have "decoder_yields sample_read [] []" by (rule yields_end [of _ _ "[]"]) (simp add: sample_read_def)
  then have "p \<noteq> [] \<Longrightarrow> decoder_yields sample_read p (p @ [])"
    by (intro yields_more [of _ _ _ "[]"]) (simp_all add: sample_read_def)
  then have "decoder_yields sample_read p p"
    using \<open>decoder_yields sample_read [] []\<close> by (cases "p = []") simp_all
  then show ?thesis by (auto simp: zstd_lossless_def sample_zstd_def sample_decoder_def split: if_splits)
qed

end
