(* ===== verification/Spec2Isabelle.thy ===== *)
theory Spec2Isabelle
  imports Session_Framing Chunk_Aead Bitmap Bloom_Filter Lock_Manager Raft_Sample Fec_Codec Sample_Data
begin

text \<open>
  A verification library for Velcrux, a file-transfer system: a server and its clients exchange
  framed messages on QUIC streams, the server authenticates the peer, authorizes each request
  against path grants, records transfers in a state store so that they can be resumed, and moves
  file content as chunks that may be compressed and encrypted. All paths below are under
  \<open>src/crates/velcrux-core/src\<close>.

  \<^bold>\<open>How the code is read.\<close> A \<open>Result\<close> is \<open>Ok\<close> or \<open>Err\<close> of the type \<open>res\<close> of
  Velcrux_Prelude, and a panic (slice or index out of range, \<open>unwrap\<close> of nothing, \<open>clamp\<close> with
  crossed bounds) is its third value, so every error path is a value. Machine integers are words;
  \<open>+\<close> wraps as in the release profile, which has no overflow checks. A \<open>String\<close> is its UTF-8
  bytes (Rust_Str), a hash map an association list, a lock-protected structure a record that the
  operations take and return. The clock, random identifiers and the success of a disk write are
  arguments of the operation that uses them. Third-party code is a parameter: zstd, the entropy
  estimate, BLAKE3, the AEAD cipher, the storage backend, the authenticator; where a result
  depends on one, what is assumed of it is written in its statement, and a witness instantiates it.

  \<^bold>\<open>The wire.\<close> Wire_Errors has the limits of \<open>protocol/limits.rs\<close>, the errors and their wire
  codes; Capabilities the negotiated set; Varint, Ids and Wire_Fields the field formats of
  \<open>protocol/varint.rs\<close>, \<open>util/hash.rs\<close>, \<open>util/ulid.rs\<close>; Msg_Session, Msg_Transfer, Msg_Resume and
  Msg_Manifest the payloads of \<open>protocol/message.rs\<close>, and Message its dispatch on the type byte.
  Frame is \<open>protocol/frame.rs\<close>, Compression \<open>protocol/compression.rs\<close>, Session_Framing the
  functions of \<open>session/mod.rs\<close> that put messages on a stream and read them back, Chunk_Aead
  \<open>crypto/chunk_aead.rs\<close> and the encrypted data frames. Codec holds the contracts as locales:
  \<open>prefix_codec\<close> for fields, \<open>message_codec\<close> for payloads, \<open>strict_codec\<close> for payloads that
  leave no slack, each interpreted on every codec of the source. The lemmas are round trips, exact
  characterisations of what a decoder accepts, absence of panics on arbitrary bytes, and bounds on
  what a peer can make the receiver allocate.

  \<^bold>\<open>The server.\<close> Virtual_Path is the path and symlink validation of \<open>storage/mod.rs\<close>, compared
  with a walk of the components as the kernel would do it. Authorization is \<open>auth/mod.rs\<close>: grants,
  longest-prefix check, deletion policy and limiter, compared with the set of covering grants.
  State_Store is the \<open>StateStore\<close> of \<open>state/mod.rs\<close> through its in-memory implementation
  \<open>state/mock.rs\<close>, a step relation over its operations, and the recovery at server start;
  its contract towards the ledger is the locale \<open>idempotent_store\<close>. Idempotency_Ledger is
  \<open>state/ledger.rs\<close> with its two critical sections as separate steps, so that interleavings of
  threads can be stated. Server_Requests has the request handlers and Server_Session the connection
  loop \<open>ServerConn::run\<close> of \<open>session/server.rs\<close>; a connection is driven by the list of what its
  environment does at each turn (a frame arrives, a timeout fires, a handler returns), and every
  property of it holds for all such lists. The lemmas show what is served to whom, what is changed
  under which grant, what survives a restart, and where the code departs from its documentation.

  \<^bold>\<open>Chunks and locks.\<close> Bitmap is \<open>state/bitmap.rs\<close>, Rle \<open>sync/rle.rs\<close>, Bloom_Filter
  \<open>sync/bloom.rs\<close> and \<open>sync/inventory.rs\<close>; the first and the last share the locale \<open>grow_set\<close>.
  Lock_Manager is \<open>sync/lock.rs\<close> with runs of operations, failed writes and restarts.

  \<^bold>\<open>Consensus.\<close> Raft_Node is \<open>RaftCoordinator\<close> of \<open>consensus/mod.rs\<close>: the RPC handlers, elections,
  proposals, commitment, the metadata state machine and its leases, each handler one atomic
  operation on the node's record. Raft_Cluster puts nodes into a network: an inductive step
  relation in which any node may campaign, propose or send, and any message ever sent may be
  delivered any number of times, in any order, or never. Its safety is proved with history
  variables (who voted for whom and with which log, who was elected, what each leader appended),
  an invariant \<open>cluster_ok\<close> over them, the preservation of its parts in Raft_Invariant, and one
  lemma per handler in Raft_Safety. Raft_Guarantees has what follows: one leader per term, log
  matching, leader completeness, agreement of the state machines, indices in range and no panic.
  Raft_Rounds has the exchanges of \<open>run_raft_benchmark\<close> as sequences of such steps,
  Raft_Elections when a campaign wins and what a restart breaks, Raft_Progress that a leader brings
  its peers in step and commits with a majority. The guarantees hold while nodes keep their
  memory, term numbers stay below 2 to the 64 and logs below 2 to the 63 entries; these are
  conditions of the steps. Raft_Sample and Sample_Data hold the concrete inputs of the witnesses.

  \<^bold>\<open>Forward error correction.\<close> Galois_Field is the byte arithmetic of \<open>transport/fec.rs\<close>: its
  tables are built by the loop of the source, and bytes under the operations that look them up are
  an instance of the type class \<open>field\<close>. Fec_Algebra has Gauss-Jordan elimination and Cauchy
  matrices over any field, Fec_Matrix the loops of \<open>GfMatrix\<close>, related to matrices over that field, up
  to the correctness of \<open>invert\<close>. Fec_Codec is \<open>FecCodec\<close>, \<open>FecBlockEncoder\<close> and
  \<open>FecBlockDecoder\<close>: a symbol is coded if its bytes are the combination of the sources that the
  generator prescribes for its index, the encoder produces coded symbols, and the decoder recovers
  the sources from any sufficient set of them, on each of its three paths.

  \<^bold>\<open>Bounds.\<close> No loop takes fuel. Loops over a list are structural recursions; the others have a
  measure, which is the proof that they end on every input: \<open>decompress_loop\<close> the room left below
  the output limit, whatever the decoder does, the varint loops the bytes left, \<open>rle_decode_loop\<close>
  the input left, \<open>bm_first_missing_from\<close> the distance to the largest index, \<open>apply_loop\<close> the
  entries not yet applied, \<open>find_pivot\<close> the rows left. \<open>read_messages\<close> reads a stated number of messages,
  \<open>replicate_rounds\<close> makes a stated number of exchanges, and the theorem says how many are enough.

  \<^bold>\<open>Not modelled.\<close> QUIC, files, SQL and HTTP are input and output around the modelled
  functions: the rest of \<open>transport\<close>, \<open>state/sqlite.rs\<close>, the storage backends, the data sessions of
  \<open>transfer\<close>, the walks of \<open>sync/directory.rs\<close>, the command lines. The extended-attribute branch
  of the transfer handler is left out since it needs the parser of \<open>storage/xattr.rs\<close>. The
  floating-point estimators (congestion, entropy, Bloom sizing, adaptive redundancy) are
  parameters or left out. The interleaving of threads within a Raft handler, which takes its locks
  one by one, is not modelled, and neither are its timers, which the code leaves to the caller.
  The remaining subsystems (swarm, geo-replication, quota proofs, post-quantum cryptography,
  tiering, telemetry) are not called by the modelled code.
\<close>

section \<open>Consensus\<close>

text \<open>
  C1: In every cluster state that elections, votes, proposals, replication and their responses
  reach, with messages delayed, lost, repeated and reordered at will, a term has at most one
  leader.
\<close>

theorem raft_one_leader_per_term:
  assumes "raft_reachable ids c" "n \<in> set ids" "m \<in> set ids" "m \<noteq> n"
    and "rc_role (rl_nodes c n) = Leader" "rc_current_term (rl_nodes c m) = rc_current_term (rl_nodes c n)"
  shows "rc_role (rl_nodes c m) \<noteq> Leader"
  using one_leader [OF assms(1,3,2) _ assms(5,6)] assms(4) by blast

theorem raft_one_leader_per_term_witness:
  "rc_role (rl_nodes sample_committed (lit ''a'')) = Leader \<and> rc_role (rl_nodes sample_committed (lit ''b'')) \<noteq> Leader"
  using raft_one_leader_per_term [OF sample_committed_reachable sample_ids_set(1,2,5) sample_committed_values(1,2)]
    sample_committed_values(1) by simp

text \<open>
  C2: A committed entry is never lost: whoever leads a term that is not earlier than a node's own
  has in its log, at the same places, everything that node has committed.
\<close>

theorem raft_leader_completeness:
  assumes "raft_reachable ids c" "n \<in> set ids" "m \<in> set ids" "rc_role (rl_nodes c m) = Leader"
    and "rc_current_term (rl_nodes c n) \<le> rc_current_term (rl_nodes c m)"
  shows "prefix (take (unat (rc_commit_index (rl_nodes c n))) (rc_log (rl_nodes c n))) (rc_log (rl_nodes c m))"
  by (rule leader_has_committed [OF assms])

theorem raft_leader_completeness_witness:
  "rc_commit_index (rl_nodes sample_committed (lit ''b'')) = 1 \<and>
   prefix (take 1 (rc_log (rl_nodes sample_committed (lit ''b'')))) (rc_log (rl_nodes sample_committed (lit ''a'')))"
  using raft_leader_completeness [OF sample_committed_reachable sample_ids_set(2,1) sample_committed_values(1)]
    sample_committed_values(2,5) by simp

text \<open>
  C3: Replicas do not diverge: two nodes agree on every entry up to the smaller of their commit
  indices, and two nodes that have applied equally many entries have the same nodes, metadata,
  fences and lease holders. Only the times of a lease depend on the node's clock.
\<close>

theorem raft_state_machines_agree:
  assumes "raft_reachable ids c" "n \<in> set ids" "m \<in> set ids"
  shows "take (unat (min (rc_commit_index (rl_nodes c n)) (rc_commit_index (rl_nodes c m)))) (rc_log (rl_nodes c n))
      = take (unat (min (rc_commit_index (rl_nodes c n)) (rc_commit_index (rl_nodes c m)))) (rc_log (rl_nodes c m))
    \<and> (rc_last_applied (rl_nodes c n) = rc_last_applied (rl_nodes c m) \<longrightarrow>
         sm_view (rc_state_machine (rl_nodes c n)) = sm_view (rc_state_machine (rl_nodes c m)))"
  using committed_agree [OF assms] machines_agree [OF assms] by (simp add: word_le_nat_alt min_def)

theorem raft_state_machines_agree_witness:
  "rc_last_applied (rl_nodes sample_committed (lit ''a'')) = 1 \<and> rc_last_applied (rl_nodes sample_committed (lit ''b'')) = 1 \<and>
   sm_view (rc_state_machine (rl_nodes sample_committed (lit ''a''))) = sm_view (rc_state_machine (rl_nodes sample_committed (lit ''b'')))"
  using raft_state_machines_agree [OF sample_committed_reachable sample_ids_set(1,2)] sample_committed_values(3,4) by simp

text \<open>
  C4: If two logs have an entry of the same term at the same place, they are equal up to it.
\<close>

theorem raft_log_matching:
  assumes "raft_reachable ids c" "n \<in> set ids" "m \<in> set ids"
    and "i < length (rc_log (rl_nodes c n))" "i < length (rc_log (rl_nodes c m))"
    and "en_term (rc_log (rl_nodes c n) ! i) = en_term (rc_log (rl_nodes c m) ! i)"
  shows "take (Suc i) (rc_log (rl_nodes c n)) = take (Suc i) (rc_log (rl_nodes c m))"
  using matching_logs [OF assms(1-3)] assms(4-) by (simp add: logs_match_def)

theorem raft_log_matching_witness:
  "take 1 (rc_log (rl_nodes sample_committed (lit ''a''))) = take 1 (rc_log (rl_nodes sample_committed (lit ''b'')))"
  using raft_log_matching [OF sample_committed_reachable sample_ids_set(1,2), of 0] sample_committed_values(6,7) by simp

text \<open>
  C5: The indices of every node stay in range: entries are numbered from one, terms in the log
  do not decrease and are not above the node's, applied entries are committed and committed ones
  are in the log, and a leader's positions for its peers are within its log. So no message on its
  way makes a handler index out of bounds.
\<close>

theorem raft_nodes_well_formed:
  assumes "raft_reachable ids c" "n \<in> set ids"
  shows "raft_node_wf ids n (rl_nodes c n)
    \<and> ((n, req) \<in> nt_appends (rl_net c) \<longrightarrow> handle_append_entries now req (rl_nodes c n) \<noteq> Panic)
    \<and> ((n, p, resp) \<in> nt_append_resps (rl_net c) \<longrightarrow> handle_append_response now inst p resp (rl_nodes c n) \<noteq> Panic)
    \<and> create_append_entries_for_peer q (rl_nodes c n) \<noteq> Panic"
  using nodes_wf [OF assms] handlers_total [OF assms] by blast

theorem raft_nodes_well_formed_witness:
  "raft_node_wf sample_ids (lit ''b'') (rl_nodes sample_committed (lit ''b''))
    \<and> create_append_entries_for_peer (lit ''b'') (rl_nodes sample_committed (lit ''a'')) \<noteq> Panic"
  using raft_nodes_well_formed [OF sample_committed_reachable sample_ids_set(2)]
    raft_nodes_well_formed [OF sample_committed_reachable sample_ids_set(1)] by blast

text \<open>
  C6: A leader brings any peer of no later term up to its own log: after at most as many exchanges
  as its position for that peer the two logs are equal, and the leader's log has not changed.
\<close>

theorem raft_peer_catches_up:
  assumes "raft_reachable ids c" "n \<in> set ids" "p \<in> set ids" "p \<noteq> n" "rc_role (rl_nodes c n) = Leader"
    and "rc_current_term (rl_nodes c p) \<le> rc_current_term (rl_nodes c n)" "map_of (rc_peers (rl_nodes c n)) p = Some pp"
  shows "\<exists>k c'. k \<le> unat (pp_next_index pp) \<and> replicate_rounds k now inst n p c = Ok c'
    \<and> rc_log (rl_nodes c' p) = rc_log (rl_nodes c n) \<and> rc_log (rl_nodes c' n) = rc_log (rl_nodes c n)"
  using catch_up [OF assms, of now inst] by (auto simp: still_leads_def in_step_def)

theorem raft_peer_catches_up_witness:
  "\<exists>k c'. replicate_rounds k 0 0 (lit ''a'') (lit ''c'') sample_committed = Ok c'
    \<and> rc_log (rl_nodes c' (lit ''c'')) = rc_log (rl_nodes sample_committed (lit ''a''))"
proof -
  obtain pp where "map_of (rc_peers (rl_nodes sample_committed (lit ''a''))) (lit ''c'') = Some pp"
    by (rule leader_peer_entry [OF sample_committed_reachable sample_ids_set(1,3,6)])
  from raft_peer_catches_up [OF sample_committed_reachable sample_ids_set(1,3,6) sample_committed_values(1,8) this, of 0 0]
  show ?thesis by blast
qed

text \<open>
  C7: The cluster makes progress with any majority: a node whose term and log are not behind those
  of the others becomes leader by one campaign among them, and finitely many exchanges with
  each commit its whole log, the entries of earlier terms included.
\<close>

theorem raft_majority_makes_progress:
  assumes "raft_reachable ids c" "n \<in> set ids" "distinct vs" "set vs \<subseteq> set ids - {n}" "rc_current_term (rl_nodes c n) \<noteq> - 1"
    and "card (set ids) div 2 \<le> length vs" "2 \<le> card (set ids)"
    and "\<forall>v \<in> set vs. rc_current_term (rl_nodes c v) \<le> rc_current_term (rl_nodes c n)
      \<and> up_to_date (rc_log (rl_nodes c n)) (rc_log (rl_nodes c v))"
    and "length (rc_log (rl_nodes c n)) + length vs < 2 ^ 63"
  shows "rc_role (rl_nodes (campaign now n vs c) n) = Leader
    \<and> (\<exists>ks c'. length ks = length vs \<and> replicate_schedule (zip vs ks) now inst n (campaign now n vs c) = Ok c'
         \<and> prefix (rc_log (rl_nodes c n)) (rc_log (rl_nodes c' n))
         \<and> rc_commit_index (rl_nodes c' n) = log_len (rc_log (rl_nodes c' n)))"
  using campaign_wins(1) [OF assms(1-7)] majority_takes_over [OF assms, of now inst] assms(8) by blast

theorem raft_majority_makes_progress_witness:
  "rc_role (rl_nodes (campaign 0 (lit ''a'') [lit ''b''] (initial_cluster sample_ids 0)) (lit ''a'')) = Leader"
  using raft_majority_makes_progress [OF raft_reachable.start sample_ids_set(1), of "[lit ''b'']" 0 0] sample_ids_set
  by (simp add: initial_cluster_def rc_new_def up_to_date_def)

text \<open>
  C8: The guarantee of one leader does not survive a restart, because no node keeps its term and
  its vote on disk: from a state that any three nodes reach, a voter restarts, votes again in the
  same term, and there are two leaders of that term.
\<close>

theorem raft_restart_two_leaders:
  assumes "card {a, b, c} = 3"
  shows "\<exists>x. raft_reachable [a, b, c] x \<and>
    (let y = campaign 0 c [b] (restarted [a, b, c] b x)
     in rc_role (rl_nodes y a) = Leader \<and> rc_role (rl_nodes y c) = Leader
        \<and> rc_current_term (rl_nodes y a) = rc_current_term (rl_nodes y c))"
  by (rule restart_two_leaders [OF assms])

theorem raft_restart_two_leaders_witness:
  "\<exists>x. raft_reachable [lit ''a'', lit ''b'', lit ''c''] x \<and>
    (let y = campaign 0 (lit ''c'') [lit ''b''] (restarted [lit ''a'', lit ''b'', lit ''c''] (lit ''b'') x)
     in rc_role (rl_nodes y (lit ''a'')) = Leader \<and> rc_role (rl_nodes y (lit ''c'')) = Leader
        \<and> rc_current_term (rl_nodes y (lit ''a'')) = rc_current_term (rl_nodes y (lit ''c'')))"
  using sample_ids_set(7) by (intro raft_restart_two_leaders) (simp add: sample_ids_def)

section \<open>Forward error correction\<close>

text \<open>
  C9: Any \<open>k\<close> of the \<open>k + m\<close> symbols of a block are enough: whatever list of them arrives, in any
  order and with repetitions, the decoder returns exactly the data if at least \<open>k\<close> different ones
  are among them, and nothing otherwise. Encoding and decoding never panic for sizes that fit the
  field.
\<close>

theorem fec_any_k_symbols_recover:
  assumes "0 < k" "k + m \<le> 256" "length data < 2 ^ 62"
  shows "\<exists>h syms. encode_block block_id data k m = Ok (h, syms) \<and> map sym_index syms = [0..<k + m] \<and>
    (\<forall>received. set received \<subseteq> set syms \<longrightarrow> (\<exists>rep. decode_block h received =
        Ok (if k \<le> card (set received) then Some data else None, rep) \<and> rr_is_successful rep = (k \<le> card (set received))))"
proof -
  obtain h syms xs where e: "encode_block block_id data k m = Ok (h, syms)" "map sym_index syms = [0..<k + m]"
    and h: "bh_k h = k" "bh_m h = m" "bh_original_len h = length data" "k * bh_symbol_size h \<le> length data + k"
    and xs: "sources_ok k (bh_symbol_size h) xs" "take (length data) (concat xs) = data" "\<forall>s \<in> set syms. coded k m (bh_symbol_size h) xs s"
    using encode_block_ok [OF assms(1,2)] by metis
  have size: "k * bh_symbol_size h < 2 ^ 63" using h(4) assms(2,3) by simp
  have "\<exists>rep. decode_block h received = Ok (if k \<le> card (set received) then Some data else None, rep)
      \<and> rr_is_successful rep = (k \<le> card (set received))" if sub: "set received \<subseteq> set syms" for received
  proof -
    have "\<forall>s \<in> set received. coded k m (bh_symbol_size h) xs s" using xs(3) sub by blast
    from decode_block_ok [OF h(1,2) assms(1,2) size xs(1) this] show ?thesis
      unfolding symbols_by_index [OF e(2) sub] h(3) xs(2) .
  qed
  then show ?thesis using e by blast
qed

theorem fec_any_k_symbols_recover_witness:
  "\<exists>h a b c d rep. encode_block 7 [1, 2, 3] 2 2 = Ok (h, [a, b, c, d]) \<and> decode_block h [d, d, c] = Ok (Some [1, 2, 3], rep)"
proof -
  obtain h syms where s: "encode_block 7 [1, 2, 3] 2 2 = Ok (h, syms)" "map sym_index syms = [0..<2 + 2]"
    and dec: "\<And>received. set received \<subseteq> set syms \<Longrightarrow> \<exists>rep. decode_block h received =
        Ok (if 2 \<le> card (set received) then Some [1, 2, 3] else None, rep) \<and> rr_is_successful rep = (2 \<le> card (set received))"
    using fec_any_k_symbols_recover [of 2 2 "[1, 2, 3]" 7] by auto
  obtain a b c d where l: "syms = [a, b, c, d]" "c \<noteq> d" using four_symbols [OF s(2)] by blast
  then have "card (set [d, d, c]) = 2" by simp
  then obtain rep where "decode_block h [d, d, c] = Ok (Some [1, 2, 3], rep)" using dec [of "[d, d, c]"] l(1) by auto
  then show ?thesis using s(1) l(1) by blast
qed

text \<open>
  C10: Inverting a square matrix is exact: the result is a left inverse of the matrix, or there is
  none and some combination of its columns, not all with coefficient zero, vanishes. It never panics.
\<close>

theorem matrix_inversion_exact:
  assumes "gm_rows m = n" "gm_cols m = n" "length (gm_data m) = n * n"
  shows "\<exists>res. invert m = Ok res \<and> (case res of
      None \<Rightarrow> \<exists>v. (\<exists>c<n. v c \<noteq> 0) \<and> (\<forall>r<n. (\<Sum>c<n. mat m r c * v c) = 0)
    | Some b \<Rightarrow> gm_rows b = n \<and> gm_cols b = n \<and> (\<forall>r<n. \<forall>c<n. (\<Sum>i<n. mat b r i * mat m i c) = (if r = c then 1 else 0)))"
proof -
  have "gm_ok n n m" using assms by (simp add: gm_ok_def)
  then obtain res where res: "invert m = Ok res" "case res of None \<Rightarrow> \<not> nonsingular n (mat m)
    | Some b \<Rightarrow> gm_ok n n b \<and> nonsingular n (mat m) \<and> (\<forall>r<n. \<forall>c<n. (\<Sum>k<n. mat b r k * mat m k c) = (if r = c then 1 else 0))"
    using invert_ok by blast
  then show ?thesis
    by (intro exI [of _ res]) (cases res; auto simp: nonsingular_def in_kernel_def apply_mat_def gm_ok_def)
qed

theorem matrix_inversion_exact_witness:
  "invert \<lparr>gm_rows = 2, gm_cols = 2, gm_data = [1, 1, 1, 1]\<rparr> = Ok None"
proof -
  let ?m = "\<lparr>gm_rows = 2, gm_cols = 2, gm_data = [1, 1, 1, 1]\<rparr>"
  have "mat ?m i 0 = mat ?m i 1" if "i < 2" for i using that by (auto simp: mat_def less_2_cases_iff)
  then have same: "(\<Sum>i<2. mat b 0 i * mat ?m i 0) = (\<Sum>i<2. mat b 0 i * mat ?m i 1)" for b by simp
  obtain res where res: "invert ?m = Ok res" "case res of
      None \<Rightarrow> \<exists>v. (\<exists>c<2. v c \<noteq> 0) \<and> (\<forall>r<2. (\<Sum>c<2. mat ?m r c * v c) = 0)
    | Some b \<Rightarrow> gm_rows b = 2 \<and> gm_cols b = 2 \<and> (\<forall>r<2. \<forall>c<2. (\<Sum>i<2. mat b r i * mat ?m i c) = (if r = c then 1 else 0))"
    using matrix_inversion_exact [of ?m 2] by auto
  show ?thesis
  proof (cases res)
    case (Some b)
    then have inv: "(\<Sum>i<2. mat b r i * mat ?m i c) = (if r = c then 1 else 0)" if "r < 2" "c < 2" for r c using res(2) that by simp
    show ?thesis using inv [of 0 0] inv [of 0 1] same [of b] by simp
  qed (use res(1) in simp)
qed

section \<open>Messages on a stream\<close>

text \<open>
  C11: A sender frames any list of well-formed messages that fit a frame; whatever bytes
  follow on the stream, the receiver reads exactly these messages with their request ids,
  in order. \<open>PONG\<close> arrives as \<open>PING\<close>, whose type byte it shares.
\<close>

theorem stream_delivers_messages:
  assumes "\<forall>(m, rid) \<in> set ms. wf_message m \<and> fits_frame m"
  shows "\<exists>b. send_all entropy zstd ms = Ok b \<and>
           read_messages decoder rd (length ms) (b @ rest) = Ok (map (\<lambda>(m, rid). (on_the_wire m, rid)) ms)"
  using assms by (rule send_all_read)

theorem stream_delivers_messages_witness:
  "\<exists>b. send_all (\<lambda>_. 0) (\<lambda>_ _. None)
          [(Ping \<lparr>ping_nonce = 7, ping_sender_ts_ms = 9\<rparr>, 1), (Bye \<lparr>bye_code = 5\<rparr>, 2)] = Ok b \<and>
       read_messages (\<lambda>_. None :: unit option) (\<lambda>_. None) 2 (b @ [1]) =
         Ok [(Ping \<lparr>ping_nonce = 7, ping_sender_ts_ms = 9\<rparr>, 1), (Bye \<lparr>bye_code = 5\<rparr>, 2)]"
  using stream_delivers_messages
    [of "[(Ping \<lparr>ping_nonce = 7, ping_sender_ts_ms = 9\<rparr>, 1), (Bye \<lparr>bye_code = 5\<rparr>, 2)]"
      "\<lambda>_. 0" "\<lambda>_ _. None" "\<lambda>_. None :: unit option" "\<lambda>_. None" "[1]"]
  by (simp add: fits_frame_def tagged_def ping_encode_def bye_encode_def numeral_2_eq_2)



text \<open>
  C13: No byte string makes a decoder panic: not a payload decoder under any type byte, not
  the frame decoder, and not the stream reader, whatever the zstd decoder does.
\<close>

theorem decoders_never_panic:
  "message_decode t payload \<noteq> Panic \<and> decode_frame buf \<noteq> Panic \<and> read_frame decoder rd recv \<noteq> Panic
   \<and> decode_data_frame_header buf \<noteq> Panic \<and> decode_data_preamble buf \<noteq> Panic"
  by (intro conjI message_decode_no_panic decode_frame_no_panic read_frame_no_panic
      decode_data_frame_header_no_panic decode_data_preamble_no_panic)

text \<open>
  C14: \<open>decode_frame\<close> accepts exactly the encodings of frames of at most one mebibyte: the
  buffer starts with the bytes that \<open>encode_frame\<close> writes for the decoded frame, so no two
  headers mean the same frame.
\<close>

theorem decode_frame_exact:
  "decode_frame buf = Ok fr \<longleftrightarrow>
     (\<exists>t f r payload rest.
        buf = frame_bytes t f r payload @ rest \<and> length payload \<le> 1048576 \<and>
        fr = \<lparr>frame_version = PROTOCOL_VERSION, frame_type_byte = t, frame_flags = f,
              frame_length = word_of_nat (length payload), frame_request_id = r,
              frame_payload = payload\<rparr>)"
  by (rule decode_frame_Ok_iff)

section \<open>A connection\<close>

text \<open>
  C15: Whatever frames, signals and migration verdicts a connection meets, a request is handled
  only for an identity that the authenticator accepted on this connection, and only after
  \<open>AUTH_OK\<close> for that identity has been sent.
\<close>

theorem served_only_after_authentication:
  assumes "session_run se ts s = (c, outs, r)" and "outs = pre @ Handled who ty ms # post"
  shows "authenticated se who \<and> (\<exists>rid. Reply (auth_ok_for se who) rid \<in> set pre)"
  using session_run_ok [OF assms(1)] assms(2) unfolding served_after_auth_def by blast

theorem served_only_after_authentication_witness:
  "\<exists>hb ab c. session_run sample_session [sample_turn HELLO hb, sample_turn AUTH ab, sample_turn CANCEL []] sample_server =
      (c, [Registered, Reply (hello_ack_for sample_session (hello_capabilities sample_hello)) 9,
           Reply (auth_ok_for sample_session sample_who) 9] @ Handled sample_who CANCEL [] # [Unregistered], Ok Serving)
    \<and> authenticated sample_session sample_who"
proof -
  obtain hb where hb: "hello_decode hb = Ok sample_hello" using sample_hello_wire by blast
  obtain ab where ab: "auth_decode ab = Ok auth_mtls" using sample_auth_wire by blast
  obtain c where run: "session_run sample_session [sample_turn HELLO hb, sample_turn AUTH ab, sample_turn CANCEL []] sample_server =
      (c, [Registered, Reply (hello_ack_for sample_session (hello_capabilities sample_hello)) 9,
           Reply (auth_ok_for sample_session sample_who) 9] @ Handled sample_who CANCEL [] # [Unregistered], Ok Serving)"
    using sample_connection [OF hb ab] by auto
  show ?thesis using served_only_after_authentication [OF run refl] run by blast
qed



text \<open>
  At every end of a connection the state is one that the loop handles, a connection in
  \<open>SERVING\<close> has an identity the authenticator accepted, one before \<open>AUTH_OK\<close> has none, and the
  count of failed attempts is below the limit while the connection is open.
\<close>

theorem connection_invariant:
  "conn_inv se (fst (session_run se ts s))"
  using session_run_ok by (metis prod.collapse)

text \<open>
  C17: A connection answers at most \<open>max_auth_attempts\<close> authentications with \<open>AUTH_FAILED\<close>, and at
  most one if the limit is zero.
\<close>

theorem auth_failures_bounded:
  "failures (fst (snd (session_run se ts s))) \<le> max 1 (unat (se_max_auth_attempts se))"
  using session_run_ok by (metis prod.collapse)

section \<open>Authorization and paths\<close>


text \<open>
  C19: \<open>STAT\<close> and \<open>LIST\<close> reveal nothing about transfers outside the grants of the asking
  identity: two stores that agree on the transfers it may list give the same answers.
\<close>

theorem queries_do_not_leak:
  assumes "sv_store s = Some st" and "sv_store s' = Some st'"
    and "distinct (map fst (ss_transfers st))" and "distinct (map fst (ss_transfers st'))"
    and "visible env who st = visible env who st'"
  shows "handle_stat env who payload s = handle_stat env who payload s'
    \<and> handle_list env who payload s = handle_list env who payload s'"
  unfolding stat_visible [OF assms(3,1)] stat_visible [OF assms(4,2)] list_visible [OF assms(1)] list_visible [OF assms(2)] assms(5)
  by (rule conjI refl)+

theorem queries_do_not_leak_witness:
  "handle_list sample_env (sample_who\<lparr>id_name := lit ''v''\<rparr>) [0] (sample_server\<lparr>sv_store := Some sample_store\<rparr>)
   = handle_list sample_env (sample_who\<lparr>id_name := lit ''v''\<rparr>) [0] (sample_server\<lparr>sv_store := Some ss_new\<rparr>)"
proof -
  have "visible sample_env (sample_who\<lparr>id_name := lit ''v''\<rparr>) sample_store
      = visible sample_env (sample_who\<lparr>id_name := lit ''v''\<rparr>) ss_new"
    by code_simp
  then show ?thesis
    using queries_do_not_leak [of "sample_server\<lparr>sv_store := Some sample_store\<rparr>" sample_store
        "sample_server\<lparr>sv_store := Some ss_new\<rparr>" ss_new sample_env "sample_who\<lparr>id_name := lit ''v''\<rparr>" "[0]"]
    by (simp add: sample_store_def ss_new_def)
qed

text \<open>
  C20: The authorizer accepts a request only with the path it was given, stripped of slashes at
  both ends and valid (or the root, for listing and synchronisation), and only if among the
  identity's grants whose prefix covers the path, one of greatest length allows the operation.
\<close>

theorem authorizer_sound:
  assumes "authorizer_check grants who p raw = Ok v"
  shows "(vpath_ok (vpath_str v) \<or> vpath_str v = [] \<and> (p = OpSync \<or> p = OpList)) \<and> vpath_str v = trim_slashes raw
    \<and> (\<exists>g \<in> set (candidates (id_name who) (vpath_str v) grants). op_allowed p (gr_permissions g)
         \<and> (\<forall>g' \<in> set (candidates (id_name who) (vpath_str v) grants). grant_len g' \<le> grant_len g))"
  by (rule authorizer_check_Ok [OF assms])

theorem authorizer_sound_witness:
  "authorizer_check sample_grants sample_who OpUpload (lit ''/a/x'') = Ok (VPath (lit ''a/x''))
   \<and> vpath_ok (lit ''a/x'')"
proof -
  have "authorizer_check sample_grants sample_who OpUpload (lit ''/a/x'') = Ok (VPath (lit ''a/x''))" by code_simp
  moreover have "vpath_ok (lit ''a/x'')" using authorizer_sound [OF calculation] by auto
  ultimately show ?thesis ..
qed

text \<open>
  C21: The deletion limiter lets an identity delete at most \<open>max_deletions\<close> times within any
  window, however the calls of all identities are spread in time.
\<close>

theorem deletions_within_limit:
  "sorted (map snd calls) \<Longrightarrow>
     length (filter (\<lambda>a. a \<le> t \<and> t - a \<le> unat w * 1000000000) (deletions_allowed who m w calls [])) \<le> unat m"
  by (rule limiter_bound)

theorem deletions_within_limit_witness:
  "length (filter (\<lambda>a. a \<le> 9 \<and> 9 - a \<le> 60000000000) (deletions_allowed (lit ''u'') 1 60 [(lit ''u'', 1), (lit ''u'', 9)] [])) \<le> 1"
  using deletions_within_limit [of "[(lit ''u'', 1), (lit ''u'', 9)]" 9 60 "lit ''u''" 1] by simp


text \<open>
  C23: A validated path, walked component by component as a POSIX path from any directory, goes
  down only: it ends that many components below the start.
\<close>

theorem validated_path_stays_below_root:
  "vpath_validate raw = Ok p \<Longrightarrow> posix_walk (components (vpath_str p)) dir = Some (dir @ components raw)"
  by (auto simp: vpath_validate_iff vpath_walk)

theorem validated_path_stays_below_root_witness:
  "posix_walk (components (lit ''a/x'')) [lit ''srv''] = Some ([lit ''srv''] @ components (lit ''a/x''))"
proof -
  have "vpath_validate (lit ''a/x'') = Ok (VPath (lit ''a/x''))" by code_simp
  from validated_path_stays_below_root [OF this] show ?thesis by simp
qed

text \<open>
  C24: A symbolic link whose target is accepted and holds no backslash resolves within the root
  when its target is walked from the directory of the link.
\<close>

theorem symlink_target_contained:
  assumes "validate_symlink_target link t = Ok p" and "backslash \<notin> set t"
  shows "\<exists>os. posix_walk (components t) (link_dir link) = Some os"
  by (rule symlink_target_walk [OF assms])

theorem symlink_target_contained_witness:
  "\<exists>os. posix_walk (components (lit ''../b'')) (link_dir (VPath (lit ''a/x''))) = Some os"
proof -
  have "validate_symlink_target (VPath (lit ''a/x'')) (lit ''../b'') = Ok (VPath (lit ''b''))" by code_simp
  moreover have "backslash \<notin> set (lit ''../b'')" by code_simp
  ultimately show ?thesis by (rule symlink_target_contained)
qed


section \<open>Transfers that survive retries and restarts\<close>



text \<open>
  C27: After an accepted upsert, any retry with the same role and key changes nothing: it gets
  the recorded transfer back if its parameters match, and a conflict if they do not.
\<close>

theorem upsert_is_idempotent:
  assumes "ss_inv s" and "map_of (ss_transfers s) (tr_transfer_id r) = None"
    and "ss_upsert_transfer r s = (s', Ok out)"
  shows "\<exists>e. ss_get_by_idempotency (tr_role r) (tr_idempotency_key r) s' = Ok e \<and> ss_inv s'
    \<and> verify_idempotency_compat e r = Ok ()
    \<and> (\<forall>r'. tr_role r' = tr_role r \<and> tr_idempotency_key r' = tr_idempotency_key r \<longrightarrow>
         ss_upsert_transfer r' s' = (s', and_then (verify_idempotency_compat e r') (\<lambda>_. Ok (Reused e))))"
  using assms by (rule mock.retry)

theorem upsert_is_idempotent_witness:
  "\<exists>e. ss_get_by_idempotency Server (lit ''k'') (fst (ss_upsert_transfer sample_record ss_new)) = Ok e"
proof -
  have "ss_upsert_transfer sample_record ss_new = (fst (ss_upsert_transfer sample_record ss_new), Ok Inserted)"
    by (simp add: ss_upsert_transfer_def ss_new_def)
  from upsert_is_idempotent [OF ss_inv_new _ this] show ?thesis
    by (auto simp: ss_new_def sample_record_def)
qed





text \<open>
  C30: Two connections that evaluate the same new key at the same time may both start: the
  ledger's lookup and its insertion are under separate locks, and both lookups can come first.
\<close>

theorem ledger_race_starts_twice:
  assumes "map_of l (role, key) = None" and "i \<noteq> j"
  shows "\<exists>l'. (ledger_step None)\<^sup>*\<^sup>*
     (l, [Asking \<lparr>rq_role = role, rq_key = key, rq_path = path, rq_size = sz, rq_new_id = i, rq_now = now\<rparr>,
          Asking \<lparr>rq_role = role, rq_key = key, rq_path = path, rq_size = sz, rq_new_id = j, rq_now = now\<rparr>])
     (l', [Answered (ProceedNew i), Answered (ProceedNew j)])"
  by (rule two_misses_both_proceed [OF assms])

theorem ledger_race_starts_twice_witness:
  "\<exists>l'. (ledger_step None)\<^sup>*\<^sup>*
     ([], [Asking \<lparr>rq_role = Server, rq_key = lit ''k'', rq_path = [], rq_size = 5, rq_new_id = sample_id 1, rq_now = 0\<rparr>,
           Asking \<lparr>rq_role = Server, rq_key = lit ''k'', rq_path = [], rq_size = 5, rq_new_id = sample_id 2, rq_now = 0\<rparr>])
     (l', [Answered (ProceedNew (sample_id 1)), Answered (ProceedNew (sample_id 2))])"
  using ledger_race_starts_twice [of "[]" Server "lit ''k''" "sample_id 1" "sample_id 2" "[]" 5 0]
  by (simp add: sample_id_def)

text \<open>
  After a restart has emptied the ledger, a retried request still finds the transfer that
  the store recorded, unless that transfer was cancelled.
\<close>

theorem restart_finds_recorded_transfer:
  assumes "ss_inv s" and "map_of (ss_transfers s) (tr_transfer_id r) = None"
    and "ss_upsert_transfer r s = (s', Ok out)" and "map_of l (tr_role r, tr_idempotency_key r) = None"
  shows "\<exists>e. ss_get_by_idempotency (tr_role r) (tr_idempotency_key r) s' = Ok e \<and>
    action_id (snd (evaluate_transfer_create (Some (\<lambda>role key. ss_get_by_idempotency role key s')) new_id now
       (tr_role r) (tr_idempotency_key r) (tr_remote_path r) (tr_file_size r) l))
      = (if tr_status e = Cancelled then None else Some (tr_transfer_id e))"
  using assms by (rule mock.restart_finds_transfer)

theorem restart_finds_recorded_transfer_witness:
  "action_id (snd (evaluate_transfer_create
        (Some (\<lambda>role key. ss_get_by_idempotency role key (fst (ss_upsert_transfer sample_record ss_new)))) (sample_id 9) 0
        Server (lit ''k'') (lit ''a/x'') 5 [])) = Some (sample_id 3)"
proof -
  let ?s = "fst (ss_upsert_transfer sample_record ss_new)"
  have up: "ss_upsert_transfer sample_record ss_new = (?s, Ok Inserted)"
    by (simp add: ss_upsert_transfer_def ss_new_def)
  have known: "ss_get_by_idempotency Server (lit ''k'') ?s = Ok sample_record"
    by (simp add: ss_upsert_transfer_def ss_new_def ss_get_by_idempotency_def sample_record_def)
  have fields: "tr_role sample_record = Server" "tr_idempotency_key sample_record = lit ''k''"
    "tr_remote_path sample_record = lit ''a/x''" "tr_file_size sample_record = 5"
    "tr_status sample_record = Active" "tr_transfer_id sample_record = sample_id 3"
    by (simp_all add: sample_record_def)
  have "map_of (ss_transfers ss_new) (tr_transfer_id sample_record) = None" by (simp add: ss_new_def)
  from restart_finds_recorded_transfer [OF ss_inv_new this up, of "[]" "sample_id 9" 0] show ?thesis
    unfolding fields by (auto simp: known fields)
qed

section \<open>Sets of chunks\<close>

text \<open>
  C31: The completed bytes of a bitmap count each chunk once, at its first mark, and saturate
  at the largest 64-bit number; the first gap it reports is the first index not marked.
\<close>

theorem bitmap_counts_chunks_once:
  "unat (bm_bytes_completed (fold (\<lambda>(i, n) bm. fst (bm_mark_complete i n bm)) ms bm_new)) = min (first_marks [] ms) (2 ^ 64 - 1)
   \<and> (bm_first_missing_from bm i = Some j \<longrightarrow>
       i \<le> j \<and> \<not> bm_contains bm j \<and> (\<forall>k. i \<le> k \<and> k < j \<longrightarrow> bm_contains bm k))"
  using bm_bytes_marks [of ms bm_new] bm_first_missing_Some by (auto simp: bm_new_def)

theorem bitmap_counts_chunks_once_witness:
  "bm_contains (fst (bm_mark_complete 0 10 bm_new)) 0 \<and> \<not> bm_contains (fst (bm_mark_complete 0 10 bm_new)) 1
   \<and> first_marks [] [(0, 10), (0, 10), (1, 5)] = 15"
proof -
  have "bm_first_missing_from (fst (bm_mark_complete 0 10 bm_new)) 0 = Some 1"
    by (subst bm_first_missing_from.simps, subst bm_first_missing_from.simps)
      (simp add: bm_mark_complete_def bm_new_def saturating_add_def set_insort_insert)
  with bitmap_counts_chunks_once [of "[]" "fst (bm_mark_complete 0 10 bm_new)" 0 1] show ?thesis
    by (auto simp: word_le_nat_alt)
qed

text \<open>
  C32: A have/need bitmap of fewer than 4294967296 chunks survives its run-length encoding: what the
  receiver decodes has the same bits, and answers a query for any chunk with its bit.
\<close>

theorem have_bitmap_survives_wire:
  assumes "length bits < 2 ^ 32"
  shows "\<exists>b bm. rle_encode (rle_from_bits bits) = Ok b \<and> rle_decode b (word_of_nat (length bits)) = Ok bm
    \<and> rle_to_bits bm = bits \<and> (\<forall>i < length bits. rle_get bm i = Some (bits ! i))"
proof -
  let ?bm = "rle_from_bits bits"
  note spec = rle_from_bits_spec [OF assms]
  have "unat (rle_total_chunks ?bm) = length bits" using spec by simp
  then have "rle_total_chunks ?bm = word_of_nat (length bits)" using assms by (simp add: word_unat_eq_iff unsigned_of_nat take_bit_nat_eq_self)
  moreover obtain b where "rle_encode ?bm = Ok b" "rle_decode b (rle_total_chunks ?bm) = Ok ?bm"
    using rle_decode_encode [of ?bm] spec by (auto simp: res_simps)
  ultimately show ?thesis using spec rle_get_nth [of ?bm] by auto
qed

theorem have_bitmap_survives_wire_witness:
  "\<exists>b bm. rle_encode (rle_from_bits [True, True, False]) = Ok b \<and> rle_decode b (word_of_nat 3) = Ok bm
    \<and> rle_get bm 2 = Some False"
proof -
  have n: "length [True, True, False] = 3" by simp
  obtain b bm where bm: "rle_encode (rle_from_bits [True, True, False]) = Ok b" "rle_decode b (word_of_nat 3) = Ok bm"
    "\<forall>i < 3. rle_get bm i = Some ([True, True, False] ! i)"
    using have_bitmap_survives_wire [of "[True, True, False]", unfolded n] by auto
  have "rle_get bm 2 = Some ([True, True, False] ! 2)" by (rule bm(3) [rule_format]) simp
  with bm show ?thesis by (metis nth_Cons_0 nth_Cons_Suc numeral_2_eq_2)
qed

text \<open>
  C33: The Bloom filter of an inventory has no false negatives, also after it has crossed the
  wire: for any sizing, every hash that was inserted is reported as present.
\<close>

theorem bloom_filter_keeps_chunks:
  assumes "\<forall>x \<in> set xs. wf_hash x"
  shows "\<exists>f g. bf_insert_all (bf_new sizing n fp) xs = Ok f
    \<and> bf_from_bytes (bf_to_bytes f) (bf_num_bits f) (bf_num_hashes f) = Ok g
    \<and> (\<forall>x \<in> set xs. bf_contains g x = Ok True)"
  using bf_no_false_negatives [OF bf_inv_new assms] bf_from_to_bytes by metis

theorem bloom_filter_keeps_chunks_witness:
  "\<exists>f g. bf_insert_all (bf_new (\<lambda>_ _. (64, 2)) 1 ()) [Hash (replicate 32 7)] = Ok f
    \<and> bf_from_bytes (bf_to_bytes f) (bf_num_bits f) (bf_num_hashes f) = Ok g
    \<and> bf_contains g (Hash (replicate 32 7)) = Ok True"
  using bloom_filter_keeps_chunks [of "[Hash (replicate 32 7)]" "\<lambda>_ _. (64, 2)" 1 "()"] by simp

section \<open>Compression and encryption\<close>





text \<open>
  An encrypted data frame whose payload leaves room for nonce and tag is read back: the
  receiver finds header, length and hash, and decrypts the payload at its position.
\<close>

theorem encrypted_frame_arrives:
  assumes "aead_correct seal opn" and "wf_tid tid" and "wf_hash h"
    and "encode_data_frame_encrypted entropy zstd seal rng off idx tid h payload False c = Ok b"
    and "length payload \<le> 4194304 - 28"
  shows "\<exists>hdr raw. decode_data_frame_header b = Ok (hdr, raw) \<and> unat (dfh_chunk_len hdr) = length raw \<and>
           dfh_chunk_hash hdr = h \<and> decode_data_frame_encrypted opn bulk hdr idx tid raw c = Ok payload"
  by (rule encrypted_frame_plain [OF assms])

theorem encrypted_frame_arrives_witness:
  "\<exists>b hdr raw. encode_data_frame_encrypted (\<lambda>_. 0) (\<lambda>_ _. None) sample_seal (Some (replicate 12 0)) 0 0 (sample_id 3)
        (Hash (replicate 32 1)) [5, 6] False sample_cipher = Ok b
     \<and> decode_data_frame_header b = Ok (hdr, raw)
     \<and> decode_data_frame_encrypted sample_open (\<lambda>_ _. Inl []) hdr 0 (sample_id 3) raw sample_cipher = Ok [5, 6]"
proof -
  have h: "wf_hash (Hash (replicate 32 1))" by simp
  obtain b where b: "encode_data_frame_encrypted (\<lambda>_. 0) (\<lambda>_ _. None) sample_seal (Some (replicate 12 0)) 0 0 (sample_id 3)
      (Hash (replicate 32 1)) [5, 6] False sample_cipher = Ok b"
    by (simp add: encode_data_frame_encrypted_def sample_encrypt encode_data_frame_eq)
  from encrypted_frame_arrives [OF sample_aead(1) sample_id_wf h b, of "\<lambda>_ _. Inl []"] b show ?thesis by auto
qed



section \<open>Where retries diverge\<close>



section \<open>Locks\<close>

text \<open>
  C38: Whatever sequence of acquisitions, renewals, releases, purges and restarts a lock manager
  has gone through, and whether its writes succeeded or not, an exclusive lease that is in
  force is the only one on its resource, and its fencing token is the only one that passes.
\<close>

theorem exclusive_lock_is_alone:
  assumes "m = fst (lm_run ps (lm_with_ttl d x lm_new))"
    and "l \<in> set (inspect r now m)" and "ll_mode l = Exclusive"
  shows "inspect r now m = [l] \<and> (verify_fencing r t now m \<longleftrightarrow> t = ll_fencing_token l)"
  unfolding assms(1)
  by (rule inspect_alone [OF lm_run_inv [OF lm_new_inv(1)]]) (use assms in simp_all)

theorem exclusive_lock_is_alone_witness:
  "\<exists>l. inspect (lit ''db'') 20
       (fst (lm_run [Acquire True 1 (lit ''/db'') (lit ''a'') Exclusive None 10, Acquire True 2 (lit ''db'') (lit ''b'') Shared None 11]
          (lm_with_ttl 60 3600 lm_new))) = [l]
     \<and> \<not> verify_fencing (lit ''db'') 102 20
       (fst (lm_run [Acquire True 1 (lit ''/db'') (lit ''a'') Exclusive None 10, Acquire True 2 (lit ''db'') (lit ''b'') Shared None 11]
          (lm_with_ttl 60 3600 lm_new)))"
proof -
  let ?m = "fst (lm_run [Acquire True 1 (lit ''/db'') (lit ''a'') Exclusive None 10, Acquire True 2 (lit ''db'') (lit ''b'') Shared None 11]
          (lm_with_ttl 60 3600 lm_new))"
  have "map (\<lambda>l. (ll_mode l, ll_fencing_token l)) (inspect (lit ''db'') 20 ?m) = [(Exclusive, 101)]"
    by code_simp
  then obtain l where l: "l \<in> set (inspect (lit ''db'') 20 ?m)" "ll_mode l = Exclusive" "ll_fencing_token l = 101"
    by (cases "inspect (lit ''db'') 20 ?m") auto
  have "inspect (lit ''db'') 20 ?m = [l] \<and> (verify_fencing (lit ''db'') 102 20 ?m \<longleftrightarrow> 102 = ll_fencing_token l)"
    by (rule exclusive_lock_is_alone [OF refl l(1,2)])
  then show ?thesis unfolding l(3) by (intro exI [of _ l]) simp
qed

text \<open>
  C39: The fencing tokens of a persistent lock manager strictly increase, over all resources
  and over restarts, as long as the write that follows each acquisition succeeds.
\<close>

theorem fencing_tokens_increase:
  assumes "\<forall>p \<in> set ps. reliable p" and "length ps < 2 ^ 64 - 100"
  shows "sorted_wrt (<) (map ll_fencing_token (snd (lm_run ps (with_persistence None (lm_with_ttl d x lm_new)))))"
  using assms by (rule fresh_run_tokens)

theorem fencing_tokens_increase_witness:
  "sorted_wrt (<) (map ll_fencing_token
     (snd (lm_run [Acquire True 1 (lit ''db'') (lit ''a'') Exclusive None 10, Restart 60 3600,
                   Acquire True 2 (lit ''log'') (lit ''b'') Shared None 11]
            (with_persistence None (lm_with_ttl 60 3600 lm_new)))))
   \<and> map ll_fencing_token
     (snd (lm_run [Acquire True 1 (lit ''db'') (lit ''a'') Exclusive None 10, Restart 60 3600,
                   Acquire True 2 (lit ''log'') (lit ''b'') Shared None 11]
            (with_persistence None (lm_with_ttl 60 3600 lm_new)))) = [101, 102]"
proof
  show "map ll_fencing_token
     (snd (lm_run [Acquire True 1 (lit ''db'') (lit ''a'') Exclusive None 10, Restart 60 3600,
                   Acquire True 2 (lit ''log'') (lit ''b'') Shared None 11]
            (with_persistence None (lm_with_ttl 60 3600 lm_new)))) = [101, 102]"
    by code_simp
qed (rule fencing_tokens_increase, simp_all)

section \<open>Recovery reports\<close>

text \<open>
  C40: A repeated source symbol hides a loss: the report counts symbols as they arrive, so a block
  whose second source was lost and rebuilt from the parity is reported with no lost and no recovered
  symbol if the first source arrived twice.
\<close>

theorem duplicates_hide_recovery:
  assumes "length data < 2 ^ 62"
  shows "\<exists>h a b p rep. encode_block block_id data 2 1 = Ok (h, [a, b, p]) \<and> decode_block h [a, a, p] = Ok (Some data, rep)
    \<and> rr_lost_source_count rep = 0 \<and> rr_recovered_source_count rep = 0
    \<and> (\<exists>rep'. decode_block h [a, p] = Ok (Some data, rep') \<and> rr_lost_source_count rep' = 1 \<and> rr_recovered_source_count rep' = 1)"
  by (rule repeated_source_report [OF assms])

theorem duplicates_hide_recovery_witness:
  "\<exists>h a b p rep. encode_block 1 [9, 8, 7] 2 1 = Ok (h, [a, b, p]) \<and> decode_block h [a, a, p] = Ok (Some [9, 8, 7], rep)
    \<and> rr_lost_source_count rep = 0"
  using duplicates_hide_recovery [of "[9, 8, 7]" 1] by auto

end
